(* ===== verification/Prelude.thy ===== *)
theory Prelude
  imports Main "HOL-Library.Word" "HOL-Library.Char_ord" "HOL-Library.List_Lexorder"
    "HOL-Library.AList" "HOL-Library.Multiset"
begin

text \<open>
  Shared vocabulary of the development: machine integers at their width, the
  outcome of a fallible Rust function (value, error or panic), byte strings,
  the byte orders, and the generic list lemmas that the component theories
  rest on.

  Lengths and in-memory indices (\<open>usize\<close> on the 64-bit targets the program
  supports) are natural numbers; a quantity whose width matters is a word or
  carries an explicit \<open>mod\<close>. Arithmetic that may overflow follows the release
  profile (wrap-around); explicit checks of the source (\<open>checked_add\<close>,
  \<open>assert!\<close>, \<open>unwrap\<close>) are branches of the model.
\<close>

unbundle bit_operations_syntax

section \<open>Machine integers\<close>

type_synonym u8 = "8 word"
type_synonym u16 = "16 word"
type_synonym u32 = "32 word"
type_synonym u64 = "64 word"
type_synonym i32 = "32 word"
type_synonym bytes = "u8 list"

named_theorems byte_simps
named_theorems wf_intros

text \<open>The largest values of the unsigned types, as natural numbers.\<close>

abbreviation U32_MAX :: nat where "U32_MAX \<equiv> 4294967295"
abbreviation U64_MAX :: nat where "U64_MAX \<equiv> 18446744073709551615"

section \<open>Outcomes\<close>

text \<open>
  A Rust function that returns \<open>Result<T, E>\<close> and may panic: \<open>Ok\<close> and \<open>Err\<close> are the
  two constructors of \<open>Result\<close>, \<open>Panic\<close> stands for an unwinding panic.
\<close>

datatype ('e, 'a) outcome = Ok 'a | Err 'e | Panic

primrec obind :: "('e, 'a) outcome \<Rightarrow> ('a \<Rightarrow> ('e, 'b) outcome) \<Rightarrow> ('e, 'b) outcome" where
  "obind (Ok x) f = f x"
| "obind (Err e) f = Err e"
| "obind Panic f = Panic"

lemma obind_eq_Ok [simp]: "obind m f = Ok y \<longleftrightarrow> (\<exists>x. m = Ok x \<and> f x = Ok y)"
  by (cases m) auto

lemma obind_cong [fundef_cong]:
  "m = m' \<Longrightarrow> (\<And>x. m' = Ok x \<Longrightarrow> f x = g x) \<Longrightarrow> obind m f = obind m' g"
  by (cases m') auto

primrec is_ok :: "('e, 'a) outcome \<Rightarrow> bool" where
  "is_ok (Ok x) \<longleftrightarrow> True"
| "is_ok (Err e) \<longleftrightarrow> False"
| "is_ok Panic \<longleftrightarrow> False"

text \<open>\<open>iter.map(f).collect::<Result<Vec<_>, _>>()\<close>: the first error stops.\<close>

primrec collect :: "('a \<Rightarrow> ('e, 'b) outcome) \<Rightarrow> 'a list \<Rightarrow> ('e, 'b list) outcome" where
  "collect f [] = Ok []"
| "collect f (x # xs) = obind (f x) (\<lambda>y. obind (collect f xs) (\<lambda>ys. Ok (y # ys)))"

lemma collect_Ok: "collect f xs = Ok ys \<longleftrightarrow> list_all2 (\<lambda>x y. f x = Ok y) xs ys"
  by (induction xs arbitrary: ys) (auto simp: list_all2_Cons1)

lemma those_Some: "those os = Some xs \<longleftrightarrow> os = map Some xs"
  by (induction os arbitrary: xs) (auto split: option.splits simp: map_eq_Cons_conv Cons_eq_map_conv)

section \<open>Strings and ASCII case\<close>

text \<open>
  A \<open>&str\<close> is the list of its UTF-8 bytes; \<open>string\<close> (a list of 8-bit characters) is
  that list, and its lexicographic order is the byte order of \<open>str\<close>.
\<close>

definition as_bytes :: "string \<Rightarrow> bytes" where
  "as_bytes s = map of_char s"

definition str_of_bytes :: "bytes \<Rightarrow> string" where
  "str_of_bytes bs = map (\<lambda>b. char_of (unat b)) bs"

lemma of_char_less: "(of_char c :: nat) < 256"
proof -
  have "(of_char c :: nat) \<in> range of_char" by simp
  then show ?thesis by (simp only: range_nat_of_char) simp
qed

lemma unat_of_char: "unat (of_char c :: u8) = of_char c"
proof -
  have "(of_char c :: u8) = of_nat (of_char c)" by (simp only: of_nat_of_char)
  then show ?thesis using of_char_less [of c] by (simp only: unat_of_nat) simp
qed

lemma length_as_bytes [simp]: "length (as_bytes s) = length s"
  by (simp add: as_bytes_def)

lemma str_of_as_bytes [simp]: "str_of_bytes (as_bytes s) = s"
  by (simp add: str_of_bytes_def as_bytes_def o_def map_idI unat_of_char)

lemma as_bytes_inj [simp]: "as_bytes s = as_bytes t \<longleftrightarrow> s = t"
  by (metis str_of_as_bytes)

lemma as_bytes_append [simp]: "as_bytes (s @ t) = as_bytes s @ as_bytes t"
  by (simp add: as_bytes_def)

lemma as_bytes_Nil [simp]: "as_bytes [] = []"
  by (simp add: as_bytes_def)

lemma as_bytes_Cons: "as_bytes (c # s) = of_char c # as_bytes s"
  by (simp add: as_bytes_def)

definition is_ascii_uppercase :: "char \<Rightarrow> bool" where
  "is_ascii_uppercase c \<longleftrightarrow> 65 \<le> (of_char c :: nat) \<and> (of_char c :: nat) \<le> 90"

definition ascii_lower :: "char \<Rightarrow> char" where
  "ascii_lower c = (if is_ascii_uppercase c then char_of ((of_char c :: nat) + 32) else c)"

definition to_ascii_lowercase :: "string \<Rightarrow> string" where
  "to_ascii_lowercase s = map ascii_lower s"

definition eq_ignore_ascii_case :: "string \<Rightarrow> string \<Rightarrow> bool" where
  "eq_ignore_ascii_case s t \<longleftrightarrow> to_ascii_lowercase s = to_ascii_lowercase t"

lemma nat_of_char_of [simp]: "n < 256 \<Longrightarrow> (of_char (char_of (n :: nat)) :: nat) = n"
  by (simp add: take_bit_eq_mod)

lemma ascii_lower_not_upper [simp]: "\<not> is_ascii_uppercase (ascii_lower c)"
  by (auto simp: ascii_lower_def is_ascii_uppercase_def)

lemma ascii_lower_id: "\<not> is_ascii_uppercase c \<Longrightarrow> ascii_lower c = c"
  by (simp add: ascii_lower_def)

lemma ascii_lower_idem [simp]: "ascii_lower (ascii_lower c) = ascii_lower c"
  by (rule ascii_lower_id) simp

lemma to_ascii_lowercase_idem [simp]:
  "to_ascii_lowercase (to_ascii_lowercase s) = to_ascii_lowercase s"
  by (simp add: to_ascii_lowercase_def)

lemma to_ascii_lowercase_Nil [simp]: "to_ascii_lowercase [] = []"
  by (simp add: to_ascii_lowercase_def)

lemma to_ascii_lowercase_append [simp]:
  "to_ascii_lowercase (s @ t) = to_ascii_lowercase s @ to_ascii_lowercase t"
  by (simp add: to_ascii_lowercase_def)

lemma length_to_ascii_lowercase [simp]: "length (to_ascii_lowercase s) = length s"
  by (simp add: to_ascii_lowercase_def)

lemma to_ascii_lowercase_id:
  "\<not> list_ex is_ascii_uppercase s \<Longrightarrow> to_ascii_lowercase s = s"
  by (auto simp: to_ascii_lowercase_def list_ex_iff intro!: map_idI ascii_lower_id)

lemma to_ascii_lowercase_eq_Nil [simp]: "to_ascii_lowercase s = [] \<longleftrightarrow> s = []"
  by (simp add: to_ascii_lowercase_def)

section \<open>Bytes as numbers\<close>

text \<open>Base-256 digits, least significant first, and the fixed-width inverse.\<close>

primrec le_nat :: "bytes \<Rightarrow> nat" where
  "le_nat [] = 0"
| "le_nat (b # bs) = unat b + 256 * le_nat bs"

primrec nat_le :: "nat \<Rightarrow> nat \<Rightarrow> bytes" where
  "nat_le 0 n = []"
| "nat_le (Suc k) n = of_nat (n mod 256) # nat_le k (n div 256)"

definition be_nat :: "bytes \<Rightarrow> nat" where
  "be_nat bs = le_nat (rev bs)"

definition nat_be :: "nat \<Rightarrow> nat \<Rightarrow> bytes" where
  "nat_be k n = rev (nat_le k n)"

lemma unat_u8_less [simp]: "unat (b :: u8) < 256"
  using unsigned_less [of b] by simp

lemma unat_of_nat_u8: "unat (of_nat n :: u8) = n mod 256"
  by (simp add: unat_of_nat)

lemma length_nat_le [simp]: "length (nat_le k n) = k"
  by (induction k arbitrary: n) auto

lemma length_nat_be [simp]: "length (nat_be k n) = k"
  by (simp add: nat_be_def)

lemma le_nat_less: "le_nat bs < 256 ^ length bs"
proof (induction bs)
  case (Cons b bs)
  have "unat b + 256 * le_nat bs < 256 + 256 * le_nat bs" by simp
  also have "\<dots> = 256 * (le_nat bs + 1)" by simp
  also have "\<dots> \<le> 256 * 256 ^ length bs" using Cons by (intro mult_le_mono2) simp
  finally show ?case by simp
qed simp

lemma be_nat_less: "be_nat bs < 256 ^ length bs"
  using le_nat_less [of "rev bs"] by (simp add: be_nat_def)

lemma le_nat_nat_le [byte_simps]: "le_nat (nat_le k n) = n mod 256 ^ k"
  by (induction k arbitrary: n) (simp_all add: unat_of_nat_u8 mod_mult2_eq)

lemma nat_le_le_nat [byte_simps]: "nat_le (length bs) (le_nat bs) = bs"
proof (induction bs)
  case (Cons b bs)
  have "(unat b + 256 * le_nat bs) mod 256 = unat b"
    by simp
  moreover have "(unat b + 256 * le_nat bs) div 256 = le_nat bs"
    by (simp add: div_add1_eq)
  ultimately show ?case using Cons by simp
qed simp

lemma be_nat_nat_be [byte_simps]: "be_nat (nat_be k n) = n mod 256 ^ k"
  by (simp add: be_nat_def nat_be_def le_nat_nat_le)

lemma nat_be_be_nat [byte_simps]: "nat_be (length bs) (be_nat bs) = bs"
  by (metis be_nat_def nat_be_def nat_le_le_nat length_rev rev_rev_ident)

lemma le_nat_append: "le_nat (xs @ ys) = le_nat xs + 256 ^ length xs * le_nat ys"
  by (induction xs) (simp_all add: algebra_simps)

lemma be_nat_append: "be_nat (xs @ ys) = be_nat xs * 256 ^ length ys + be_nat ys"
  by (simp add: be_nat_def le_nat_append)

lemma be_nat_Nil [simp]: "be_nat [] = 0"
  by (simp add: be_nat_def)

lemma be_nat_single [simp]: "be_nat [b] = unat b"
  by (simp add: be_nat_def)

lemma le_nat_replicate_0 [simp]: "le_nat (replicate k 0) = 0"
  by (induction k) auto

lemma nat_le_0 [simp]: "nat_le k 0 = replicate k 0"
  by (induction k) auto

lemma nat_le_add: "nat_le (j + k) n = nat_le j n @ nat_le k (n div 256 ^ j)"
  by (induction j arbitrary: n) (simp_all add: div_mult2_eq)

lemma nat_le_mod: "k \<le> j \<Longrightarrow> nat_le k (n mod 256 ^ j) = nat_le k n"
proof (induction k arbitrary: n j)
  case (Suc k)
  then obtain j' where j: "j = Suc j'" and "k \<le> j'" by (cases j) auto
  have "n mod 256 ^ j mod 256 = n mod 256" by (simp add: j mod_mult2_eq)
  moreover have "n mod 256 ^ j div 256 = n div 256 mod 256 ^ j'"
    by (simp add: j mod_mult2_eq)
  ultimately show ?case using Suc.IH [OF \<open>k \<le> j'\<close>] by simp
qed simp

section \<open>Slices and chunks\<close>

text \<open>
  \<open>bytes.get(a..b)\<close> of a slice: \<open>None\<close> when the range is out of bounds; and
  \<open>bytes.get(a..)\<close>.
\<close>

definition get_range :: "'a list \<Rightarrow> nat \<Rightarrow> nat \<Rightarrow> 'a list option" where
  "get_range xs a b = (if a \<le> b \<and> b \<le> length xs then Some (take (b - a) (drop a xs)) else None)"

definition get_from :: "'a list \<Rightarrow> nat \<Rightarrow> 'a list option" where
  "get_from xs a = (if a \<le> length xs then Some (drop a xs) else None)"

definition nth_opt :: "'a list \<Rightarrow> nat \<Rightarrow> 'a option" where
  "nth_opt xs i = (if i < length xs then Some (xs ! i) else None)"

text \<open>The slice \<open>xs[a..b]\<close> for a range known to be in bounds.\<close>

definition slice :: "nat \<Rightarrow> nat \<Rightarrow> 'a list \<Rightarrow> 'a list" where
  "slice a b xs = take (b - a) (drop a xs)"

lemma length_slice: "b \<le> length xs \<Longrightarrow> length (slice a b xs) = b - a"
  by (simp add: slice_def)

lemma slice_append: "a \<le> b \<Longrightarrow> b \<le> c \<Longrightarrow> slice a b xs @ slice b c xs = slice a c xs"
proof -
  assume "a \<le> b" "b \<le> c"
  then have "drop b xs = drop (b - a) (drop a xs)" and "c - a = (b - a) + (c - b)"
    by simp_all
  then show ?thesis by (simp add: slice_def take_add)
qed

lemma slice_full [simp]: "slice 0 (length xs) xs = xs"
  by (simp add: slice_def)

lemma slice_empty [simp]: "slice a a xs = []"
  by (simp add: slice_def)

text \<open>
  \<open>as_chunks::<N>()\<close>: the complete chunks of \<open>n\<close> elements and the remainder.
\<close>

function as_chunks :: "nat \<Rightarrow> 'a list \<Rightarrow> 'a list list \<times> 'a list" where
  "as_chunks n xs =
     (if n = 0 \<or> length xs < n then ([], xs)
      else case as_chunks n (drop n xs) of (cs, r) \<Rightarrow> (take n xs # cs, r))"
  by pat_completeness auto
termination
  by (relation "measure (\<lambda>(n, xs). length xs)") auto

declare as_chunks.simps [simp del]

lemma as_chunks_short: "n = 0 \<or> length xs < n \<Longrightarrow> as_chunks n xs = ([], xs)"
  by (subst as_chunks.simps) simp

lemma as_chunks_step:
  "0 < n \<Longrightarrow> length c = n \<Longrightarrow>
     as_chunks n (c @ xs) = (c # fst (as_chunks n xs), snd (as_chunks n xs))"
  by (subst as_chunks.simps) (simp split: prod.split)

lemma as_chunks_induct [case_names short step]:
  assumes "\<And>xs. length xs < n \<Longrightarrow> P xs"
    and "\<And>c xs. length c = n \<Longrightarrow> P xs \<Longrightarrow> P (c @ xs)"
    and "0 < n"
  shows "P xs"
proof (induction xs rule: length_induct)
  case (1 xs)
  show ?case
  proof (cases "length xs < n")
    case True
    then show ?thesis by (rule assms(1))
  next
    case False
    with assms(3) have "P (drop n xs)" using 1 by simp
    with False have "P (take n xs @ drop n xs)" by (intro assms(2)) simp_all
    then show ?thesis by simp
  qed
qed

lemma concat_as_chunks: "concat (fst (as_chunks n xs)) @ snd (as_chunks n xs) = xs"
proof (cases "n = 0")
  case False
  then have "0 < n" by simp
  show ?thesis
    by (induction xs rule: as_chunks_induct [OF _ _ \<open>0 < n\<close>])
      (simp_all add: as_chunks_short as_chunks_step \<open>0 < n\<close>)
qed (simp add: as_chunks_short)

lemma as_chunks_length:
  assumes "0 < n"
  shows "(\<forall>c \<in> set (fst (as_chunks n xs)). length c = n) \<and> length (snd (as_chunks n xs)) < n"
  by (induction xs rule: as_chunks_induct [OF _ _ assms])
    (simp_all add: as_chunks_short as_chunks_step assms)

section \<open>Association lists as hash maps\<close>

text \<open>
  A \<open>HashMap\<close> is an association list with distinct keys; the order of the list is
  the iteration order of the map. An insertion under a new key appends.
\<close>

lemma distinct_fst_update [wf_intros]:
  "distinct (map fst al) \<Longrightarrow> distinct (map fst (AList.update k v al))"
  by (rule distinct_update)

lemma map_of_update [simp]: "map_of (AList.update k v al) = (map_of al)(k \<mapsto> v)"
  by (simp add: update_conv')

end
