(* ===== verification/Hash.thy ===== *)
theory Hash
  imports Prelude
begin

text \<open>
  The path hashes of the archives (\<open>src/hash.rs\<close>, \<open>src/hash/mad.rs\<close>): a
  multiply-add polynomial hash over the normalised bytes of a path, in its
  byte-at-a-time form (\<open>mad_hash32\<close>, \<open>mad_hash64\<close>) and in the unrolled form
  (\<open>mad_hash\<close>) that consumes chunks of \<open>N\<close> bytes with precomputed powers.
  The lemmas show that the two agree for every chunk size and that a path hash
  depends only on the normalised suffix of the path.
\<close>

section \<open>The multiply-add hash\<close>

definition PRIME_32 :: u32 where "PRIME_32 = 37"
definition PRIME_64 :: u64 where "PRIME_64 = 133"

definition normalize :: "u8 \<Rightarrow> u8" where
  "normalize c =
     (if 65 \<le> c \<and> c \<le> 90 then c OR 32
      else if c = 92 then 47
      else c)"

fun mad_hash32 :: "u32 \<Rightarrow> bytes \<Rightarrow> u32" where
  "mad_hash32 hash [] = hash"
| "mad_hash32 hash (b # bs) = mad_hash32 (hash * PRIME_32 + ucast (normalize b)) bs"

fun mad_hash64 :: "u64 \<Rightarrow> bytes \<Rightarrow> u64" where
  "mad_hash64 hash [] = hash"
| "mad_hash64 hash (b # bs) = mad_hash64 (hash * PRIME_64 + ucast (normalize b)) bs"

text \<open>
  The macro \<open>impl_powers!\<close>: \<open>powers[i - 1] = p * powers[i]\<close> for \<open>i\<close> from \<open>N - 1\<close>
  down to \<open>1\<close>, starting from an array of ones.
\<close>

primrec powers_loop :: "'w::len word \<Rightarrow> nat \<Rightarrow> 'w word list \<Rightarrow> 'w word list" where
  "powers_loop p 0 powers = powers"
| "powers_loop p (Suc i) powers = powers_loop p i (powers[i := p * powers ! Suc i])"

definition impl_powers :: "'w::len word \<Rightarrow> nat \<Rightarrow> 'w word list" where
  "impl_powers p n = powers_loop p (n - 1) (replicate n 1)"

definition dot_product :: "'w::len word list \<Rightarrow> nat \<Rightarrow> bytes \<Rightarrow> 'w word" where
  "dot_product powers n chunk =
     fold (\<lambda>i dot. dot + ucast (normalize (chunk ! i)) * powers ! i) [0..<n] 0"

text \<open>
  \<open>mad_hash::<N, T>\<close> for the word type \<open>T\<close> with prime \<open>p\<close>: the chunk loop, then the
  loop over the remainder.
\<close>

definition mad_hash :: "'w::len word \<Rightarrow> nat \<Rightarrow> 'w word \<Rightarrow> bytes \<Rightarrow> 'w word" where
  "mad_hash p n init bs =
     (case as_chunks n bs of (chunks, remainder) \<Rightarrow>
        let powers = impl_powers p n;
            hash = fold (\<lambda>chunk hash. hash * p ^ n + dot_product powers n chunk) chunks init
        in fold (\<lambda>b hash. hash * p + ucast (normalize b)) remainder hash)"

section \<open>Path hashes\<close>

text \<open>\<open>str::split_once(':')\<close>: the parts before and after the first colon.\<close>

fun split_once :: "char \<Rightarrow> string \<Rightarrow> (string \<times> string) option" where
  "split_once sep [] = None"
| "split_once sep (c # s) =
     (if c = sep then Some ([], s)
      else map_option (\<lambda>(l, r). (c # l, r)) (split_once sep s))"

definition normalize_suffix_as_bytes :: "string \<Rightarrow> bytes option" where
  "normalize_suffix_as_bytes s =
     (let without_root = (case split_once CHR '':'' s of Some (_, s') \<Rightarrow> s' | None \<Rightarrow> s);
          bs = as_bytes without_root
      in case bs of
           [] \<Rightarrow> None
         | first # rest \<Rightarrow>
             if rest = [] then None
             else Some (if first = 47 \<or> first = 92 then rest else bs))"

definition hash_path32 :: "string \<Rightarrow> u32 option" where
  "hash_path32 s =
     map_option (mad_hash PRIME_32 4 (mad_hash32 0 [47])) (normalize_suffix_as_bytes s)"

definition hash_path64 :: "string \<Rightarrow> u64 option" where
  "hash_path64 s =
     map_option (mad_hash PRIME_64 4 (mad_hash64 0 [47])) (normalize_suffix_as_bytes s)"

section \<open>The unrolled hash is the byte-wise hash\<close>

text \<open>The reference: one Horner step per byte, over any word width and prime.\<close>

definition horner_step :: "'w::len word \<Rightarrow> u8 \<Rightarrow> 'w word \<Rightarrow> 'w word" where
  "horner_step p b hash = hash * p + ucast (normalize b)"

lemma mad_hash32_fold: "mad_hash32 hash bs = fold (horner_step PRIME_32) bs hash"
  by (induction hash bs rule: mad_hash32.induct) (simp_all add: horner_step_def)

lemma mad_hash64_fold: "mad_hash64 hash bs = fold (horner_step PRIME_64) bs hash"
  by (induction hash bs rule: mad_hash64.induct) (simp_all add: horner_step_def)

lemma powers_loop_inv:
  assumes "length powers = n" "k < n" "\<forall>i. k \<le> i \<and> i < n \<longrightarrow> powers ! i = p ^ (n - 1 - i)"
  shows "length (powers_loop p k powers) = n \<and>
    (\<forall>i < n. powers_loop p k powers ! i = p ^ (n - 1 - i))"
  using assms
proof (induction k arbitrary: powers)
  case (Suc k)
  let ?powers = "powers[k := p * powers ! Suc k]"
  have "?powers ! i = p ^ (n - 1 - i)" if "k \<le> i" "i < n" for i
  proof (cases "i = k")
    case True
    from Suc.prems have "powers ! Suc k = p ^ (n - 1 - Suc k)" by simp
    moreover have "n - 1 - k = Suc (n - 1 - Suc k)" using Suc.prems(2) by simp
    ultimately show ?thesis using True Suc.prems by (simp del: diff_diff_left)
  qed (use that Suc.prems in simp)
  then show ?case using Suc.prems by (simp add: Suc.IH)
qed simp

lemma impl_powers_nth: "i < n \<Longrightarrow> impl_powers p n ! i = p ^ (n - 1 - i)"
  unfolding impl_powers_def
  by (rule powers_loop_inv [THEN conjunct2, rule_format]) (auto simp: le_less_Suc_eq)

lemma fold_horner_chunk:
  "fold (horner_step p) chunk hash =
     hash * p ^ length chunk +
     fold (\<lambda>i dot. dot + ucast (normalize (chunk ! i)) * p ^ (length chunk - 1 - i))
       [0..<length chunk] 0"
proof (induction chunk rule: rev_induct)
  case (snoc b chunk)
  let ?m = "length chunk"
  have shift: "fold (\<lambda>i dot. dot + f i * p) xs (d * p) = fold (\<lambda>i dot. dot + f i) xs d * p"
    for f :: "nat \<Rightarrow> 'a word" and xs d
  proof (induction xs arbitrary: d)
    case (Cons a xs)
    then show ?case by (simp flip: distrib_right)
  qed simp
  have "fold (\<lambda>i dot. dot + ucast (normalize ((chunk @ [b]) ! i)) * p ^ (?m - i)) [0..<?m] 0
      = fold (\<lambda>i dot. dot + (ucast (normalize (chunk ! i)) * p ^ (?m - 1 - i)) * p) [0..<?m] (0 * p)"
    by (intro fold_cong) (auto simp: nth_append mult.assoc Suc_diff_Suc simp flip: power_Suc2)
  also have "\<dots> = fold (\<lambda>i dot. dot + ucast (normalize (chunk ! i)) * p ^ (?m - 1 - i)) [0..<?m] 0 * p"
    by (rule shift)
  finally show ?case
    using snoc by (simp add: horner_step_def algebra_simps)
qed simp

lemma dot_product_powers:
  "length chunk = n \<Longrightarrow> hash * p ^ n + dot_product (impl_powers p n) n chunk =
     fold (horner_step p) chunk hash"
proof -
  assume len: "length chunk = n"
  have "dot_product (impl_powers p n) n chunk =
      fold (\<lambda>i dot. dot + ucast (normalize (chunk ! i)) * p ^ (n - 1 - i)) [0..<n] 0"
    unfolding dot_product_def by (intro fold_cong) (auto simp: impl_powers_nth)
  then show ?thesis by (simp only: fold_horner_chunk len)
qed

lemma mad_hash_horner:
  assumes "0 < n"
  shows "mad_hash p n init bs = fold (horner_step p) bs init"
proof -
  have tail: "(\<lambda>b hash. hash * p + ucast (normalize b)) = horner_step p"
    by (simp add: horner_step_def fun_eq_iff)
  have "fold (horner_step p) (snd (as_chunks n bs))
      (fold (\<lambda>chunk hash. hash * p ^ n + dot_product (impl_powers p n) n chunk)
        (fst (as_chunks n bs)) init) = fold (horner_step p) bs init"
    by (induction bs arbitrary: init rule: as_chunks_induct [OF _ _ assms])
      (simp_all add: as_chunks_short as_chunks_step assms dot_product_powers)
  then show ?thesis
    by (simp add: mad_hash_def tail Let_def case_prod_beta)
qed

section \<open>What a path hash depends on\<close>

lemma upper_or_32:
  assumes "65 \<le> c" "c \<le> 90"
  shows "c OR 32 = (c + 32 :: u8)"
proof -
  have "\<forall>n \<in> set [65..<91]. of_nat n OR 32 = (of_nat n + 32 :: u8)"
    by (simp add: upt_rec_numeral)
  moreover have "unat c \<in> set [65..<91]"
    using assms by (simp only: set_upt atLeastLessThan_iff) (simp add: word_le_nat_alt)
  ultimately have "of_nat (unat c) OR 32 = (of_nat (unat c) + 32 :: u8)" by blast
  then show ?thesis by simp
qed

lemma normalize_plus:
  "normalize c = (if 65 \<le> c \<and> c \<le> 90 then c + 32 else if c = 92 then 47 else c)"
  by (simp add: normalize_def upper_or_32)

text \<open>Normalisation identifies a separator only with the other separator, and a colon
  with nothing else.\<close>

lemma normalize_eq_colon [simp]: "normalize b = 58 \<longleftrightarrow> b = 58"
  and normalize_eq_slash [simp]: "normalize b = 47 \<longleftrightarrow> b = 47 \<or> b = 92"
  by (auto simp: normalize_plus word_le_nat_alt unat_word_ariths dest!: arg_cong [where f = unat])

lemma of_char_u8_eq: "(of_char c :: u8) = of_char d \<longleftrightarrow> c = d"
  using as_bytes_inj [of "[c]" "[d]"] by (simp add: as_bytes_def)

lemma of_char_colon: "(of_char c :: u8) = 58 \<longleftrightarrow> c = CHR '':''"
  using of_char_u8_eq [of c "CHR '':''"] by simp

definition without_root :: "string \<Rightarrow> string" where
  "without_root s = (case split_once CHR '':'' s of Some (_, s') \<Rightarrow> s' | None \<Rightarrow> s)"

lemma split_once_norm:
  "map normalize (as_bytes s) = map normalize (as_bytes t) \<Longrightarrow>
     rel_option (\<lambda>(_, s') (_, t'). map normalize (as_bytes s') = map normalize (as_bytes t'))
       (split_once CHR '':'' s) (split_once CHR '':'' t)"
proof (induction s arbitrary: t)
  case Nil
  then show ?case by (simp add: as_bytes_def)
next
  case (Cons c s)
  then obtain d t' where t: "t = d # t'"
    and hd: "normalize (of_char c) = normalize (of_char d)"
    and tl: "map normalize (as_bytes s) = map normalize (as_bytes t')"
    by (cases t) (auto simp: as_bytes_Cons)
  have "c = CHR '':'' \<longleftrightarrow> d = CHR '':''"
    by (metis hd normalize_eq_colon of_char_colon)
  then show ?case
    using Cons.IH [OF tl] tl
    by (auto simp: t option.rel_map case_prod_beta elim: option.rel_mono_strong)
qed

lemma without_root_norm:
  assumes "map normalize (as_bytes s) = map normalize (as_bytes t)"
  shows "map normalize (as_bytes (without_root s)) = map normalize (as_bytes (without_root t))"
  using split_once_norm [OF assms] assms
  by (auto simp: without_root_def rel_option_iff split: option.splits)

lemma suffix_norm:
  assumes "map normalize (as_bytes s) = map normalize (as_bytes t)"
  shows "map_option (map normalize) (normalize_suffix_as_bytes s) =
    map_option (map normalize) (normalize_suffix_as_bytes t)"
proof -
  have wr: "map normalize (as_bytes (without_root s)) = map normalize (as_bytes (without_root t))"
    by (rule without_root_norm [OF assms])
  show ?thesis
  proof (cases "as_bytes (without_root s)")
    case Nil
    with wr have "as_bytes (without_root t) = []" by simp
    with Nil show ?thesis by (simp add: normalize_suffix_as_bytes_def flip: without_root_def)
  next
    case (Cons b bs)
    with wr obtain d ds where t: "as_bytes (without_root t) = d # ds"
      and hd: "normalize b = normalize d" and tl: "map normalize bs = map normalize ds"
      by (auto simp: Cons_eq_map_conv)
    have "b = 47 \<or> b = 92 \<longleftrightarrow> d = 47 \<or> d = 92"
      by (metis hd normalize_eq_slash)
    moreover have "bs = [] \<longleftrightarrow> ds = []" using tl by auto
    ultimately show ?thesis
      using Cons t hd tl by (simp add: normalize_suffix_as_bytes_def flip: without_root_def)
  qed
qed

lemma fold_horner_norm:
  "fold (horner_step p) bs hash = fold (\<lambda>b hash. hash * p + ucast b) (map normalize bs) hash"
  by (induction bs arbitrary: hash) (simp_all add: horner_step_def)

lemma hash_path_norm:
  assumes "map normalize (as_bytes s) = map normalize (as_bytes t)" "0 < n"
  shows "map_option (mad_hash p n init) (normalize_suffix_as_bytes s) =
    map_option (mad_hash p n init) (normalize_suffix_as_bytes t)"
proof -
  have "map_option (mad_hash p n init) x =
      map_option (\<lambda>bs. fold (\<lambda>b hash. hash * p + ucast b) bs init) (map_option (map normalize) x)" for x
    using assms(2) by (cases x) (simp_all add: mad_hash_horner fold_horner_norm)
  then show ?thesis using suffix_norm [OF assms(1)] by simp
qed

lemma split_once_None: "sep \<notin> set s \<Longrightarrow> split_once sep s = None"
  by (induction s) auto

lemma split_once_Some: "sep \<notin> set l \<Longrightarrow> split_once sep (l @ sep # r) = Some (l, r)"
  by (induction l) auto

lemma normalize_lower: "normalize (of_char (ascii_lower c)) = normalize (of_char c)"
proof (cases "is_ascii_uppercase c")
  case True
  let ?n = "of_char c :: nat"
  have n: "65 \<le> ?n" "?n \<le> 90" using True by (auto simp: is_ascii_uppercase_def)
  have c: "(of_char c :: u8) = of_nat ?n" by (simp only: of_nat_of_char)
  have "(of_char (ascii_lower c) :: u8) = of_nat (of_char (ascii_lower c))"
    by (simp only: of_nat_of_char)
  also have "\<dots> = of_nat (?n + 32)"
    using True n by (simp add: ascii_lower_def del: of_nat_of_char)
  finally have l: "(of_char (ascii_lower c) :: u8) = of_char c + 32" by (simp add: c)
  have u: "unat (of_char c :: u8) = ?n" by (rule unat_of_char)
  have "unat (of_char c + 32 :: u8) = ?n + 32" using n by (simp add: unat_word_ariths u)
  then show ?thesis
    using n u by (auto simp: normalize_plus l word_le_nat_alt dest: arg_cong [where f = unat])
qed (simp add: ascii_lower_id)

text \<open>The path of a rooted suffix: what remains after the first colon.\<close>

lemma suffix_rooted:
  assumes "p \<noteq> []" "c = CHR ''/'' \<or> c = CHR 0x5C" "without_root s = c # p"
  shows "normalize_suffix_as_bytes s = Some (as_bytes p)"
  using assms by (auto simp: normalize_suffix_as_bytes_def as_bytes_def simp flip: without_root_def)

lemma suffix_relative:
  assumes "p = c # d # q" "c \<noteq> CHR ''/''" "c \<noteq> CHR 0x5C" "without_root s = p"
  shows "normalize_suffix_as_bytes s = Some (as_bytes p)"
  using assms of_char_u8_eq [of c "CHR ''/''"] of_char_u8_eq [of c "CHR 0x5C"]
  by (auto simp: normalize_suffix_as_bytes_def as_bytes_def simp flip: without_root_def)

lemma hash_of_suffix:
  assumes "normalize_suffix_as_bytes s = Some (as_bytes p)"
  shows "hash_path32 s = Some (mad_hash32 0 (as_bytes (CHR ''/'' # p)))"
    and "hash_path64 s = Some (mad_hash64 0 (as_bytes (CHR ''/'' # p)))"
  using assms
  by (simp_all add: hash_path32_def hash_path64_def mad_hash_horner mad_hash32_fold
      mad_hash64_fold as_bytes_Cons)

section \<open>Properties\<close>

text \<open>C20: the unrolled hash, for every chunk size \<open>N\<close>, computes the byte-at-a-time hash:
  chunking, the precomputed powers and the remainder loop change nothing.\<close>

theorem mad_hash_unrolled:
  assumes "0 < n"
  shows "mad_hash PRIME_32 n h bs = mad_hash32 h bs \<and> mad_hash PRIME_64 n k bs = mad_hash64 k bs"
  by (simp add: mad_hash_horner [OF assms] mad_hash32_fold mad_hash64_fold)

theorem mad_hash_unrolled_witness:
  "mad_hash PRIME_32 4 1 [97, 66, 92, 1, 2] = mad_hash32 1 [97, 66, 92, 1, 2] \<and>
   mad_hash PRIME_64 4 7 [97, 66, 92, 1, 2] = mad_hash64 7 [97, 66, 92, 1, 2]"
  by (rule mad_hash_unrolled) simp

text \<open>The hash of a path is the byte-wise hash of its suffix after the first colon,
  rooted at a slash: a drive or archive prefix, the kind of the leading separator and
  a missing leading separator do not matter.\<close>

theorem hash_path_suffix:
  assumes "CHR '':'' \<notin> set d" "p \<noteq> []" "c = CHR ''/'' \<or> c = CHR 0x5C"
  shows "hash_path32 (d @ CHR '':'' # c # p) = Some (mad_hash32 0 (as_bytes (CHR ''/'' # p)))
    \<and> hash_path64 (d @ CHR '':'' # c # p) = Some (mad_hash64 0 (as_bytes (CHR ''/'' # p)))
    \<and> (CHR '':'' \<notin> set p \<longrightarrow> hash_path32 (c # p) = hash_path32 (d @ CHR '':'' # c # p)
        \<and> hash_path64 (c # p) = hash_path64 (d @ CHR '':'' # c # p))
    \<and> (CHR '':'' \<notin> set p \<longrightarrow> 2 \<le> length p \<longrightarrow> hd p \<noteq> CHR ''/'' \<longrightarrow> hd p \<noteq> CHR 0x5C \<longrightarrow>
        hash_path32 p = hash_path32 (c # p) \<and> hash_path64 p = hash_path64 (c # p))"
proof -
  have pre: "normalize_suffix_as_bytes (d @ CHR '':'' # c # p) = Some (as_bytes p)"
    using assms by (intro suffix_rooted) (auto simp: without_root_def split_once_Some)
  have root: "normalize_suffix_as_bytes (c # p) = Some (as_bytes p)" if "CHR '':'' \<notin> set p"
    using assms that by (intro suffix_rooted) (auto simp: without_root_def split_once_None)
  have rel: "normalize_suffix_as_bytes p = Some (as_bytes p)"
    if "CHR '':'' \<notin> set p" "2 \<le> length p" "hd p \<noteq> CHR ''/''" "hd p \<noteq> CHR 0x5C"
  proof -
    from that(2) obtain x y q where p: "p = x # y # q"
      by (metis Suc_le_length_iff numeral_2_eq_2)
    with that show ?thesis
      by (intro suffix_relative [OF p]) (auto simp: without_root_def split_once_None)
  qed
  show ?thesis by (simp add: hash_of_suffix pre root rel)
qed

theorem hash_path_suffix_witness:
  "hash_path32 ''/data3:/a/b'' = Some (mad_hash32 0 (as_bytes ''/a/b''))"
  using hash_path_suffix [of "''/data3''" "''a/b''" "CHR ''/''"] by simp

text \<open>Paths that differ only in ASCII case and in the kind of their separators have
  the same hashes; in particular the hash of a path is that of its lowercase form.\<close>

theorem hash_path_invariant:
  assumes "map normalize (as_bytes s) = map normalize (as_bytes t)"
  shows "hash_path32 s = hash_path32 t \<and> hash_path64 s = hash_path64 t
    \<and> hash_path32 (to_ascii_lowercase s) = hash_path32 t
    \<and> hash_path64 (to_ascii_lowercase s) = hash_path64 t"
proof -
  have "map normalize (as_bytes (to_ascii_lowercase s)) = map normalize (as_bytes t)"
    using assms by (simp add: as_bytes_def to_ascii_lowercase_def normalize_lower o_def)
  with assms show ?thesis
    unfolding hash_path32_def hash_path64_def by (metis hash_path_norm zero_less_numeral)
qed

theorem hash_path_invariant_witness:
  "hash_path32 [CHR 0x5C, CHR ''A'', CHR ''b''] = hash_path32 ''/ab''"
  using hash_path_invariant [of "[CHR 0x5C, CHR ''A'', CHR ''b'']" "''/ab''"]
  by (simp add: as_bytes_def normalize_plus)

text \<open>The vector of the crate's own tests, and the boundary of the suffix rule: a path of
  one character hashes to nothing, although the same path with a leading separator
  does.\<close>

lemma hash_path_vector:
  "hash_path32 ''/action/eventnameid.txt'' = Some 0xec09d5de"
  "hash_path64 ''/action/eventnameid.txt'' = Some 0x800c9074f004323e"
  by code_simp+

lemma hash_path_single_char:
  "hash_path32 ''a'' = None" "hash_path32 ''/a'' \<noteq> None"
  by code_simp+

end
