(* ===== verification/FsPath.thy ===== *)
theory FsPath
  imports Prelude
begin

text \<open>
  Paths of the read-only filesystem (\<open>components\<close>, \<open>normalize_path\<close> and the
  separator configurations of \<open>src/filesystem.rs\<close>, \<open>src/cow.rs\<close>, and the
  configuration of \<open>src/dvdbnd/filesystem.rs\<close>). The lemmas show that the fast and the
  slow path of \<open>normalize_path\<close> compute the same components, namely those of the
  stack algorithm for \<open>..\<close>, and that lowercasing commutes with splitting.
\<close>

section \<open>Separators and components\<close>

definition DefaultConfig_SEPARATORS :: string where
  "DefaultConfig_SEPARATORS = ''/''"

definition DvdbndConfig_SEPARATORS :: string where
  "DvdbndConfig_SEPARATORS = [CHR ''/'', CHR 0x5C]"

text \<open>\<open>str::split(&[char])\<close>: the pieces between separators, empty pieces included.\<close>

fun split_on :: "string \<Rightarrow> string \<Rightarrow> string list" where
  "split_on S [] = [[]]"
| "split_on S (c # s) =
     (if c \<in> set S then [] # split_on S s
      else case split_on S s of w # ws \<Rightarrow> (c # w) # ws | [] \<Rightarrow> [[c]])"

definition components :: "string \<Rightarrow> string \<Rightarrow> string list" where
  "components S path = filter (\<lambda>c. \<not> (c = [] \<or> c = ''.'')) (split_on S path)"

text \<open>\<open>str::contains\<close> and \<open>[&str]::join\<close>.\<close>

fun str_contains :: "string \<Rightarrow> string \<Rightarrow> bool" where
  "str_contains pat [] \<longleftrightarrow> pat = []"
| "str_contains pat (c # s) \<longleftrightarrow> take (length pat) (c # s) = pat \<or> str_contains pat s"

fun str_join :: "string \<Rightarrow> string list \<Rightarrow> string" where
  "str_join sep [] = []"
| "str_join sep [w] = w"
| "str_join sep (w # v # ws) = w @ sep @ str_join sep (v # ws)"

text \<open>One iteration of the loop over the components; \<open>Vec::pop\<close> on an empty vector
  does nothing, as \<open>butlast\<close>.\<close>

definition normalize_step :: "string \<Rightarrow> string list \<Rightarrow> string list" where
  "normalize_step component cs =
     (if component = [] \<or> component = ''.'' then cs
      else if component = ''..'' then butlast cs
      else cs @ [component])"

definition normalize_path :: "string \<Rightarrow> string \<Rightarrow> string" where
  "normalize_path S path =
     (if path = [] then ''.''
      else if \<not> str_contains ''..'' path then path
      else str_join ''/'' (fold normalize_step (split_on S path) []))"

section \<open>Lowercasing a borrowed string\<close>

text \<open>\<open>slice::chunks(n)\<close>: like \<open>as_chunks\<close> with a last, shorter chunk.\<close>

definition chunks :: "nat \<Rightarrow> 'a list \<Rightarrow> 'a list list" where
  "chunks n xs =
     (case as_chunks n xs of (cs, r) \<Rightarrow> cs @ (if r = [] then [] else [r]))"

definition cow_to_ascii_lowercase :: "string \<Rightarrow> bool \<times> string" where
  "cow_to_ascii_lowercase cow =
     (let had_uppercase =
            list_ex (\<lambda>chunk. fold (\<lambda>byte is. is \<or> is_ascii_uppercase byte) chunk False) (chunks 16 cow)
      in (had_uppercase, if had_uppercase then to_ascii_lowercase cow else cow))"

lemma concat_chunks [simp]: "concat (chunks n xs) = xs"
  using concat_as_chunks [of n xs] by (auto simp: chunks_def case_prod_beta)

lemma fold_or: "fold (\<lambda>x b. b \<or> P x) xs b \<longleftrightarrow> b \<or> list_ex P xs"
  by (induction xs arbitrary: b) auto

lemma list_ex_concat: "list_ex (list_ex P) xss \<longleftrightarrow> list_ex P (concat xss)"
  by (induction xss) auto

lemma cow_to_ascii_lowercase_eq:
  "cow_to_ascii_lowercase s = (list_ex is_ascii_uppercase s, to_ascii_lowercase s)"
  by (simp add: cow_to_ascii_lowercase_def fold_or list_ex_concat to_ascii_lowercase_id Let_def)

section \<open>Splitting and joining\<close>

definition valid_seps :: "string \<Rightarrow> bool" where
  "valid_seps S \<longleftrightarrow> CHR ''/'' \<in> set S \<and>
     list_all (\<lambda>c. c \<noteq> CHR ''.'' \<and> \<not> is_ascii_uppercase c \<and>
       \<not> (97 \<le> (of_char c :: nat) \<and> (of_char c :: nat) \<le> 122)) S"

lemma valid_seps_configs [simp]:
  "valid_seps DefaultConfig_SEPARATORS" "valid_seps DvdbndConfig_SEPARATORS"
  by code_simp+

lemma valid_seps_slash [simp]: "valid_seps S \<Longrightarrow> CHR ''/'' \<in> set S"
  and valid_seps_dot [simp]: "valid_seps S \<Longrightarrow> CHR ''.'' \<notin> set S"
  by (auto simp: valid_seps_def list_all_iff)

lemma ascii_lower_in_seps:
  assumes "valid_seps S"
  shows "ascii_lower c \<in> set S \<longleftrightarrow> c \<in> set S"
proof (cases "is_ascii_uppercase c")
  case True
  let ?n = "of_char c :: nat"
  from True have "(of_char (ascii_lower c) :: nat) = ?n + 32" "65 \<le> ?n" "?n \<le> 90"
    by (auto simp: ascii_lower_def is_ascii_uppercase_def)
  then have "97 \<le> (of_char (ascii_lower c) :: nat)" "(of_char (ascii_lower c) :: nat) \<le> 122"
    by simp_all
  with assms True show ?thesis
    unfolding valid_seps_def list_all_iff by blast
qed (simp add: ascii_lower_id)

lemma split_on_neq_Nil [simp]: "split_on S s \<noteq> []"
  by (induction s) (auto split: list.splits)

lemma split_on_no_sep: "set s \<inter> set S = {} \<Longrightarrow> split_on S s = [s]"
  by (induction s) auto

lemma split_on_append_sep:
  "set w \<inter> set S = {} \<Longrightarrow> c \<in> set S \<Longrightarrow> split_on S (w @ c # s) = w # split_on S s"
  by (induction w) auto

lemma split_on_pieces: "w \<in> set (split_on S s) \<Longrightarrow> set w \<inter> set S = {}"
  by (induction s arbitrary: w) (fastforce split: if_splits list.splits)+

lemma split_on_join:
  "ws \<noteq> [] \<Longrightarrow> \<forall>w \<in> set ws. set w \<inter> set S = {} \<Longrightarrow> c \<in> set S \<Longrightarrow> split_on S (str_join [c] ws) = ws"
proof (induction "[c]" ws rule: str_join.induct)
  case (3 w v ws)
  then show ?case by (simp add: split_on_append_sep)
qed (simp_all add: split_on_no_sep)

lemma split_on_lower:
  "valid_seps S \<Longrightarrow> split_on S (to_ascii_lowercase s) = map to_ascii_lowercase (split_on S s)"
  by (induction s)
    (auto simp: to_ascii_lowercase_def ascii_lower_in_seps split: list.splits)

lemma str_contains_append: "str_contains pat s \<Longrightarrow> str_contains pat (t @ s)"
  by (induction t) auto

lemma str_contains_prefix: "str_contains pat (pat @ s)"
proof (cases "pat @ s")
  case (Cons c t)
  then have "take (length pat) (c # t) = pat" by (metis append_eq_conv_conj)
  then show ?thesis using Cons by simp
qed simp

text \<open>A piece of a split occurs in the string, so a path without \<open>..\<close> has no such
  component.\<close>

lemma split_on_infix:
  assumes "w \<in> set (split_on S s)"
  shows "(\<exists>r. s = w @ r \<and> w = hd (split_on S s)) \<or> (\<exists>l r. s = l @ w @ r)"
  using assms
proof (induction s arbitrary: w)
  case (Cons c s)
  obtain v vs where v: "split_on S s = v # vs" by (cases "split_on S s") auto
  then have "\<exists>r. s = v @ r" using Cons.IH [of v] 
  proof -
    have "\<exists>r. s = hd (split_on S s) @ r"
    proof (induction s)
      case (Cons d s)
      then show ?case by (auto split: list.splits)
    qed simp
    then show ?thesis by (simp add: v)
  qed
  then obtain r where r: "s = v @ r" by blast
  consider "w = []" | "w = c # v" | "w \<in> set (split_on S s)"
    using Cons.prems v by (auto split: if_splits)
  then show ?case
  proof cases
    case 3
    then obtain l r' where "s = l @ w @ r'" using Cons.IH by (metis append_Nil)
    then show ?thesis by (metis append_Cons)
  next
    case 2
    then show ?thesis using r by (metis append_Cons append_Nil)
  next
    case 1
    then show ?thesis by (metis append_Nil)
  qed
qed simp

lemma no_dotdot_component:
  assumes "\<not> str_contains ''..'' s"
  shows "''..'' \<notin> set (split_on S s)"
proof
  assume "''..'' \<in> set (split_on S s)"
  then obtain l r where "s = l @ ''..'' @ r" using split_on_infix by (metis append_Nil)
  then show False using assms str_contains_append str_contains_prefix by metis
qed

section \<open>What normalisation computes\<close>

text \<open>The reference, without the stack of the code: from the last component to the first, a double dot
  discards one more of the names to its left, and what is not discarded is kept.\<close>

fun keep_undone :: "nat \<Rightarrow> string list \<Rightarrow> string list" where
  "keep_undone n [] = []"
| "keep_undone n (w # ws) =
     (if w = [] \<or> w = ''.'' then keep_undone n ws
      else if w = ''..'' then keep_undone (Suc n) ws
      else if n = 0 then w # keep_undone 0 ws
      else keep_undone (n - 1) ws)"

definition resolve :: "string \<Rightarrow> string \<Rightarrow> string list" where
  "resolve S path = rev (keep_undone 0 (rev (split_on S path)))"

text \<open>The meaning of the dots as a relation: nothing and a dot stay where they are, a double dot undoes
  the name before it, and at the root it does nothing.\<close>

definition is_dots :: "string \<Rightarrow> bool" where
  "is_dots w \<longleftrightarrow> w = [] \<or> w = ''.'' \<or> w = ''..''"

inductive cancels :: "string list \<Rightarrow> string list \<Rightarrow> bool" where
  stay: "w = [] \<or> w = ''.'' \<Longrightarrow> cancels (xs @ w # ys) (xs @ ys)"
| undo: "\<not> is_dots w \<Longrightarrow> cancels (xs @ w # ''..'' # ys) (xs @ ys)"
| at_root: "cancels (''..'' # ys) ys"

lemma keep_undone_stack:
  "rev (keep_undone n (rev ws)) = (butlast ^^ n) (fold normalize_step ws [])"
proof (induction ws arbitrary: n rule: rev_induct)
  case (snoc w ws)
  show ?case
  proof (cases "is_dots w \<or> n = 0")
    case True
    then show ?thesis
      using snoc [of n] snoc [of "Suc n"] by (auto simp: normalize_step_def is_dots_def funpow_swap1)
  next
    case False
    then show ?thesis using snoc [of "n - 1"] by (cases n) (auto simp: normalize_step_def is_dots_def funpow_swap1)
  qed
next
  case Nil
  show ?case by (induction n) simp_all
qed

lemma resolve_stack: "resolve S path = fold normalize_step (split_on S path) []"
  by (simp add: resolve_def keep_undone_stack)

lemma cancels_append: "cancels\<^sup>*\<^sup>* xs ys \<Longrightarrow> cancels\<^sup>*\<^sup>* (xs @ zs) (ys @ zs)"
proof (induction rule: rtranclp_induct)
  case (step ys ys')
  have "cancels (ys @ zs) (ys' @ zs)" using step(2)
  proof cases
    case (stay w xs ys2)
    then show ?thesis using cancels.stay [of w xs "ys2 @ zs"] by simp
  next
    case (undo w xs ys2)
    then show ?thesis using cancels.undo [of w xs "ys2 @ zs"] by simp
  next
    case at_root
    then show ?thesis using cancels.at_root by simp
  qed
  then show ?case using step(3) by (rule rtranclp.rtrancl_into_rtrancl [rotated])
qed simp

lemma cancels_step:
  assumes "\<forall>c \<in> set cs. \<not> is_dots c"
  shows "cancels\<^sup>*\<^sup>* (cs @ [w]) (normalize_step w cs)"
proof (cases "w = ''..''")
  case True
  show ?thesis
  proof (cases cs rule: rev_cases)
    case Nil
    then show ?thesis using True cancels.at_root [of "[]"] by (auto simp: normalize_step_def)
  next
    case (snoc cs' c)
    then have "cancels (cs' @ c # ''..'' # []) (cs' @ [])" using assms by (intro cancels.undo) simp
    then show ?thesis using True snoc by (simp add: normalize_step_def r_into_rtranclp)
  qed
next
  case False
  then show ?thesis
    using cancels.stay [of w cs "[]"] by (auto simp: normalize_step_def intro: r_into_rtranclp)
qed

lemma normalize_step_names: "\<forall>c \<in> set cs. \<not> is_dots c \<Longrightarrow> \<forall>c \<in> set (normalize_step w cs). \<not> is_dots c"
  by (auto simp: normalize_step_def is_dots_def dest: in_set_butlastD)

lemma cancels_stack:
  "\<forall>c \<in> set cs. \<not> is_dots c \<Longrightarrow> cancels\<^sup>*\<^sup>* (cs @ ws) (fold normalize_step ws cs)"
proof (induction ws arbitrary: cs)
  case (Cons w ws)
  have "cancels\<^sup>*\<^sup>* (cs @ w # ws) (normalize_step w cs @ ws)"
    using cancels_append [OF cancels_step [OF Cons.prems], of w ws] by simp
  also have "cancels\<^sup>*\<^sup>* \<dots> (fold normalize_step ws (normalize_step w cs))"
    by (rule Cons.IH) (rule normalize_step_names [OF Cons.prems])
  finally show ?case by simp
qed simp

lemma stack_cancels: "cancels xs ys \<Longrightarrow> fold normalize_step xs [] = fold normalize_step ys []"
  by (induction rule: cancels.induct) (auto simp: normalize_step_def is_dots_def)

lemma stack_cancels_all: "cancels\<^sup>*\<^sup>* xs ys \<Longrightarrow> fold normalize_step xs [] = fold normalize_step ys []"
  by (induction rule: rtranclp_induct) (simp_all add: stack_cancels)

lemma stack_names: "\<forall>w \<in> set ws. \<not> is_dots w \<Longrightarrow> fold normalize_step ws cs = cs @ ws"
  by (induction ws arbitrary: cs) (auto simp: normalize_step_def is_dots_def)

lemma fold_names: "\<forall>c \<in> set cs. \<not> is_dots c \<Longrightarrow> \<forall>c \<in> set (fold normalize_step ws cs). \<not> is_dots c"
proof (induction ws arbitrary: cs)
  case (Cons w ws)
  show ?case using Cons.IH [OF normalize_step_names [OF Cons.prems]] by simp
qed simp

text \<open>However the dots of a path are cancelled, the names that are left are the same.\<close>

lemma cancels_resolve: "cancels\<^sup>*\<^sup>* (split_on S p) ws \<and> (\<forall>w \<in> set ws. \<not> is_dots w) \<longleftrightarrow> ws = resolve S p"
proof
  assume a: "cancels\<^sup>*\<^sup>* (split_on S p) ws \<and> (\<forall>w \<in> set ws. \<not> is_dots w)"
  then have "fold normalize_step (split_on S p) [] = fold normalize_step ws []"
    by (blast intro: stack_cancels_all)
  then show "ws = resolve S p" using a by (simp add: stack_names resolve_stack)
next
  assume "ws = resolve S p"
  moreover have "\<forall>w \<in> set (fold normalize_step (split_on S p) []). \<not> is_dots w" by (rule fold_names) simp
  ultimately show "cancels\<^sup>*\<^sup>* (split_on S p) ws \<and> (\<forall>w \<in> set ws. \<not> is_dots w)"
    using cancels_stack [of "[]" "split_on S p"] by (simp add: resolve_stack)
qed

lemma fold_normalize_filter:
  "''..'' \<notin> set ws \<Longrightarrow>
     fold normalize_step ws cs = cs @ filter (\<lambda>c. \<not> (c = [] \<or> c = ''.'')) ws"
  by (induction ws arbitrary: cs) (auto simp: normalize_step_def)

lemma set_fold_normalize:
  "set (fold normalize_step ws cs) \<subseteq> set cs \<union> {w \<in> set ws. w \<noteq> [] \<and> w \<noteq> ''.'' \<and> w \<noteq> ''..''}"
proof (induction ws arbitrary: cs)
  case (Cons w ws)
  have "set (normalize_step w cs) \<subseteq> set cs \<union> {w' \<in> {w}. w' \<noteq> [] \<and> w' \<noteq> ''.'' \<and> w' \<noteq> ''..''}"
    by (auto simp: normalize_step_def dest: in_set_butlastD)
  then show ?case using Cons [of "normalize_step w cs"] by auto
qed simp

lemma set_resolve:
  "w \<in> set (resolve S p) \<Longrightarrow> w \<noteq> [] \<and> w \<noteq> ''.'' \<and> w \<noteq> ''..'' \<and> set w \<inter> set S = {}"
  using set_fold_normalize [of "split_on S p" "[]"] split_on_pieces
  by (fastforce simp: resolve_stack)

lemma components_join:
  assumes "valid_seps S" "\<forall>w \<in> set ws. w \<noteq> [] \<and> w \<noteq> ''.'' \<and> set w \<inter> set S = {}"
  shows "components S (str_join ''/'' ws) = ws"
proof (cases "ws = []")
  case False
  with assms have "split_on S (str_join ''/'' ws) = ws"
    by (intro split_on_join) auto
  with assms(2) show ?thesis by (simp add: components_def)
qed (simp add: components_def)

lemma components_normalize_path:
  assumes "valid_seps S"
  shows "components S (normalize_path S p) = resolve S p"
proof -
  consider "p = []" | "p \<noteq> []" "\<not> str_contains ''..'' p" | "str_contains ''..'' p" "p \<noteq> []"
    by auto
  then show ?thesis
  proof cases
    case 1
    then show ?thesis
      using assms by (simp add: normalize_path_def resolve_stack components_def normalize_step_def)
  next
    case 2
    then show ?thesis
      by (simp add: normalize_path_def resolve_stack components_def fold_normalize_filter
          no_dotdot_component)
  next
    case 3
    then have "normalize_path S p = str_join ''/'' (resolve S p)"
      by (auto simp: normalize_path_def resolve_stack)
    then show ?thesis using assms set_resolve by (simp add: components_join)
  qed
qed

lemma lower_dots [simp]:
  "to_ascii_lowercase w = ''.'' \<longleftrightarrow> w = ''.''" "to_ascii_lowercase w = ''..'' \<longleftrightarrow> w = ''..''"
proof -
  have dot: "ascii_lower c = CHR ''.'' \<longleftrightarrow> c = CHR ''.''" for c
  proof (cases "is_ascii_uppercase c")
    case True
    then have "(of_char (ascii_lower c) :: nat) \<ge> 97"
      by (auto simp: ascii_lower_def is_ascii_uppercase_def)
    moreover have "(of_char CHR ''.'' :: nat) = 46" by simp
    moreover have "c \<noteq> CHR ''.''" using True by (auto simp: is_ascii_uppercase_def)
    ultimately show ?thesis by auto
  qed (simp add: ascii_lower_id)
  show "to_ascii_lowercase w = ''.'' \<longleftrightarrow> w = ''.''" "to_ascii_lowercase w = ''..'' \<longleftrightarrow> w = ''..''"
    by (auto simp: to_ascii_lowercase_def dot map_eq_Cons_conv)
qed

lemma components_lower:
  "valid_seps S \<Longrightarrow> components S (to_ascii_lowercase p) = map to_ascii_lowercase (components S p)"
  by (simp add: components_def split_on_lower filter_map o_def)

lemma fold_normalize_lower:
  "fold normalize_step (map to_ascii_lowercase ws) (map to_ascii_lowercase cs) =
     map to_ascii_lowercase (fold normalize_step ws cs)"
proof (induction ws arbitrary: cs)
  case (Cons w ws)
  have "normalize_step (to_ascii_lowercase w) (map to_ascii_lowercase cs) =
      map to_ascii_lowercase (normalize_step w cs)"
    by (simp add: normalize_step_def map_butlast)
  then show ?case by (simp add: Cons)
qed simp

lemma resolve_lower:
  "valid_seps S \<Longrightarrow> resolve S (to_ascii_lowercase p) = map to_ascii_lowercase (resolve S p)"
  using fold_normalize_lower [of "split_on S p" "[]"] by (simp add: resolve_stack split_on_lower)

section \<open>Properties\<close>

text \<open>C21: a normalised path has, on both the fast and the slow branch, exactly the components that are
  left when every dot and every empty component is dropped and every double dot is cancelled
  against the name before it, or dropped at the root, in whatever order that is done; they are
  those that no later double dot undoes. Normalising twice changes nothing, and lowercasing
  commutes with it.\<close>

theorem normalize_path_resolves:
  assumes "valid_seps S"
  shows "(\<forall>ws. cancels\<^sup>*\<^sup>* (split_on S p) ws \<and> (\<forall>w \<in> set ws. \<not> is_dots w) \<longleftrightarrow> ws = components S (normalize_path S p))
    \<and> components S (normalize_path S p) = rev (keep_undone 0 (rev (split_on S p)))
    \<and> components S (normalize_path S (normalize_path S p)) = components S (normalize_path S p)
    \<and> components S (snd (cow_to_ascii_lowercase (normalize_path S p))) =
        map to_ascii_lowercase (components S (normalize_path S p))"
proof (intro conjI)
  have "''..'' \<notin> set (resolve S p)" using set_resolve [of "''..''" S p] by auto
  then have "''..'' \<notin> set (components S (normalize_path S p))"
    by (simp add: components_normalize_path [OF assms])
  then have "''..'' \<notin> set (split_on S (normalize_path S p))" by (simp add: components_def)
  then have "resolve S (normalize_path S p) = components S (normalize_path S p)"
    by (simp add: resolve_stack fold_normalize_filter components_def)
  then show "components S (normalize_path S (normalize_path S p)) = components S (normalize_path S p)"
    by (simp add: components_normalize_path [OF assms])
  show "components S (normalize_path S p) = rev (keep_undone 0 (rev (split_on S p)))"
    by (simp add: components_normalize_path [OF assms] resolve_def)
  show "\<forall>ws. cancels\<^sup>*\<^sup>* (split_on S p) ws \<and> (\<forall>w \<in> set ws. \<not> is_dots w) \<longleftrightarrow> ws = components S (normalize_path S p)"
    by (simp only: components_normalize_path [OF assms] cancels_resolve simp_thms)
qed (use assms in \<open>simp add: cow_to_ascii_lowercase_eq components_lower\<close>)

theorem normalize_path_resolves_witness:
  "components DvdbndConfig_SEPARATORS (normalize_path DvdbndConfig_SEPARATORS ''a/../../b/./C'') = [''b'', ''C'']"
proof -
  have "rev (keep_undone 0 (rev (split_on DvdbndConfig_SEPARATORS ''a/../../b/./C''))) = [''b'', ''C'']" by code_simp
  then show ?thesis
    using normalize_path_resolves [OF valid_seps_configs(2), of "''a/../../b/./C''"] by simp
qed

end
