(* ===== verification/FsObject.thy ===== *)
theory FsObject
  imports FsPath "HOL-Library.Sublist"
begin

text \<open>
  The mutable directory tree from which a filesystem is built
  (\<open>src/filesystem/object.rs\<close>: \<open>RofsObject::new\<close>, \<open>RofsObject::merge\<close> and the
  \<open>BranchExt\<close> operations). A \<open>Branch\<close> is an association list with distinct names
  whose order is the iteration order of the hash map. The lemmas characterise
  insertion and merging through \<open>find_leaf\<close> (the file index at a path) and \<open>free\<close>
  (a path that can still be given to a file), and state the invariant
  \<open>tree_inv\<close> that every operation keeps.
\<close>

section \<open>Trees and objects\<close>

text \<open>\<open>RofsError\<close>, shared by the filesystem's operations.\<close>

datatype rofs_error = NotFound | IsDir

type_synonym 'a rofs_result = "(rofs_error, 'a) outcome"

datatype tree_node = Branch "(string \<times> tree_node) list" | Leaf nat

type_synonym branch = "(string \<times> tree_node) list"

record 'a rofs_object =
  obj_root :: branch
  obj_files :: "'a list"

definition rofs_object_default :: "'a rofs_object" where
  "rofs_object_default = \<lparr>obj_root = [], obj_files = []\<rparr>"

text \<open>\<open>assert_u32\<close>: the conversion to \<open>u32\<close> panics when the number does not fit.\<close>

definition assert_u32 :: "nat \<Rightarrow> nat rofs_result" where
  "assert_u32 n = (if n \<le> U32_MAX then Ok n else Panic)"

text \<open>
  The inner loop of \<open>RofsObject::new\<close>: walk down the components of one path, creating
  the missing nodes; stop at a file; the name length is asserted at every step.
\<close>

fun insert_path :: "string list \<Rightarrow> nat \<Rightarrow> branch \<Rightarrow> branch rofs_result" where
  "insert_path [] file_node node = Ok node"
| "insert_path (component # cs) file_node node =
     (if 255 < length component then Panic
      else case map_of node component of
        None \<Rightarrow>
          if cs = [] then Ok (AList.update component (Leaf file_node) node)
          else obind (insert_path cs file_node [])
            (\<lambda>next. Ok (AList.update component (Branch next) node))
      | Some (Branch next) \<Rightarrow>
          obind (insert_path cs file_node next)
            (\<lambda>next'. Ok (AList.update component (Branch next') node))
      | Some (Leaf _) \<Rightarrow> Ok node)"

fun insert_paths :: "string \<Rightarrow> (string \<times> nat) list \<Rightarrow> branch \<Rightarrow> branch rofs_result" where
  "insert_paths S [] root = Ok root"
| "insert_paths S ((file_path, file_node) # rest) root =
     obind (insert_path (components S file_path) file_node root) (insert_paths S rest)"

definition rofs_new :: "string \<Rightarrow> (string \<times> 'a) list \<Rightarrow> 'a rofs_object rofs_result" where
  "rofs_new S files =
     (let file_paths = map (\<lambda>((path, file), data_index).
              (snd (cow_to_ascii_lowercase (normalize_path S path)), data_index))
            (zip files [0..<length files]);
          files' = map snd files
      in obind (assert_u32 (length files')) (\<lambda>_.
         obind (insert_paths S file_paths []) (\<lambda>root.
         Ok \<lparr>obj_root = [([], Branch root)], obj_files = files'\<rparr>)))"

text \<open>\<open>BranchExt::adjust_files\<close>; the \<open>u32\<close> addition wraps.\<close>

fun adjust_node :: "nat \<Rightarrow> tree_node \<Rightarrow> tree_node" where
  "adjust_node offset (Branch branch) =
     Branch (map (\<lambda>x. (fst x, adjust_node offset (snd x))) branch)"
| "adjust_node offset (Leaf file_index) = Leaf ((file_index + offset) mod 2 ^ 32)"

definition adjust_files :: "nat \<Rightarrow> branch \<Rightarrow> branch" where
  "adjust_files offset branch = map (\<lambda>x. (fst x, adjust_node offset (snd x))) branch"

text \<open>\<open>BranchExt::merge\<close>: the entries of the other branch in turn; an occupied entry is
  kept, unless both are directories, which are merged.\<close>

fun merge_branch :: "branch \<Rightarrow> branch \<Rightarrow> branch" where
  "merge_branch self [] = self"
| "merge_branch self ((name, Branch other_branch) # rest) =
     merge_branch
       (case map_of self name of
          Some (Branch branch) \<Rightarrow> AList.update name (Branch (merge_branch branch other_branch)) self
        | Some (Leaf _) \<Rightarrow> self
        | None \<Rightarrow> AList.update name (Branch other_branch) self) rest"
| "merge_branch self ((name, Leaf d) # rest) =
     merge_branch
       (case map_of self name of
          Some _ \<Rightarrow> self
        | None \<Rightarrow> AList.update name (Leaf d) self) rest"

definition rofs_merge :: "'a rofs_object \<Rightarrow> 'a rofs_object \<Rightarrow> 'a rofs_object rofs_result" where
  "rofs_merge self other =
     (let self_len = length (obj_root self); other_len = length (obj_root other)
      in if other_len = 0 \<or> self_len = 0 then Ok (if self_len \<noteq> 0 then self else other)
         else
           let files_offset = length (obj_files self) mod 2 ^ 32;
               other_root = adjust_files files_offset (obj_root other);
               files = obj_files self @ obj_files other
           in obind (assert_u32 (length files)) (\<lambda>_.
              Ok \<lparr>obj_root = merge_branch (obj_root self) other_root, obj_files = files\<rparr>))"

section \<open>What a tree contains\<close>

fun find_node :: "branch \<Rightarrow> string list \<Rightarrow> tree_node option" where
  "find_node b [] = Some (Branch b)"
| "find_node b (c # cs) =
     (case map_of b c of
        None \<Rightarrow> None
      | Some (Branch b') \<Rightarrow> find_node b' cs
      | Some (Leaf d) \<Rightarrow> if cs = [] then Some (Leaf d) else None)"

definition find_leaf :: "branch \<Rightarrow> string list \<Rightarrow> nat option" where
  "find_leaf b cs = (case find_node b cs of Some (Leaf d) \<Rightarrow> Some d | _ \<Rightarrow> None)"

definition file_at :: "'a rofs_object \<Rightarrow> string list \<Rightarrow> 'a option" where
  "file_at obj cs = map_option ((!) (obj_files obj)) (find_leaf (obj_root obj) cs)"

text \<open>A path is free when neither it nor a prefix of it names a file and it is no
  directory.\<close>

fun free :: "branch \<Rightarrow> string list \<Rightarrow> bool" where
  "free b [] \<longleftrightarrow> False"
| "free b (c # cs) \<longleftrightarrow>
     (case map_of b c of
        None \<Rightarrow> True
      | Some (Branch b') \<Rightarrow> free b' cs
      | Some (Leaf d) \<Rightarrow> False)"

lemma find_leaf_Nil [simp]: "find_leaf b [] = None"
  by (simp add: find_leaf_def)

lemma find_leaf_Cons [simp]:
  "find_leaf b (c # cs) =
     (case map_of b c of
        None \<Rightarrow> None
      | Some (Branch b') \<Rightarrow> find_leaf b' cs
      | Some (Leaf d) \<Rightarrow> if cs = [] then Some d else None)"
  by (simp add: find_leaf_def split: option.splits tree_node.splits)

lemma free_find_leaf: "free b cs \<Longrightarrow> find_leaf b cs = None"
  by (induction b cs rule: free.induct) (auto split: option.splits tree_node.splits)

lemma free_Nil [simp]: "free [] cs \<longleftrightarrow> cs \<noteq> []"
  by (cases cs) auto

lemma find_leaf_empty [simp]: "find_leaf [] cs = None"
  by (cases cs) auto

section \<open>The tree invariant\<close>

text \<open>
  Names are distinct in every directory and satisfy \<open>Q\<close>, file indices satisfy \<open>R\<close>,
  and no directory below the root is empty.
\<close>

lemma size_snd_in_branch [termination_simp]:
  "x \<in> set b \<Longrightarrow> size (snd x) < Suc (size_list (size_prod (\<lambda>_. 0) size) b)"
  by (induction b) auto

fun tree_inv :: "(string \<Rightarrow> bool) \<Rightarrow> (nat \<Rightarrow> bool) \<Rightarrow> tree_node \<Rightarrow> bool" where
  "tree_inv Q R (Branch b) \<longleftrightarrow>
     distinct (map fst b) \<and> b \<noteq> [] \<and> (\<forall>x \<in> set b. Q (fst x) \<and> tree_inv Q R (snd x))"
| "tree_inv Q R (Leaf d) \<longleftrightarrow> R d"

definition branch_inv :: "(string \<Rightarrow> bool) \<Rightarrow> (nat \<Rightarrow> bool) \<Rightarrow> branch \<Rightarrow> bool" where
  "branch_inv Q R b \<longleftrightarrow>
     distinct (map fst b) \<and> (\<forall>x \<in> set b. Q (fst x) \<and> tree_inv Q R (snd x))"

lemma tree_inv_Branch [simp]: "tree_inv Q R (Branch b) \<longleftrightarrow> b \<noteq> [] \<and> branch_inv Q R b"
  by (auto simp: branch_inv_def)

declare tree_inv.simps(1) [simp del]

lemma branch_inv_Nil [simp]: "branch_inv Q R []"
  by (simp add: branch_inv_def)

lemma set_update_subset: "set (AList.update c t b) \<subseteq> insert (c, t) (set b)"
  by (induction b) auto

lemma branch_inv_update [wf_intros]:
  "branch_inv Q R b \<Longrightarrow> Q c \<Longrightarrow> tree_inv Q R t \<Longrightarrow> branch_inv Q R (AList.update c t b)"
  using set_update_subset [of c t b] by (auto simp: branch_inv_def distinct_update)

lemma branch_inv_map_of:
  "branch_inv Q R b \<Longrightarrow> map_of b c = Some t \<Longrightarrow> Q c \<and> tree_inv Q R t"
  by (force simp: branch_inv_def dest: map_of_SomeD)

lemma tree_inv_mono:
  "tree_inv Q R t \<Longrightarrow> (\<And>d. R d \<Longrightarrow> R' d) \<Longrightarrow> tree_inv Q R' t"
  by (induction Q R t rule: tree_inv.induct) (auto simp: branch_inv_def)

lemma branch_inv_mono:
  "branch_inv Q R b \<Longrightarrow> (\<And>d. R d \<Longrightarrow> R' d) \<Longrightarrow> branch_inv Q R' b"
  by (auto simp: branch_inv_def intro: tree_inv_mono)

lemma update_neq_Nil [simp]: "AList.update c t b \<noteq> []"
  by (induction b) auto

subsection \<open>Insertion\<close>

lemma insert_path_nonempty:
  "insert_path cs d b = Ok b' \<Longrightarrow> cs \<noteq> [] \<Longrightarrow> b' \<noteq> []"
  by (cases cs) (auto split: if_splits option.splits tree_node.splits)

lemma insert_path_inv [wf_intros]:
  "insert_path cs d b = Ok b' \<Longrightarrow> branch_inv Q R b \<Longrightarrow> R d \<Longrightarrow>
     \<forall>c \<in> set cs. length c \<le> 255 \<longrightarrow> Q c \<Longrightarrow> branch_inv Q R b'"
proof (induction cs d b arbitrary: b' rule: insert_path.induct)
  case (2 c cs d b)
  note IH = "2.IH" and prems = "2.prems"
  have c: "length c \<le> 255" "Q c" using prems by (auto split: if_splits)
  show ?case
  proof (cases "map_of b c")
    case None
    then show ?thesis
      using prems c IH(1)
      by (auto split: if_splits intro!: branch_inv_update dest: insert_path_nonempty)
  next
    case (Some t)
    show ?thesis
    proof (cases t)
      case (Branch sub)
      with Some prems have "sub \<noteq> []" "branch_inv Q R sub"
        by (auto dest: branch_inv_map_of)
      then obtain sub' where "insert_path cs d sub = Ok sub'" "b' = AList.update c (Branch sub') b"
        using prems c Some Branch by auto
      moreover have "sub' \<noteq> []"
        using calculation(1) \<open>sub \<noteq> []\<close> insert_path_nonempty [of cs d sub sub']
        by (cases "cs = []") auto
      ultimately show ?thesis
        using prems c IH(2) [OF _ Some Branch] \<open>branch_inv Q R sub\<close>
        by (auto intro!: branch_inv_update)
    qed (use Some prems c in auto)
  qed
qed simp

text \<open>Inserting a path gives it the new file exactly when the path is free, and changes
  the file of no other path.\<close>

lemma find_leaf_insert_path:
  "insert_path cs d b = Ok b' \<Longrightarrow>
     find_leaf b' ds = (if ds = cs \<and> free b cs then Some d else find_leaf b ds)"
proof (induction cs d b arbitrary: b' ds rule: insert_path.induct)
  case (2 c cs d b)
  note IH = "2.IH"
  have c: "\<not> 255 < length c" using "2.prems" by (auto split: if_splits)
  show ?case
  proof (cases ds)
    case Nil
    then show ?thesis by simp
  next
    case (Cons e es)
    show ?thesis
    proof (cases "map_of b c")
      case None
      show ?thesis
      proof (cases "cs = []")
        case True
        then show ?thesis using "2.prems" c None Cons by auto
      next
        case False
        then obtain sub where sub: "insert_path cs d [] = Ok sub" and
          b': "b' = AList.update c (Branch sub) b"
          using "2.prems" c None by auto
        show ?thesis
          using IH(1) [OF c None False sub, of es] False Cons None by (auto simp: b')
      qed
    next
      case (Some t)
      show ?thesis
      proof (cases t)
        case (Branch sub)
        then obtain sub' where sub': "insert_path cs d sub = Ok sub'" and
          b': "b' = AList.update c (Branch sub') b"
          using "2.prems" c Some by auto
        show ?thesis
          using IH(2) [OF c Some Branch sub', of es] Cons Some Branch by (auto simp: b')
      qed (use "2.prems" c Some Cons in auto)
    qed
  qed
qed simp

lemma insert_path_ok:
  "\<forall>c \<in> set cs. length c \<le> 255 \<Longrightarrow> \<exists>b'. insert_path cs d b = Ok b'"
  by (induction cs d b rule: insert_path.induct)
    (fastforce split: option.splits tree_node.splits)+

text \<open>In a tree without empty directories a path that is not free is blocked by a file:
  at a prefix, at the path itself or below it.\<close>

lemma branch_has_leaf:
  "tree_inv Q R t \<Longrightarrow> t = Branch b \<Longrightarrow> \<exists>cs d. cs \<noteq> [] \<and> find_leaf b cs = Some d"
proof (induction t arbitrary: b rule: tree_node.induct)
  case (Branch x)
  then have inv: "branch_inv Q R b" and "b \<noteq> []" and b: "x = b" by auto
  then obtain c t rest where hd: "b = (c, t) # rest" by (cases b) auto
  show ?case
  proof (cases t)
    case (Leaf d)
    then have "find_leaf b [c] = Some d" by (simp add: hd)
    then show ?thesis by blast
  next
    case (Branch sub)
    have "tree_inv Q R t" using inv by (simp add: hd branch_inv_def)
    moreover have "(c, t) \<in> set x" "t \<in> Basic_BNFs.snds (c, t)" by (simp_all add: hd b)
    ultimately obtain cs d where "cs \<noteq> []" "find_leaf sub cs = Some d"
      using Branch.IH Branch by blast
    then have "find_leaf b (c # cs) = Some d" by (simp add: hd Branch)
    then show ?thesis by blast
  qed
qed simp

lemma not_free_blocked:
  assumes "branch_inv Q R b" "cs \<noteq> []" "\<not> free b cs"
  shows "\<exists>ds d. find_leaf b ds = Some d \<and> (prefix ds cs \<or> prefix cs ds)"
  using assms
proof (induction cs arbitrary: b)
  case (Cons c cs)
  then obtain t where t: "map_of b c = Some t" by (auto split: option.splits)
  with Cons.prems have inv: "tree_inv Q R t" by (auto dest: branch_inv_map_of)
  show ?case
  proof (cases t)
    case (Leaf d)
    then have "find_leaf b [c] = Some d" using t by simp
    moreover have "prefix [c] (c # cs)" by simp
    ultimately show ?thesis by blast
  next
    case (Branch sub)
    show ?thesis
    proof (cases "cs = []")
      case True
      obtain es d where "find_leaf sub es = Some d"
        using branch_has_leaf [OF inv Branch] by blast
      then have "find_leaf b (c # es) = Some d" using t Branch by simp
      moreover have "prefix (c # cs) (c # es)" using True by simp
      ultimately show ?thesis by blast
    next
      case False
      moreover have "branch_inv Q R sub" "\<not> free sub cs"
        using inv Branch Cons.prems t by auto
      ultimately obtain ds d where "find_leaf sub ds = Some d" "prefix ds cs \<or> prefix cs ds"
        using Cons.IH by blast
      then have "find_leaf b (c # ds) = Some d \<and> (prefix (c # ds) (c # cs) \<or> prefix (c # cs) (c # ds))"
        using t Branch by simp
      then show ?thesis by blast
    qed
  qed
qed simp

subsection \<open>Building an object from paths\<close>

lemma insert_paths_inv [wf_intros]:
  "insert_paths S ps b = Ok b' \<Longrightarrow> branch_inv Q R b \<Longrightarrow> \<forall>p \<in> set ps. R (snd p) \<Longrightarrow>
     \<forall>p \<in> set ps. \<forall>c \<in> set (components S (fst p)). length c \<le> 255 \<longrightarrow> Q c \<Longrightarrow> branch_inv Q R b'"
  by (induction S ps b rule: insert_paths.induct) (auto intro: insert_path_inv)

text \<open>Every file in the tree was put there by a path of the list.\<close>

lemma find_leaf_insert_paths_sound:
  "insert_paths S ps b = Ok b' \<Longrightarrow> find_leaf b' cs = Some d \<Longrightarrow>
     find_leaf b cs = Some d \<or> (\<exists>p \<in> set ps. cs = components S (fst p) \<and> d = snd p)"
proof (induction S ps b rule: insert_paths.induct)
  case (2 S path d' rest b)
  then obtain b1 where b1: "insert_path (components S path) d' b = Ok b1"
    and b': "insert_paths S rest b1 = Ok b'" by auto
  from "2.IH" [OF b1 b' "2.prems"(2)] show ?case
    using find_leaf_insert_path [OF b1, of cs] by (auto split: if_splits)
qed auto

text \<open>A file is kept by all later insertions.\<close>

lemma find_leaf_insert_paths_mono:
  "insert_paths S ps b = Ok b' \<Longrightarrow> find_leaf b cs = Some d \<Longrightarrow> find_leaf b' cs = Some d"
proof (induction S ps b rule: insert_paths.induct)
  case (2 S path d' rest b)
  then obtain b1 where b1: "insert_path (components S path) d' b = Ok b1"
    and b': "insert_paths S rest b1 = Ok b'" by auto
  have "find_leaf b1 cs = Some d"
    using find_leaf_insert_path [OF b1, of cs] "2.prems"(2) free_find_leaf by fastforce
  with "2.IH" b1 b' show ?case by blast
qed auto

lemma insert_paths_append:
  "insert_paths S (ps @ qs) b = obind (insert_paths S ps b) (insert_paths S qs)"
proof (induction S ps b rule: insert_paths.induct)
  case (2 S path d rest b)
  then show ?case by (cases "insert_path (components S path) d b") simp_all
qed simp

text \<open>A path that conflicts with no earlier path names its own file.\<close>

lemma find_leaf_insert_paths_complete:
  assumes ok: "insert_paths S (ps @ (path, d) # qs) [] = Ok b'"
    and ne: "components S path \<noteq> []"
    and clear: "\<forall>p \<in> set ps. \<not> prefix (components S (fst p)) (components S path)
        \<and> \<not> prefix (components S path) (components S (fst p))"
  shows "find_leaf b' (components S path) = Some d"
proof -
  obtain b1 b2 where b1: "insert_paths S ps [] = Ok b1"
    and b2: "insert_path (components S path) d b1 = Ok b2"
    and b': "insert_paths S qs b2 = Ok b'"
    using ok by (auto simp: insert_paths_append)
  have inv: "branch_inv (\<lambda>_. True) (\<lambda>_. True) b1"
    using b1 by (rule insert_paths_inv) simp_all
  have "free b1 (components S path)"
  proof (rule ccontr)
    assume "\<not> free b1 (components S path)"
    then obtain ds e where ds: "find_leaf b1 ds = Some e"
      "prefix ds (components S path) \<or> prefix (components S path) ds"
      using not_free_blocked [OF inv ne] by blast
    with find_leaf_insert_paths_sound [OF b1 ds(1)] clear show False by auto
  qed
  then have "find_leaf b2 (components S path) = Some d"
    using find_leaf_insert_path [OF b2] by simp
  with b' show ?thesis by (rule find_leaf_insert_paths_mono)
qed

subsection \<open>Merging\<close>

lemma adjust_node_Branch [simp]: "adjust_node off (Branch b) = Branch (adjust_files off b)"
  by (simp add: adjust_files_def)

declare adjust_node.simps(1) [simp del]

lemma find_leaf_adjust:
  "find_leaf (adjust_files off b) cs = map_option (\<lambda>i. (i + off) mod 2 ^ 32) (find_leaf b cs)"
proof (induction b cs rule: find_node.induct)
  case (2 b c cs)
  have m: "map_of (adjust_files off b) c = map_option (adjust_node off) (map_of b c)"
    by (induction b) (auto simp: adjust_files_def)
  show ?case
    using 2 by (auto simp: m split: option.splits tree_node.splits)
qed simp

lemma fst_adjust_files [simp]: "map fst (adjust_files off b) = map fst b"
  by (simp add: adjust_files_def)

lemma length_adjust_files [simp]: "length (adjust_files off b) = length b"
  by (simp add: adjust_files_def)

lemma adjust_node_inv:
  "tree_inv Q R t \<Longrightarrow> \<forall>d. R d \<longrightarrow> R' ((d + off) mod 2 ^ 32) \<Longrightarrow> tree_inv Q R' (adjust_node off t)"
proof (induction off t rule: adjust_node.induct)
  case (1 off b)
  then show ?case
    by (auto simp: branch_inv_def adjust_files_def o_def)
qed simp

lemma adjust_files_inv [wf_intros]:
  "branch_inv Q R b \<Longrightarrow> \<forall>d. R d \<longrightarrow> R' ((d + off) mod 2 ^ 32) \<Longrightarrow> branch_inv Q R' (adjust_files off b)"
  by (auto simp: branch_inv_def adjust_files_def o_def intro: adjust_node_inv)

lemma merge_branch_map_of:
  "distinct (map fst b) \<Longrightarrow>
     map_of (merge_branch a b) c =
       (case map_of a c of
          None \<Rightarrow> map_of b c
        | Some (Branch x) \<Rightarrow>
            (case map_of b c of Some (Branch y) \<Rightarrow> Some (Branch (merge_branch x y)) | _ \<Rightarrow> Some (Branch x))
        | Some (Leaf d) \<Rightarrow> Some (Leaf d))"
proof (induction b arbitrary: a)
  case (Cons p b)
  obtain n t where p: "p = (n, t)" by (cases p)
  from Cons.prems have "distinct (map fst b)" and n: "map_of b n = None"
    by (auto simp: p map_of_eq_None_iff)
  then show ?case
    by (cases t) (auto simp: p Cons.IH split: option.splits tree_node.splits)
qed (simp split: option.split tree_node.split)

text \<open>A merged tree holds the left tree's files, and those of the right tree whose path
  is free in the left tree.\<close>

lemma find_leaf_merge:
  "branch_inv Q R b \<Longrightarrow>
     find_leaf (merge_branch a b) cs = (if free a cs then find_leaf b cs else find_leaf a cs)"
proof (induction cs arbitrary: a b)
  case (Cons c cs)
  have m: "map_of (merge_branch a b) c =
       (case map_of a c of
          None \<Rightarrow> map_of b c
        | Some (Branch x) \<Rightarrow>
            (case map_of b c of Some (Branch y) \<Rightarrow> Some (Branch (merge_branch x y)) | _ \<Rightarrow> Some (Branch x))
        | Some (Leaf d) \<Rightarrow> Some (Leaf d))"
    using Cons.prems by (intro merge_branch_map_of) (simp add: branch_inv_def)
  have sub: "find_leaf (merge_branch x y) cs = (if free x cs then find_leaf y cs else find_leaf x cs)"
    if "map_of b c = Some (Branch y)" for x y
    using branch_inv_map_of [OF Cons.prems that] by (intro Cons.IH) simp
  show ?case
    by (auto simp: m sub free_find_leaf split: option.splits tree_node.splits)
qed simp

lemma merge_branch_neq_Nil: "a \<noteq> [] \<Longrightarrow> merge_branch a b \<noteq> []"
  by (induction a b rule: merge_branch.induct) (auto split: option.splits tree_node.splits)

lemma merge_branch_inv [wf_intros]:
  "branch_inv Q R a \<Longrightarrow> branch_inv Q R b \<Longrightarrow> branch_inv Q R (merge_branch a b)"
proof (induction a b rule: merge_branch.induct)
  case (2 a name y rest)
  from "2.prems" have y: "Q name" "tree_inv Q R (Branch y)" "branch_inv Q R y" "branch_inv Q R rest"
    by (auto simp: branch_inv_def)
  note step = "2.IH"(2) [OF _ y(4)]
  show ?case
  proof (cases "map_of a name")
    case None
    then show ?thesis
      using step branch_inv_update [where b = a and c = name and t = "Branch y"] "2.prems"(1) y
      by simp
  next
    case (Some t)
    show ?thesis
    proof (cases t)
      case (Branch x)
      with Some "2.prems"(1) have x: "x \<noteq> []" "branch_inv Q R x"
        by (auto dest: branch_inv_map_of)
      then have "tree_inv Q R (Branch (merge_branch x y))"
        using "2.IH"(1) [OF Some Branch x(2) y(3)] by (simp add: merge_branch_neq_Nil)
      then have "branch_inv Q R (AList.update name (Branch (merge_branch x y)) a)"
        by (intro branch_inv_update "2.prems"(1) y(1))
      then show ?thesis using step Some Branch by simp
    qed (use Some step "2.prems"(1) in simp)
  qed
next
  case (3 a name d rest)
  from "3.prems" have y: "Q name" "tree_inv Q R (Leaf d)" "branch_inv Q R rest"
    by (auto simp: branch_inv_def)
  show ?case
  proof (cases "map_of a name")
    case None
    then show ?thesis
      using "3.IH" [OF _ y(3)] "3.prems"(1) y(1,2)
        branch_inv_update [where b = a and c = name and t = "Leaf d"] by simp
  qed (use "3.IH" "3.prems"(1) y in simp)
qed simp

section \<open>The invariant of an object\<close>

definition is_lower :: "string \<Rightarrow> bool" where
  "is_lower s \<longleftrightarrow> \<not> list_ex is_ascii_uppercase s"

text \<open>Names are proper lowercase components of at most 255 bytes; the root directory has
  the empty name.\<close>

definition name_ok :: "string \<Rightarrow> string \<Rightarrow> bool" where
  "name_ok S c \<longleftrightarrow> length c \<le> 255 \<and> is_lower c \<and> c \<noteq> [] \<and> c \<noteq> ''.'' \<and> c \<noteq> ''..'' \<and> set c \<inter> set S = {}"

definition object_inv :: "string \<Rightarrow> 'a rofs_object \<Rightarrow> bool" where
  "object_inv S obj \<longleftrightarrow> length (obj_files obj) \<le> U32_MAX \<and>
     (obj_root obj = [] \<and> obj_files obj = [] \<or>
      (\<exists>b. obj_root obj = [([], Branch b)] \<and> branch_inv (name_ok S) (\<lambda>d. d < length (obj_files obj)) b))"

text \<open>The files of an object, by the components of their path below the root.\<close>

definition object_lookup :: "'a rofs_object \<Rightarrow> string list \<Rightarrow> 'a option" where
  "object_lookup obj cs = file_at obj ([] # cs)"

definition object_free :: "'a rofs_object \<Rightarrow> string list \<Rightarrow> bool" where
  "object_free obj cs \<longleftrightarrow> free (obj_root obj) ([] # cs)"

text \<open>The path under which \<open>new\<close> stores a file.\<close>

definition stored_path :: "string \<Rightarrow> string \<Rightarrow> string list" where
  "stored_path S path = map to_ascii_lowercase (resolve S path)"

lemma object_lookup_simps:
  "obj_root obj = [([], Branch b)] \<Longrightarrow>
     object_lookup obj cs = map_option ((!) (obj_files obj)) (find_leaf b cs)"
  "obj_root obj = [] \<Longrightarrow> object_lookup obj cs = None"
  by (simp_all add: object_lookup_def file_at_def)

lemma object_free_simps:
  "obj_root obj = [([], Branch b)] \<Longrightarrow> object_free obj cs = free b cs"
  "obj_root obj = [] \<Longrightarrow> object_free obj cs"
  by (simp_all add: object_free_def)

lemma is_lower_to_ascii_lowercase [simp]: "is_lower (to_ascii_lowercase s)"
  by (simp add: is_lower_def to_ascii_lowercase_def list_ex_iff)

lemma stored_path_components:
  "valid_seps S \<Longrightarrow>
     components S (snd (cow_to_ascii_lowercase (normalize_path S p))) = stored_path S p"
  by (simp add: cow_to_ascii_lowercase_eq components_lower components_normalize_path stored_path_def)

lemma stored_path_name_ok:
  assumes "valid_seps S" "c \<in> set (stored_path S p)" "length c \<le> 255"
  shows "name_ok S c"
proof -
  obtain w where w: "c = to_ascii_lowercase w" "w \<in> set (resolve S p)"
    using assms(2) by (auto simp: stored_path_def)
  have "set c \<inter> set S = {}"
    using set_resolve [OF w(2)] ascii_lower_in_seps [OF assms(1)]
    by (auto simp: w(1) to_ascii_lowercase_def)
  then show ?thesis using set_resolve [OF w(2)] assms(3) by (simp add: name_ok_def w(1))
qed

text \<open>The list of normalised paths that \<open>new\<close> inserts.\<close>

definition normal_paths :: "string \<Rightarrow> (string \<times> 'a) list \<Rightarrow> (string \<times> nat) list" where
  "normal_paths S files =
     map (\<lambda>((path, file), i). (snd (cow_to_ascii_lowercase (normalize_path S path)), i))
       (zip files [0..<length files])"

lemma length_normal_paths [simp]: "length (normal_paths S files) = length files"
  by (simp add: normal_paths_def)

lemma nth_normal_paths [simp]:
  "i < length files \<Longrightarrow> normal_paths S files ! i =
     (snd (cow_to_ascii_lowercase (normalize_path S (fst (files ! i)))), i)"
  by (simp add: normal_paths_def case_prod_beta)

lemma in_normal_paths:
  "x \<in> set (normal_paths S files) \<longleftrightarrow> (\<exists>i < length files. x = normal_paths S files ! i)"
  by (auto simp: in_set_conv_nth)

lemma comps_normal_paths:
  assumes "valid_seps S"
  shows "(\<forall>p \<in> set (normal_paths S files). P (components S (fst p))) \<longleftrightarrow>
    (\<forall>f \<in> set files. P (stored_path S (fst f)))"
proof -
  have "map (components S \<circ> fst) (normal_paths S files) = map (stored_path S \<circ> fst) files"
    by (rule nth_equalityI) (simp_all add: stored_path_components assms)
  then have "set (map (components S \<circ> fst) (normal_paths S files)) = set (map (stored_path S \<circ> fst) files)"
    by (rule arg_cong)
  then have "(\<forall>cs \<in> (components S \<circ> fst) ` set (normal_paths S files). P cs) \<longleftrightarrow>
      (\<forall>cs \<in> (stored_path S \<circ> fst) ` set files. P cs)"
    by (simp only: set_map)
  then show ?thesis by simp
qed

lemmas comps_normal_all = comps_normal_paths [where P = "\<lambda>cs. \<forall>c \<in> set cs. Q c" for Q]

lemma rofs_new_Ok:
  "rofs_new S files = Ok obj \<longleftrightarrow> length files \<le> U32_MAX \<and>
     (\<exists>b. insert_paths S (normal_paths S files) [] = Ok b \<and>
       obj = \<lparr>obj_root = [([], Branch b)], obj_files = map snd files\<rparr>)"
  by (auto simp: rofs_new_def assert_u32_def Let_def normal_paths_def)

lemma rofs_new_inv [wf_intros]:
  assumes "valid_seps S" "rofs_new S files = Ok obj"
  shows "object_inv S obj"
proof -
  obtain b where b: "insert_paths S (normal_paths S files) [] = Ok b"
    and obj: "obj = \<lparr>obj_root = [([], Branch b)], obj_files = map snd files\<rparr>"
    and len: "length files \<le> U32_MAX"
    using assms(2) by (auto simp: rofs_new_Ok)
  have "branch_inv (name_ok S) (\<lambda>d. d < length files) b"
  proof (rule insert_paths_inv [OF b])
    show "\<forall>p \<in> set (normal_paths S files). snd p < length files"
      by (auto simp: in_normal_paths)
    show "\<forall>p \<in> set (normal_paths S files). \<forall>c \<in> set (components S (fst p)).
        length c \<le> 255 \<longrightarrow> name_ok S c"
      using stored_path_name_ok [OF assms(1)] by (simp add: comps_normal_all [OF assms(1)])
  qed simp
  then show ?thesis using len by (simp add: object_inv_def obj)
qed

lemma rofs_merge_inv [wf_intros]:
  assumes "object_inv S a" "object_inv S b" "rofs_merge a b = Ok m"
  shows "object_inv S m"
proof (cases "obj_root a = [] \<or> obj_root b = []")
  case False
  with assms obtain x y where x: "obj_root a = [([], Branch x)]" "obj_root b = [([], Branch y)]"
    and inv: "branch_inv (name_ok S) (\<lambda>d. d < length (obj_files a)) x"
      "branch_inv (name_ok S) (\<lambda>d. d < length (obj_files b)) y"
    by (auto simp: object_inv_def)
  let ?n = "length (obj_files a) + length (obj_files b)"
  let ?off = "length (obj_files a) mod 2 ^ 32"
  from assms(3) x have n: "?n \<le> U32_MAX"
    and m: "m = \<lparr>obj_root = [([], Branch (merge_branch x (adjust_files ?off y)))],
      obj_files = obj_files a @ obj_files b\<rparr>"
    by (auto simp: rofs_merge_def Let_def assert_u32_def adjust_files_def split: if_splits)
  have "branch_inv (name_ok S) (\<lambda>d. d < ?n) x"
    using inv(1) by (rule branch_inv_mono) simp
  moreover have "branch_inv (name_ok S) (\<lambda>d. d < ?n) (adjust_files ?off y)"
    using inv(2) n by (intro adjust_files_inv) auto
  ultimately show ?thesis using n by (simp add: object_inv_def m merge_branch_inv)
qed (use assms in \<open>auto simp: rofs_merge_def object_inv_def split: if_splits\<close>)

lemma find_leaf_inv:
  "branch_inv Q R b \<Longrightarrow> find_leaf b cs = Some d \<Longrightarrow> R d \<and> (\<forall>c \<in> set cs. Q c)"
proof (induction cs arbitrary: b)
  case (Cons c cs)
  then obtain t where t: "map_of b c = Some t" by (auto split: option.splits)
  with Cons.prems have "Q c" "tree_inv Q R t" by (auto dest: branch_inv_map_of)
  then show ?case using Cons t by (cases t) (auto split: if_splits)
qed simp

lemma insert_paths_ok:
  "\<forall>p \<in> set ps. \<forall>c \<in> set (components S (fst p)). length c \<le> 255 \<Longrightarrow>
     \<exists>b'. insert_paths S ps b = Ok b'"
proof (induction S ps b rule: insert_paths.induct)
  case (2 S path d rest b)
  then obtain b1 where b1: "insert_path (components S path) d b = Ok b1"
    using insert_path_ok [of "components S path" d b] by auto
  show ?case using "2.IH" [OF b1] "2.prems" b1 by simp
qed simp

subsection \<open>The files of a new object\<close>

lemma rofs_new_sound:
  assumes "valid_seps S" "rofs_new S files = Ok obj" "object_lookup obj cs = Some f"
  shows "\<exists>i < length files. f = snd (files ! i) \<and> cs = stored_path S (fst (files ! i))"
proof -
  obtain b where b: "insert_paths S (normal_paths S files) [] = Ok b"
    and obj: "obj = \<lparr>obj_root = [([], Branch b)], obj_files = map snd files\<rparr>"
    using assms(2) by (auto simp: rofs_new_Ok)
  from assms(3) obtain d where d: "find_leaf b cs = Some d" and f: "f = map snd files ! d"
    by (auto simp: object_lookup_simps obj)
  then obtain p where p: "p \<in> set (normal_paths S files)" "cs = components S (fst p)" "d = snd p"
    using find_leaf_insert_paths_sound [OF b d] by auto
  then obtain i where "i < length files" "p = normal_paths S files ! i"
    by (auto simp: in_normal_paths)
  then show ?thesis using p f assms(1) by (intro exI [of _ i]) (simp add: stored_path_components)
qed

text \<open>No earlier path shadows the path of the \<open>i\<close>-th file.\<close>

definition unshadowed :: "string \<Rightarrow> (string \<times> 'a) list \<Rightarrow> nat \<Rightarrow> bool" where
  "unshadowed S files i \<longleftrightarrow> stored_path S (fst (files ! i)) \<noteq> [] \<and>
     (\<forall>j < i. \<not> prefix (stored_path S (fst (files ! j))) (stored_path S (fst (files ! i)))
        \<and> \<not> prefix (stored_path S (fst (files ! i))) (stored_path S (fst (files ! j))))"

lemma rofs_new_complete:
  assumes "valid_seps S" "rofs_new S files = Ok obj" "i < length files" "unshadowed S files i"
  shows "object_lookup obj (stored_path S (fst (files ! i))) = Some (snd (files ! i))"
proof -
  let ?p = "\<lambda>i. stored_path S (fst (files ! i))"
  obtain b where b: "insert_paths S (normal_paths S files) [] = Ok b"
    and obj: "obj = \<lparr>obj_root = [([], Branch b)], obj_files = map snd files\<rparr>"
    using assms(2) by (auto simp: rofs_new_Ok)
  let ?q = "fst (normal_paths S files ! i)"
  have q: "components S (fst (normal_paths S files ! j)) = ?p j" if "j < length files" for j
    using assms(1) that by (simp add: stored_path_components)
  have split: "normal_paths S files =
      take i (normal_paths S files) @ (?q, i) # drop (Suc i) (normal_paths S files)"
    using assms(3) by (metis id_take_nth_drop length_normal_paths nth_normal_paths prod.sel(1))
  have "find_leaf b (components S ?q) = Some i"
  proof (rule find_leaf_insert_paths_complete)
    show "insert_paths S (take i (normal_paths S files) @ (?q, i) # drop (Suc i) (normal_paths S files)) [] = Ok b"
      using b split by simp
    show "components S ?q \<noteq> []" using q assms by (simp add: unshadowed_def)
    show "\<forall>p \<in> set (take i (normal_paths S files)). \<not> prefix (components S (fst p)) (components S ?q)
        \<and> \<not> prefix (components S ?q) (components S (fst p))"
    proof
      fix p assume "p \<in> set (take i (normal_paths S files))"
      then obtain j where "j < i" "p = normal_paths S files ! j"
        using assms(3) by (auto simp: in_set_conv_nth)
      then show "\<not> prefix (components S (fst p)) (components S ?q)
          \<and> \<not> prefix (components S ?q) (components S (fst p))"
        using assms(3,4) q unfolding unshadowed_def by (metis less_trans)
    qed
  qed
  then show ?thesis
    using assms(3) q [OF assms(3)] by (simp add: object_lookup_simps obj)
qed

lemma rofs_new_total:
  assumes "valid_seps S" "length files \<le> U32_MAX"
    and "\<forall>f \<in> set files. \<forall>c \<in> set (stored_path S (fst f)). length c \<le> 255"
  shows "\<exists>obj. rofs_new S files = Ok obj"
proof -
  have "\<forall>p \<in> set (normal_paths S files). \<forall>c \<in> set (components S (fst p)). length c \<le> 255"
    by (simp add: comps_normal_all [OF assms(1)] assms(3))
  then show ?thesis using insert_paths_ok assms(2) by (simp add: rofs_new_Ok)
qed

subsection \<open>The files of a merged object\<close>

lemma rofs_merge_lookup:
  assumes "object_inv S a" "object_inv S b" "rofs_merge a b = Ok m"
  shows "object_lookup m cs = (if object_free a cs then object_lookup b cs else object_lookup a cs)"
proof (cases "obj_root a = [] \<or> obj_root b = []")
  case False
  with assms obtain x y where x: "obj_root a = [([], Branch x)]" and y: "obj_root b = [([], Branch y)]"
    and inv: "branch_inv (name_ok S) (\<lambda>d. d < length (obj_files a)) x"
      "branch_inv (name_ok S) (\<lambda>d. d < length (obj_files b)) y"
    by (auto simp: object_inv_def)
  let ?off = "length (obj_files a) mod 2 ^ 32"
  from assms(3) x y have n: "length (obj_files a) + length (obj_files b) \<le> U32_MAX"
    and m: "m = \<lparr>obj_root = [([], Branch (merge_branch x (adjust_files ?off y)))],
      obj_files = obj_files a @ obj_files b\<rparr>"
    by (auto simp: rofs_merge_def Let_def assert_u32_def adjust_files_def split: if_splits)
  have "branch_inv (name_ok S) (\<lambda>_. True) (adjust_files ?off y)"
    using inv(2) by (rule adjust_files_inv) simp
  note merged = find_leaf_merge [OF this, of x cs]
  have "find_leaf x cs = Some d \<Longrightarrow> d < length (obj_files a)" for d
    using find_leaf_inv [OF inv(1)] by blast
  moreover have "find_leaf y cs = Some d \<Longrightarrow> d < length (obj_files b)" for d
    using find_leaf_inv [OF inv(2)] by blast
  ultimately show ?thesis using x y n merged
    by (cases "find_leaf x cs"; cases "find_leaf y cs")
      (auto simp: object_lookup_def file_at_def object_free_def m find_leaf_adjust nth_append)
next
  case True
  have "object_lookup m cs = (if object_free a cs then object_lookup b cs else object_lookup a cs)"
    if a: "obj_root a \<noteq> []" and b: "obj_root b = []"
  proof -
    have "m = a" using that assms(3) by (simp add: rofs_merge_def)
    moreover have "object_free a cs \<Longrightarrow> object_lookup a cs = None"
      by (simp add: object_free_def object_lookup_def file_at_def free_find_leaf
          del: free.simps find_leaf_Cons)
    ultimately show ?thesis using b by (simp add: object_lookup_simps)
  qed
  then show ?thesis
    using True assms(3)
    by (cases "obj_root a = []") (simp_all add: rofs_merge_def object_free_simps)
qed

section \<open>Properties\<close>

text \<open>C10: an object built from a list of files stores exactly those files: a file found at
  a path was listed under that path (up to case, separators and dot components), every
  listed file that no earlier path shadows is found, and building succeeds whenever the
  names fit in 255 bytes and the count in 32 bits.\<close>

theorem rofs_new_correct:
  assumes "valid_seps S"
  shows "(\<forall>obj cs f. rofs_new S files = Ok obj \<longrightarrow> object_lookup obj cs = Some f \<longrightarrow>
      (\<exists>i < length files. f = snd (files ! i) \<and> cs = stored_path S (fst (files ! i))))
    \<and> (\<forall>obj i. rofs_new S files = Ok obj \<longrightarrow> i < length files \<longrightarrow> unshadowed S files i \<longrightarrow>
      object_lookup obj (stored_path S (fst (files ! i))) = Some (snd (files ! i)))
    \<and> (length files \<le> U32_MAX \<longrightarrow>
      (\<forall>f \<in> set files. \<forall>c \<in> set (stored_path S (fst f)). length c \<le> 255) \<longrightarrow>
      (\<exists>obj. rofs_new S files = Ok obj))"
proof (intro conjI allI impI)
  show "\<exists>i < length files. f = snd (files ! i) \<and> cs = stored_path S (fst (files ! i))"
    if "rofs_new S files = Ok obj" "object_lookup obj cs = Some f" for obj cs f
    using assms that by (rule rofs_new_sound)
  show "object_lookup obj (stored_path S (fst (files ! i))) = Some (snd (files ! i))"
    if "rofs_new S files = Ok obj" "i < length files" "unshadowed S files i" for obj i
    using assms that by (rule rofs_new_complete)
  show "\<exists>obj. rofs_new S files = Ok obj"
    if "length files \<le> U32_MAX" "\<forall>f \<in> set files. \<forall>c \<in> set (stored_path S (fst f)). length c \<le> 255"
    using assms that by (rule rofs_new_total)
qed

theorem rofs_new_correct_witness:
  "\<exists>obj. rofs_new DvdbndConfig_SEPARATORS [(''/A/b'', 7::nat), (''c'', 8)] = Ok obj \<and>
     object_lookup obj [''a'', ''b''] = Some 7"
proof -
  let ?files = "[(''/A/b'', 7::nat), (''c'', 8)]"
  have p: "stored_path DvdbndConfig_SEPARATORS ''/A/b'' = [''a'', ''b'']" by code_simp
  have q: "stored_path DvdbndConfig_SEPARATORS ''c'' = [''c'']" by code_simp
  have "unshadowed DvdbndConfig_SEPARATORS ?files 0" using p by (simp add: unshadowed_def)
  moreover obtain obj where "rofs_new DvdbndConfig_SEPARATORS ?files = Ok obj"
    using rofs_new_correct [OF valid_seps_configs(2), of ?files, THEN conjunct2, THEN conjunct2] p q
    by auto
  ultimately show ?thesis
    using rofs_new_correct [OF valid_seps_configs(2), of ?files, THEN conjunct2, THEN conjunct1,
      THEN spec, THEN spec, of obj 0] by (simp add: p)
qed

text \<open>C11: merging two objects keeps the invariant (distinct lowercase names, valid file
  indices, no empty subdirectories) and every file of the left object; a file of the right
  object is found exactly when its path is free in the left one.\<close>

theorem rofs_merge_correct:
  assumes "object_inv S a" "object_inv S b" "rofs_merge a b = Ok m"
  shows "object_inv S m \<and>
    object_lookup m cs = (if object_free a cs then object_lookup b cs else object_lookup a cs)"
  using rofs_merge_inv [OF assms] rofs_merge_lookup [OF assms] by blast

theorem rofs_merge_correct_witness:
  "let S = DvdbndConfig_SEPARATORS;
       a = \<lparr>obj_root = [([], Branch [(''x'', Leaf 0)])], obj_files = [10::nat]\<rparr>;
       b = \<lparr>obj_root = [([], Branch [(''y'', Leaf 0), (''x'', Leaf 1)])], obj_files = [20::nat, 21]\<rparr>
   in \<exists>m. rofs_merge a b = Ok m \<and> object_inv S m \<and> object_lookup m [''x''] = Some 10 \<and>
        object_lookup m [''y''] = Some 20"
proof -
  let ?S = DvdbndConfig_SEPARATORS
  let ?a = "\<lparr>obj_root = [([], Branch [(''x'', Leaf 0)])], obj_files = [10::nat]\<rparr>"
  let ?b = "\<lparr>obj_root = [([], Branch [(''y'', Leaf 0), (''x'', Leaf 1)])], obj_files = [20::nat, 21]\<rparr>"
  have n: "name_ok ?S ''x''" "name_ok ?S ''y''" by code_simp+
  have "object_inv ?S ?a" "object_inv ?S ?b"
    using n by (auto simp: object_inv_def branch_inv_def)
  note m = rofs_merge_correct [OF this]
  have "\<not> object_free ?a [''x'']" "object_free ?a [''y'']"
    "object_lookup ?a [''x''] = Some 10" "object_lookup ?b [''y''] = Some 20"
    by code_simp+
  note vals = this
  obtain r where ok: "rofs_merge ?a ?b = Ok r" by (simp add: rofs_merge_def assert_u32_def Let_def)
  show ?thesis
    unfolding Let_def using ok m [OF ok, of "[''x'']"] m [OF ok, of "[''y'']"] vals
    by (intro exI [of _ r] conjI) (simp_all del: find_leaf_Cons free.simps)
qed

end
