(* ===== verification/Rofs.thy ===== *)
theory Rofs
  imports FsObject
begin

text \<open>
  The frozen filesystem (\<open>src/filesystem.rs\<close>, and \<open>RofsObject::into_rofs\<close> of
  \<open>src/filesystem/object.rs\<close>): a tree is flattened breadth-first into one array of
  nodes, every directory a contiguous slice sorted by name and permuted into
  Eytzinger order, all names interned in one length-prefixed byte table.

  The Eytzinger permutation and search are the third-party crate \<open>eytzinger\<close>: the
  parameters \<open>layout\<close> (which element of a sorted slice of \<open>n\<close> goes to which
  position) and \<open>esearch\<close>, with the documented contract \<open>eytzinger_ok\<close>.
  The lemmas show that the flattened form answers every lookup as the tree does
  and that every unchecked read of the name table is in bounds.
\<close>

section \<open>Nodes\<close>

datatype node_content =
    NDir nat nat   \<comment> \<open>child index, child count\<close>
  | NFile nat      \<comment> \<open>data index\<close>

record node =
  content :: node_content
  name_index :: nat

record 'a rofs =
  nodes :: "node list"
  rofs_files :: "'a list"
  names :: bytes

definition node_dir :: "nat \<Rightarrow> nat \<Rightarrow> nat \<Rightarrow> node" where
  "node_dir child_index child_count index =
     \<lparr>content = NDir child_index child_count, name_index = index\<rparr>"

definition node_file :: "nat \<Rightarrow> nat \<Rightarrow> node" where
  "node_file data_index index = \<lparr>content = NFile data_index, name_index = index\<rparr>"

text \<open>The length-prefixed name at an index of the table, read as the unchecked code
  reads it.\<close>

definition read_name :: "bytes \<Rightarrow> nat \<Rightarrow> bytes" where
  "read_name ns index =
     (case drop index ns of [] \<Rightarrow> [] | len # rest \<Rightarrow> take (unat len) rest)"

section \<open>Freezing a tree\<close>

definition eytzingerize :: "(nat \<Rightarrow> nat list) \<Rightarrow> 'b list \<Rightarrow> 'b list" where
  "eytzingerize layout xs = map ((!) xs) (layout (length xs))"

record build_state =
  b_nodes :: "node list"
  b_names :: bytes
  b_interned :: "(string \<times> nat) list"
  b_queue :: "branch list"
  b_child_index :: nat

text \<open>\<open>names_interned.entry(component).or_insert_with(..)\<close>.\<close>

definition intern :: "string \<Rightarrow> build_state \<Rightarrow> (nat \<times> build_state) rofs_result" where
  "intern component st =
     (case map_of (b_interned st) component of
        Some index \<Rightarrow> Ok (index, st)
      | None \<Rightarrow> obind (assert_u32 (length (b_names st))) (\<lambda>index.
          Ok (index, st\<lparr>b_names := b_names st @ of_nat (length component) # as_bytes component,
                        b_interned := AList.update component index (b_interned st)\<rparr>)))"

text \<open>The loop over the entries of one directory.\<close>

fun place_nodes :: "branch \<Rightarrow> build_state \<Rightarrow> build_state rofs_result" where
  "place_nodes [] st = Ok st"
| "place_nodes ((component, Branch branch) # rest) st =
     obind (intern component st) (\<lambda>(index, st).
       let child_count = length branch mod 2 ^ 32;
           st = st\<lparr>b_nodes := b_nodes st @ [node_dir (b_child_index st) child_count index]\<rparr>
       in if b_child_index st + child_count \<le> U32_MAX then
            place_nodes rest (st\<lparr>b_child_index := b_child_index st + child_count,
                                 b_queue := b_queue st @ [branch]\<rparr>)
          else Panic)"
| "place_nodes ((component, Leaf data_index) # rest) st =
     obind (intern component st) (\<lambda>(index, st).
       place_nodes rest (st\<lparr>b_nodes := b_nodes st @ [node_file data_index index]\<rparr>))"

text \<open>One iteration of the breadth-first loop: place the entries, sort the new slice by
  name, permute it.\<close>

definition build_level :: "(nat \<Rightarrow> nat list) \<Rightarrow> branch \<Rightarrow> build_state \<Rightarrow> build_state rofs_result" where
  "build_level layout branch st =
     (let first = length (b_nodes st)
      in obind (place_nodes branch st) (\<lambda>st.
         let sorted = sort_key (\<lambda>node. read_name (b_names st) (name_index node))
                        (drop first (b_nodes st))
         in Ok (st\<lparr>b_nodes := take first (b_nodes st) @ eytzingerize layout sorted\<rparr>)))"

fun sub_branches :: "branch \<Rightarrow> branch list" where
  "sub_branches [] = []"
| "sub_branches ((c, Branch b) # rest) = b # sub_branches rest"
| "sub_branches ((c, Leaf d) # rest) = sub_branches rest"

lemma intern_frame:
  "intern c st = Ok (i, st') \<Longrightarrow>
     b_nodes st' = b_nodes st \<and> b_queue st' = b_queue st \<and> b_child_index st' = b_child_index st"
  by (auto simp: intern_def assert_u32_def split: option.splits if_splits)

lemma place_nodes_queue:
  "place_nodes b st = Ok st' \<Longrightarrow> b_queue st' = b_queue st @ sub_branches b"
proof (induction b st arbitrary: st' rule: place_nodes.induct)
  case (2 c branch rest st)
  from "2.prems" obtain i st1 where i: "intern c st = Ok (i, st1)" by auto
  with "2.prems" "2.IH" [OF i refl refl refl] show ?case
    by (auto simp: Let_def intern_frame [OF i] split: if_splits)
next
  case (3 c d rest st)
  from "3.prems" obtain i st1 where i: "intern c st = Ok (i, st1)" by auto
  with "3.prems" "3.IH" [OF i refl] show ?case
    by (auto simp: intern_frame [OF i])
qed simp

definition queue_size :: "branch list \<Rightarrow> nat" where
  "queue_size q = sum_list (map (\<lambda>b. size (Branch b)) q)"

lemma sub_branches_size: "queue_size (sub_branches b) < size (Branch b)"
  by (induction b rule: sub_branches.induct) (auto simp: queue_size_def)

text \<open>The breadth-first loop ends: a popped directory is replaced by its subdirectories.\<close>

function build :: "(nat \<Rightarrow> nat list) \<Rightarrow> build_state \<Rightarrow> build_state rofs_result" where
  "build layout st =
     (case b_queue st of
        [] \<Rightarrow> Ok st
      | branch # rest \<Rightarrow> obind (build_level layout branch (st\<lparr>b_queue := rest\<rparr>)) (build layout))"
  by pat_completeness auto
termination
proof (relation "measure (\<lambda>(layout, st). queue_size (b_queue st))", goal_cases)
  case (2 layout st branch rest st')
  then have "b_queue st' = rest @ sub_branches branch"
    by (auto simp: build_level_def Let_def dest!: place_nodes_queue)
  then show ?case
    using sub_branches_size [of branch] 2(1) by (simp add: queue_size_def)
qed simp

declare build.simps [simp del]

definition into_rofs :: "(nat \<Rightarrow> nat list) \<Rightarrow> 'a rofs_object \<Rightarrow> 'a rofs rofs_result" where
  "into_rofs layout self =
     obind (build layout \<lparr>b_nodes = [], b_names = [], b_interned = [],
                          b_queue = [obj_root self], b_child_index = 1\<rparr>)
       (\<lambda>st. Ok \<lparr>nodes = b_nodes st, rofs_files = obj_files self, names = b_names st\<rparr>)"

section \<open>Looking up\<close>

definition INODE_ROOT :: u64 where "INODE_ROOT = 1"

definition node_name :: "'a rofs \<Rightarrow> node \<Rightarrow> bytes" where
  "node_name fs node = read_name (names fs) (name_index node)"

text \<open>
  The loop of \<open>inode_by_path\<close> over the components; \<open>Err NotFound\<close> stands for \<open>None\<close>. A child
  range outside the node array would panic when it is sliced. The comparison of the search
  is the byte order of \<open>str\<close>.
\<close>

fun walk :: "(bytes list \<Rightarrow> bytes \<Rightarrow> nat option) \<Rightarrow> 'a rofs \<Rightarrow> nat \<Rightarrow> string list \<Rightarrow> nat rofs_result" where
  "walk esearch fs index [] = Ok index"
| "walk esearch fs index (component # cs) =
     (case nth_opt (nodes fs) index of
        None \<Rightarrow> Err NotFound
      | Some node \<Rightarrow>
          (case content node of
             NFile _ \<Rightarrow> Err NotFound
           | NDir start child_count \<Rightarrow>
               (case get_range (nodes fs) start (start + child_count) of
                  None \<Rightarrow> Panic
                | Some children \<Rightarrow>
                    (case esearch (map (node_name fs) children) (as_bytes component) of
                       None \<Rightarrow> Err NotFound
                     | Some k \<Rightarrow> walk esearch fs (k + start) cs))))"

definition inode_by_path ::
  "string \<Rightarrow> (bytes list \<Rightarrow> bytes \<Rightarrow> nat option) \<Rightarrow> 'a rofs \<Rightarrow> nat \<Rightarrow> string \<Rightarrow> nat rofs_result" where
  "inode_by_path S esearch fs parent path =
     (case components S path of
        [] \<Rightarrow> Ok parent
      | cs \<Rightarrow> obind (walk esearch fs parent cs) (\<lambda>index. Ok (index mod 2 ^ 32)))"

definition inode_by_path_ignore_ascii_case ::
  "string \<Rightarrow> (bytes list \<Rightarrow> bytes \<Rightarrow> nat option) \<Rightarrow> 'a rofs \<Rightarrow> nat \<Rightarrow> string \<Rightarrow> nat rofs_result" where
  "inode_by_path_ignore_ascii_case S esearch fs parent path =
     (case inode_by_path S esearch fs parent path of
        Ok inode \<Rightarrow> Ok inode
      | Panic \<Rightarrow> Panic
      | Err _ \<Rightarrow>
          (case cow_to_ascii_lowercase path of (had_uppercase, path') \<Rightarrow>
             if had_uppercase then inode_by_path S esearch fs parent path' else Err NotFound))"

definition lookup_in_dir ::
  "string \<Rightarrow> (bytes list \<Rightarrow> bytes \<Rightarrow> nat option) \<Rightarrow> 'a rofs \<Rightarrow> u64 \<Rightarrow> string \<Rightarrow> u64 rofs_result" where
  "lookup_in_dir S esearch fs parent_inode path =
     (let parent = unat (parent_inode - INODE_ROOT) mod 2 ^ 32;
          path = normalize_path S path
      in case inode_by_path_ignore_ascii_case S esearch fs parent path of
           Ok inode \<Rightarrow> Ok (of_nat inode + INODE_ROOT)
         | Err _ \<Rightarrow> Err NotFound
         | Panic \<Rightarrow> Panic)"

definition lookup ::
  "string \<Rightarrow> (bytes list \<Rightarrow> bytes \<Rightarrow> nat option) \<Rightarrow> 'a rofs \<Rightarrow> string \<Rightarrow> u64 rofs_result" where
  "lookup S esearch fs path = lookup_in_dir S esearch fs INODE_ROOT path"

text \<open>
  Entries. The iterator of a directory is the list of the node indices it will visit, in
  order; \<open>dir_entries\<close> runs it.
\<close>

datatype 'a entry_kind = EDir "nat list" | EFile 'a

record 'a entry =
  inode :: u64
  entry_name :: string
  kind :: "'a entry_kind"

definition node_entry :: "'a rofs \<Rightarrow> nat \<Rightarrow> 'a entry rofs_result" where
  "node_entry fs index =
     (let node = nodes fs ! index;
          inode = of_nat index - INODE_ROOT;
          name = str_of_bytes (node_name fs node)
      in case content node of
           NDir start child_count \<Rightarrow>
             if start + child_count \<le> length (nodes fs)
             then Ok \<lparr>inode = inode, entry_name = name, kind = EDir [start..<start + child_count]\<rparr>
             else Panic
         | NFile data_index \<Rightarrow>
             if data_index < length (rofs_files fs)
             then Ok \<lparr>inode = inode, entry_name = name, kind = EFile (rofs_files fs ! data_index)\<rparr>
             else Panic)"

fun dir_entries :: "'a rofs \<Rightarrow> nat list \<Rightarrow> 'a entry list rofs_result" where
  "dir_entries fs [] = Ok []"
| "dir_entries fs (i # is) =
     obind (node_entry fs i) (\<lambda>e. obind (dir_entries fs is) (\<lambda>es. Ok (e # es)))"

definition rofs_name :: "'a rofs \<Rightarrow> u64 \<Rightarrow> string rofs_result" where
  "rofs_name fs ino =
     (let index = unat (ino - INODE_ROOT)
      in case nth_opt (nodes fs) index of
           None \<Rightarrow> Err NotFound
         | Some node \<Rightarrow> Ok (str_of_bytes (node_name fs node)))"

definition rofs_entry :: "'a rofs \<Rightarrow> u64 \<Rightarrow> 'a entry rofs_result" where
  "rofs_entry fs ino =
     (let index = unat (ino - INODE_ROOT)
      in case nth_opt (nodes fs) index of
           None \<Rightarrow> Err NotFound
         | Some node \<Rightarrow> node_entry fs index)"

definition file_count :: "'a rofs \<Rightarrow> nat" where
  "file_count fs = length (rofs_files fs)"

section \<open>The name table\<close>

text \<open>Index \<open>i\<close> of the table holds the name \<open>c\<close>, all of it in bounds.\<close>

definition name_ref :: "bytes \<Rightarrow> nat \<Rightarrow> string \<Rightarrow> bool" where
  "name_ref ns i c \<longleftrightarrow> length c \<le> 255 \<and> i < length ns \<and> unat (ns ! i) = length c \<and>
     i + 1 + length c \<le> length ns \<and> take (length c) (drop (i + 1) ns) = as_bytes c"

lemma name_ref_append: "name_ref ns i c \<Longrightarrow> name_ref (ns @ ms) i c"
  by (auto simp: name_ref_def nth_append)

lemma name_ref_new:
  "length c \<le> 255 \<Longrightarrow> name_ref (ns @ of_nat (length c) # as_bytes c) (length ns) c"
  by (simp add: name_ref_def nth_append unat_of_nat_u8)

lemma read_name_ref: "name_ref ns i c \<Longrightarrow> read_name ns i = as_bytes c"
  by (simp add: name_ref_def read_name_def split: list.split)
    (metis Cons_nth_drop_Suc drop_eq_Nil list.inject list.distinct(1) not_less)

definition interned_ok :: "build_state \<Rightarrow> bool" where
  "interned_ok st \<longleftrightarrow>
     (\<forall>c i. map_of (b_interned st) c = Some i \<longrightarrow> name_ref (b_names st) i c)"

lemma intern_ok:
  assumes "intern c st = Ok (i, st')" "interned_ok st" "length c \<le> 255"
  shows "name_ref (b_names st') i c \<and> interned_ok st' \<and> (\<exists>ms. b_names st' = b_names st @ ms)"
proof (cases "map_of (b_interned st) c")
  case None
  then have st': "b_names st' = b_names st @ of_nat (length c) # as_bytes c"
    "b_interned st' = AList.update c (length (b_names st)) (b_interned st)" "i = length (b_names st)"
    using assms(1) by (auto simp: intern_def assert_u32_def split: if_splits)
  have new: "name_ref (b_names st') i c" by (simp add: st' name_ref_new assms(3))
  then have "interned_ok st'"
    using assms(2) st' name_ref_append by (auto simp: interned_ok_def)
  with new show ?thesis by (simp add: st')
qed (use assms in \<open>auto simp: intern_def interned_ok_def\<close>)

section \<open>The layout of a tree\<close>

text \<open>
  \<open>laid_out layout N ns s b\<close>: the directory \<open>b\<close> occupies the slice of the node array that
  starts at \<open>s\<close>, and its subdirectories are laid out where its nodes say.
\<close>

inductive laid_out :: "(nat \<Rightarrow> nat list) \<Rightarrow> node list \<Rightarrow> bytes \<Rightarrow> nat \<Rightarrow> branch \<Rightarrow> bool"
  for layout N ns where
  laid_outI:
    "s + length b \<le> length N \<Longrightarrow>
     list_all2 (\<lambda>p n. name_ref ns (name_index n) (fst p)
        \<and> (\<forall>d. snd p = Leaf d \<longrightarrow> content n = NFile d)
        \<and> (\<forall>b'. snd p = Branch b' \<longrightarrow>
             (\<exists>s'. content n = NDir s' (length b') \<and> laid_out layout N ns s' b'))) b es \<Longrightarrow>
     slice s (s + length b) N = eytzingerize layout (sort_key (\<lambda>n. read_name ns (name_index n)) es) \<Longrightarrow>
     laid_out layout N ns s b"

fun all_laid :: "(nat \<Rightarrow> nat list) \<Rightarrow> node list \<Rightarrow> bytes \<Rightarrow> nat \<Rightarrow> branch list \<Rightarrow> bool" where
  "all_laid layout N ns s [] \<longleftrightarrow> True"
| "all_laid layout N ns s (b # bs) \<longleftrightarrow>
     laid_out layout N ns s b \<and> all_laid layout N ns (s + length b) bs"

lemma all_laid_append:
  "all_laid layout N ns s (xs @ ys) \<longleftrightarrow>
     all_laid layout N ns s xs \<and> all_laid layout N ns (s + sum_list (map length xs)) ys"
  by (induction xs arbitrary: s) (auto simp: add.assoc)

text \<open>The nodes written for the entries of one directory, before sorting; \<open>ci\<close> is the
  position of its first subdirectory.\<close>

fun placed :: "bytes \<Rightarrow> nat \<Rightarrow> branch \<Rightarrow> node list \<Rightarrow> bool" where
  "placed ns ci [] es \<longleftrightarrow> es = []"
| "placed ns ci ((c, t) # rest) [] \<longleftrightarrow> False"
| "placed ns ci ((c, Branch b) # rest) (e # es) \<longleftrightarrow>
     name_ref ns (name_index e) c \<and> content e = NDir ci (length b) \<and> placed ns (ci + length b) rest es"
| "placed ns ci ((c, Leaf d) # rest) (e # es) \<longleftrightarrow>
     name_ref ns (name_index e) c \<and> content e = NFile d \<and> placed ns ci rest es"

lemma placed_mono: "placed ns ci b es \<Longrightarrow> placed (ns @ ms) ci b es"
  by (induction ns ci b es rule: placed.induct) (auto intro: name_ref_append)

lemma placed_length: "placed ns ci b es \<Longrightarrow> length es = length b"
  by (induction ns ci b es rule: placed.induct) auto

lemma placed_name_ref: "placed ns ci b es \<Longrightarrow> e \<in> set es \<Longrightarrow> \<exists>c. name_ref ns (name_index e) c"
  by (induction ns ci b es rule: placed.induct) auto

lemma placed_laid:
  "placed ns ci b es \<Longrightarrow> all_laid layout N ns ci (sub_branches b) \<Longrightarrow>
     list_all2 (\<lambda>p n. name_ref ns (name_index n) (fst p)
        \<and> (\<forall>d. snd p = Leaf d \<longrightarrow> content n = NFile d)
        \<and> (\<forall>b'. snd p = Branch b' \<longrightarrow>
             (\<exists>s'. content n = NDir s' (length b') \<and> laid_out layout N ns s' b'))) b es"
  by (induction ns ci b es rule: placed.induct) auto

text \<open>What holds of the names and sizes of a directory that is frozen.\<close>

definition small_entry :: "string \<times> tree_node \<Rightarrow> bool" where
  "small_entry p \<longleftrightarrow> length (fst p) \<le> 255 \<and> (\<forall>b. snd p = Branch b \<longrightarrow> length b \<le> U32_MAX)"

lemma place_nodes_placed:
  assumes "place_nodes b st = Ok st'" "interned_ok st" "\<forall>p \<in> set b. small_entry p"
  shows "\<exists>es ms. b_nodes st' = b_nodes st @ es \<and> b_names st' = b_names st @ ms \<and> interned_ok st'
    \<and> placed (b_names st') (b_child_index st) b es
    \<and> b_child_index st' = b_child_index st + sum_list (map length (sub_branches b))"
  using assms
proof (induction b st arbitrary: st' rule: place_nodes.induct)
  case (2 c branch rest st)
  obtain i st1 where i: "intern c st = Ok (i, st1)" using "2.prems"(1) by auto
  have c: "length c \<le> 255" and len: "length branch mod 2 ^ 32 = length branch"
    using "2.prems"(3) by (auto simp: small_entry_def)
  note ok = intern_ok [OF i "2.prems"(2) c] and frame = intern_frame [OF i]
  let ?n = "node_dir (b_child_index st1) (length branch) i"
  let ?st2 = "st1\<lparr>b_nodes := b_nodes st1 @ [?n], b_child_index := b_child_index st1 + length branch,
     b_queue := b_queue st1 @ [branch]\<rparr>"
  have run: "place_nodes rest ?st2 = Ok st'"
    and guard: "b_child_index st1 + length branch \<le> U32_MAX"
    using "2.prems"(1) i len by (auto simp: Let_def split: if_splits)
  have "interned_ok ?st2" using ok by (simp add: interned_ok_def)
  then obtain es ms where es: "b_nodes st' = (b_nodes st1 @ [?n]) @ es"
    "b_names st' = b_names st1 @ ms" "interned_ok st'"
    "placed (b_names st') (b_child_index st1 + length branch) rest es"
    "b_child_index st' = b_child_index st1 + length branch + sum_list (map length (sub_branches rest))"
    using "2.IH" [OF i refl refl refl] run guard len "2.prems"(3) by fastforce
  moreover have "name_ref (b_names st') i c"
    using ok es(2) name_ref_append by metis
  ultimately show ?case
    using ok frame by (intro exI [of _ "?n # es"]) (auto simp: node_dir_def)
next
  case (3 c d rest st)
  obtain i st1 where i: "intern c st = Ok (i, st1)" using "3.prems"(1) by auto
  have c: "length c \<le> 255" using "3.prems"(3) by (auto simp: small_entry_def)
  note ok = intern_ok [OF i "3.prems"(2) c] and frame = intern_frame [OF i]
  let ?n = "node_file d i"
  let ?st2 = "st1\<lparr>b_nodes := b_nodes st1 @ [?n]\<rparr>"
  have run: "place_nodes rest ?st2 = Ok st'" using "3.prems"(1) i by simp
  have "interned_ok ?st2" using ok by (simp add: interned_ok_def)
  then obtain es ms where es: "b_nodes st' = (b_nodes st1 @ [?n]) @ es"
    "b_names st' = b_names st1 @ ms" "interned_ok st'"
    "placed (b_names st') (b_child_index st1) rest es"
    "b_child_index st' = b_child_index st1 + sum_list (map length (sub_branches rest))"
    using "3.IH" [OF i refl run] "3.prems"(3) by fastforce
  moreover have "name_ref (b_names st') i c"
    using ok es(2) name_ref_append by metis
  ultimately show ?case
    using ok frame by (intro exI [of _ "?n # es"]) (auto simp: node_file_def)
qed auto

fun small_tree :: "tree_node \<Rightarrow> bool" where
  "small_tree (Branch b) \<longleftrightarrow>
     length b \<le> U32_MAX \<and> (\<forall>x \<in> set b. length (fst x) \<le> 255 \<and> small_tree (snd x))"
| "small_tree (Leaf d) \<longleftrightarrow> True"

lemma small_tree_sub: "small_tree (Branch b) \<Longrightarrow> b' \<in> set (sub_branches b) \<Longrightarrow> small_tree (Branch b')"
proof -
  assume "small_tree (Branch b)" "b' \<in> set (sub_branches b)"
  moreover have "b' \<in> set (sub_branches b) \<Longrightarrow> \<exists>c. (c, Branch b') \<in> set b"
    by (induction b rule: sub_branches.induct) auto
  ultimately show ?thesis by fastforce
qed

lemma small_tree_entries: "small_tree (Branch b) \<Longrightarrow> \<forall>p \<in> set b. small_entry p"
  by (fastforce simp: small_entry_def)

lemma length_eytzingerize: "length (layout (length xs)) = length xs \<Longrightarrow> length (eytzingerize layout xs) = length xs"
  by (simp add: eytzingerize_def)

lemma slice_middle: "slice (length xs) (length xs + length ys) (xs @ ys @ zs) = ys"
  by (simp add: slice_def)

lemma insort_key_same_keys:
  "f x = g x \<Longrightarrow> \<forall>y \<in> set xs. f y = g y \<Longrightarrow> insort_key f x xs = insort_key g x xs"
  by (induction xs) auto

lemma sort_key_same_keys:
  "(\<And>e. e \<in> set es \<Longrightarrow> f e = g e) \<Longrightarrow> sort_key f es = sort_key g es"
  by (induction es) (auto intro!: insort_key_same_keys)

text \<open>Freezing lays out every queued directory, in the order of the queue.\<close>

lemma build_laid:
  assumes "build layout st = Ok st'" "\<forall>n. length (layout n) = n" "interned_ok st"
    "\<forall>b \<in> set (b_queue st). small_tree (Branch b)"
    "b_child_index st = length (b_nodes st) + sum_list (map length (b_queue st))"
  shows "\<exists>N2 ms. b_nodes st' = b_nodes st @ N2 \<and> b_names st' = b_names st @ ms \<and>
    all_laid layout (b_nodes st') (b_names st') (length (b_nodes st)) (b_queue st)"
  using assms
proof (induction layout st arbitrary: st' rule: build.induct)
  case (1 layout st)
  show ?case
  proof (cases "b_queue st")
    case Nil
    then show ?thesis using "1.prems"(1) by (subst (asm) build.simps) auto
  next
    case (Cons b rest)
    let ?st0 = "st\<lparr>b_queue := rest\<rparr>"
    obtain st1 where level: "build_level layout b ?st0 = Ok st1" and run: "build layout st1 = Ok st'"
      using "1.prems"(1) Cons by (subst (asm) build.simps) auto
    obtain st2 where place: "place_nodes b ?st0 = Ok st2" and
      st1: "st1 = st2\<lparr>b_nodes := take (length (b_nodes st)) (b_nodes st2) @ eytzingerize layout
        (sort_key (\<lambda>n. read_name (b_names st2) (name_index n)) (drop (length (b_nodes st)) (b_nodes st2)))\<rparr>"
      using level by (auto simp: build_level_def Let_def)
    have small: "small_tree (Branch b)" using "1.prems"(4) Cons by simp
    obtain es ms where es: "b_nodes st2 = b_nodes st @ es" "b_names st2 = b_names st @ ms"
      "interned_ok st2" "placed (b_names st2) (b_child_index st) b es"
      "b_child_index st2 = b_child_index st + sum_list (map length (sub_branches b))"
      using place_nodes_placed [OF place] small_tree_entries [OF small] "1.prems"(3)
      by (auto simp: interned_ok_def)
    let ?sorted = "sort_key (\<lambda>n. read_name (b_names st2) (name_index n)) es"
    let ?lvl = "eytzingerize layout ?sorted"
    have len: "length es = length b" using placed_length [OF es(4)] .
    then have lvl: "length ?lvl = length b"
      using "1.prems"(2) by (simp add: length_eytzingerize)
    have n1: "b_nodes st1 = b_nodes st @ ?lvl" and m1: "b_names st1 = b_names st2"
      and q1: "b_queue st1 = rest @ sub_branches b" and c1: "b_child_index st1 = b_child_index st2"
      using place_nodes_queue [OF place] by (simp_all add: st1 es(1))
    have "\<exists>N2 ms. b_nodes st' = b_nodes st1 @ N2 \<and> b_names st' = b_names st1 @ ms \<and>
        all_laid layout (b_nodes st') (b_names st') (length (b_nodes st1)) (b_queue st1)"
    proof (rule "1.IH" [OF Cons level run "1.prems"(2)])
      show "interned_ok st1" using es(3) by (simp add: interned_ok_def st1)
      show "\<forall>b \<in> set (b_queue st1). small_tree (Branch b)"
        using "1.prems"(4) Cons small_tree_sub [OF small]
        by (auto simp: q1 simp del: small_tree.simps)
      show "b_child_index st1 = length (b_nodes st1) + sum_list (map length (b_queue st1))"
        using "1.prems"(5) Cons by (simp add: c1 es(5) n1 q1 lvl)
    qed
    then obtain N2 ms2 where N2: "b_nodes st' = b_nodes st1 @ N2" "b_names st' = b_names st1 @ ms2"
      and laid: "all_laid layout (b_nodes st') (b_names st') (length (b_nodes st1)) (rest @ sub_branches b)"
      by (auto simp: q1)
    have pos: "length (b_nodes st1) = length (b_nodes st) + length b" by (simp add: n1 lvl)
    have ci: "b_child_index st = length (b_nodes st1) + sum_list (map length rest)"
      using "1.prems"(5) Cons by (simp add: pos)
    have rest: "all_laid layout (b_nodes st') (b_names st') (length (b_nodes st) + length b) rest"
      and subs: "all_laid layout (b_nodes st') (b_names st') (b_child_index st) (sub_branches b)"
      using laid by (simp_all only: all_laid_append ci pos)
    have names: "b_names st' = b_names st2 @ ms2" using N2(2) m1 by simp
    have placed: "placed (b_names st') (b_child_index st) b es"
      using placed_mono [OF es(4)] by (simp add: names)
    have sorted: "sort_key (\<lambda>n. read_name (b_names st') (name_index n)) es = ?sorted"
    proof (rule sort_key_same_keys)
      fix e assume "e \<in> set es"
      with placed_name_ref [OF es(4)] have "\<exists>c. name_ref (b_names st2) (name_index e) c" .
      then show "read_name (b_names st') (name_index e) = read_name (b_names st2) (name_index e)"
        using read_name_ref name_ref_append names by metis
    qed
    have "laid_out layout (b_nodes st') (b_names st') (length (b_nodes st)) b"
    proof (rule laid_outI)
      show "length (b_nodes st) + length b \<le> length (b_nodes st')"
        by (simp add: N2(1) n1 lvl)
      show "slice (length (b_nodes st)) (length (b_nodes st) + length b) (b_nodes st') =
        eytzingerize layout (sort_key (\<lambda>n. read_name (b_names st') (name_index n)) es)"
        using slice_middle [of "b_nodes st" ?lvl N2] by (simp add: N2(1) n1 sorted lvl)
    qed (rule placed_laid [OF placed subs])
    then show ?thesis
      using rest Cons N2 n1 m1 es(2) by auto
  qed
qed

section \<open>The Eytzinger contract\<close>

text \<open>
  What the crate documents: \<open>eytzingerize\<close> permutes the positions of a slice, and the
  search on the permuted form of a strictly sorted slice finds the position of a key
  exactly when the key occurs.
\<close>

definition eytzinger_ok :: "(nat \<Rightarrow> nat list) \<Rightarrow> (bytes list \<Rightarrow> bytes \<Rightarrow> nat option) \<Rightarrow> bool" where
  "eytzinger_ok layout esearch \<longleftrightarrow>
     (\<forall>n. mset (layout n) = mset [0..<n]) \<and>
     (\<forall>ks k. sorted ks \<longrightarrow> distinct ks \<longrightarrow>
        (case esearch (eytzingerize layout ks) k of
           Some i \<Rightarrow> i < length ks \<and> eytzingerize layout ks ! i = k
         | None \<Rightarrow> k \<notin> set ks))"

lemma eytzinger_ok_length: "eytzinger_ok layout esearch \<Longrightarrow> length (layout n) = n"
  by (metis diff_zero eytzinger_ok_def length_upt mset_eq_length)

lemma eytzinger_ok_positions:
  assumes "eytzinger_ok layout esearch"
  shows "set (layout n) = {0..<n}"
proof -
  have "mset (layout n) = mset [0..<n]" using assms by (simp only: eytzinger_ok_def)
  then have "set (layout n) = set [0..<n]" by (rule mset_eq_setD)
  then show ?thesis by simp
qed

lemma eytzinger_ok_set:
  assumes "eytzinger_ok layout esearch"
  shows "set (eytzingerize layout xs) = set xs"
proof -
  have "set (eytzingerize layout xs) = (!) xs ` {0..<length xs}"
    by (simp add: eytzingerize_def eytzinger_ok_positions [OF assms])
  also have "\<dots> = set xs" by (auto simp: set_conv_nth)
  finally show ?thesis .
qed

lemma map_eytzingerize:
  "eytzinger_ok layout esearch \<Longrightarrow>
     map f (eytzingerize layout xs) = eytzingerize layout (map f xs)"
  by (auto simp: eytzingerize_def eytzinger_ok_positions)

lemma eytzinger_search:
  assumes "eytzinger_ok layout esearch" "sorted (map f xs)" "distinct (map f xs)"
  shows "case esearch (map f (eytzingerize layout xs)) k of
      Some i \<Rightarrow> i < length xs \<and> eytzingerize layout xs ! i \<in> set xs \<and> f (eytzingerize layout xs ! i) = k
    | None \<Rightarrow> k \<notin> f ` set xs"
proof -
  have len: "length (eytzingerize layout xs) = length xs" by (simp add: length_eytzingerize eytzinger_ok_length [OF assms(1)])
  note m = map_eytzingerize [OF assms(1), of f xs]
  have "case esearch (eytzingerize layout (map f xs)) k of
      Some i \<Rightarrow> i < length (map f xs) \<and> eytzingerize layout (map f xs) ! i = k
    | None \<Rightarrow> k \<notin> set (map f xs)"
    using assms unfolding eytzinger_ok_def by blast
  then have "case esearch (map f (eytzingerize layout xs)) k of
      Some i \<Rightarrow> i < length xs \<and> map f (eytzingerize layout xs) ! i = k
    | None \<Rightarrow> k \<notin> f ` set xs"
    by (simp only: m length_map set_map)
  moreover have "eytzingerize layout xs ! i \<in> set xs \<and>
      map f (eytzingerize layout xs) ! i = f (eytzingerize layout xs ! i)" if "i < length xs" for i
    using that nth_mem [of i "eytzingerize layout xs"] len
    by (simp add: eytzinger_ok_set [OF assms(1)])
  ultimately show ?thesis
    by (cases "esearch (map f (eytzingerize layout xs)) k") (simp_all, metis)
qed

section \<open>Lookups follow the tree\<close>

text \<open>The node at an index stands for a tree.\<close>

definition node_matches ::
  "(nat \<Rightarrow> nat list) \<Rightarrow> node list \<Rightarrow> bytes \<Rightarrow> nat \<Rightarrow> tree_node \<Rightarrow> bool" where
  "node_matches layout N ns i t \<longleftrightarrow> i < length N \<and>
     (\<forall>d. t = Leaf d \<longrightarrow> content (N ! i) = NFile d) \<and>
     (\<forall>b. t = Branch b \<longrightarrow> (\<exists>s. content (N ! i) = NDir s (length b) \<and> laid_out layout N ns s b))"

text \<open>The search in the slice of a directory finds exactly the node of a name.\<close>

lemma nth_slice:
  "s + n \<le> length N \<Longrightarrow> k < n \<Longrightarrow> slice s (s + n) N ! k = N ! (s + k)"
  by (simp add: slice_def)

lemma laid_out_search:
  assumes laid: "laid_out layout N ns s b" and ok: "eytzinger_ok layout esearch"
    and dist: "distinct (map fst b)"
  shows "s + length b \<le> length N \<and>
    (case map_of b c of
       None \<Rightarrow> esearch (map (\<lambda>n. read_name ns (name_index n)) (slice s (s + length b) N)) (as_bytes c) = None
     | Some t \<Rightarrow> \<exists>k. esearch (map (\<lambda>n. read_name ns (name_index n)) (slice s (s + length b) N)) (as_bytes c) = Some k
         \<and> k < length b \<and> node_matches layout N ns (k + s) t \<and> name_ref ns (name_index (N ! (k + s))) c)"
  using laid
proof cases
  case (laid_outI es)
  let ?f = "\<lambda>n. read_name ns (name_index n)"
  let ?sorted = "sort_key ?f es"
  have len: "length es = length b" using laid_outI(2) by (simp add: list_all2_lengthD)
  have keys: "map ?f es = map (as_bytes \<circ> fst) b"
    using laid_outI(2) len
    by (intro nth_equalityI) (auto simp: list_all2_conv_all_nth read_name_ref)
  then have "distinct (map ?f es)"
    using dist by (simp add: distinct_map comp_inj_on inj_on_def)
  moreover have "mset (map ?f ?sorted) = mset (map ?f es)" by simp
  ultimately have "distinct (map ?f ?sorted)" by (metis mset_eq_imp_distinct_iff)
  note dist' = this
  let ?srch = "esearch (map ?f (eytzingerize layout ?sorted))"
  have srch_None: "?srch k = None \<Longrightarrow> k \<notin> ?f ` set es" for k
    using eytzinger_search [OF ok, of ?f ?sorted k] dist' by simp
  have srch_Some: "?srch k = Some i \<Longrightarrow> i < length b \<and> eytzingerize layout ?sorted ! i \<in> set es \<and>
      ?f (eytzingerize layout ?sorted ! i) = k" for k i
    using eytzinger_search [OF ok, of ?f ?sorted k] dist' by (simp add: len)
  have sl: "N ! (k + s) = eytzingerize layout ?sorted ! k" if "k < length b" for k
    using nth_slice [of s "length b" N k] laid_outI(1,3) that by (simp add: add.commute)
  have node: "\<exists>p. p \<in> set b \<and> name_ref ns (name_index e) (fst p) \<and>
      (\<forall>d. snd p = Leaf d \<longrightarrow> content e = NFile d) \<and>
      (\<forall>b'. snd p = Branch b' \<longrightarrow> (\<exists>s'. content e = NDir s' (length b') \<and> laid_out layout N ns s' b'))"
    if "e \<in> set es" for e
  proof -
    obtain k where k: "k < length es" "es ! k = e" using \<open>e \<in> set es\<close> by (auto simp: in_set_conv_nth)
    then show ?thesis
      using list_all2_nthD2 [OF laid_outI(2) k(1)] len by (intro exI [of _ "b ! k"]) simp
  qed
  have names: "?f ` set es = as_bytes ` fst ` set b"
    using keys by (metis image_comp list.set_map)
  show ?thesis
  proof (cases "map_of b c")
    case None
    then have "as_bytes c \<notin> ?f ` set es"
      unfolding names using as_bytes_inj by (force simp: map_of_eq_None_iff)
    moreover have "as_bytes c \<in> ?f ` set es" if "?srch (as_bytes c) = Some i" for i
      using srch_Some [OF that] by (intro image_eqI [of _ ?f]) (auto simp only:)
    ultimately have "?srch (as_bytes c) = None" by (meson option.exhaust)
    then show ?thesis using None laid_outI(1,3) by simp
  next
    case (Some t)
    then have "as_bytes c \<in> ?f ` set es"
      unfolding names by (force dest: map_of_SomeD)
    then obtain k where k1: "?srch (as_bytes c) = Some k"
      using srch_None [of "as_bytes c"] by (meson option.exhaust)
    from srch_Some [OF this] have k: "?srch (as_bytes c) = Some k" "k < length b"
      "eytzingerize layout ?sorted ! k \<in> set es" "?f (eytzingerize layout ?sorted ! k) = as_bytes c"
      by (simp_all only: k1)
    obtain p where p: "p \<in> set b" "name_ref ns (name_index (eytzingerize layout ?sorted ! k)) (fst p)"
      "\<forall>d. snd p = Leaf d \<longrightarrow> content (eytzingerize layout ?sorted ! k) = NFile d"
      "\<forall>b'. snd p = Branch b' \<longrightarrow> (\<exists>s'. content (eytzingerize layout ?sorted ! k) = NDir s' (length b')
        \<and> laid_out layout N ns s' b')"
      using node [OF k(3)] by blast
    have "as_bytes (fst p) = as_bytes c" using read_name_ref [OF p(2)] k(4) by simp
    then have "map_of b c = Some (snd p)" using dist p(1) by (metis as_bytes_inj map_of_eq_Some_iff prod.collapse)
    then have t: "t = snd p" and c: "fst p = c"
      using Some \<open>as_bytes (fst p) = as_bytes c\<close> by simp_all
    have "node_matches layout N ns (k + s) t"
      using p k(2) laid_outI(1) by (auto simp: node_matches_def sl t)
    then show ?thesis using Some k p(2) laid_outI(1,3) c by (auto simp: sl)
  qed
qed

text \<open>A walk through the frozen nodes ends where the walk through the tree does.\<close>

lemma walk_find:
  assumes "eytzinger_ok layout esearch" "branch_inv Q R b"
    and "node_matches layout (nodes fs) (names fs) i (Branch b)"
  shows "case find_node b cs of
      None \<Rightarrow> walk esearch fs i cs = Err NotFound
    | Some t \<Rightarrow> \<exists>j. walk esearch fs i cs = Ok j \<and> node_matches layout (nodes fs) (names fs) j t \<and>
        (cs \<noteq> [] \<longrightarrow> name_ref (names fs) (name_index (nodes fs ! j)) (last cs))"
  using assms(2,3)
proof (induction cs arbitrary: b i)
  case (Cons c cs)
  obtain s where i: "i < length (nodes fs)" "content (nodes fs ! i) = NDir s (length b)"
    and laid: "laid_out layout (nodes fs) (names fs) s b"
    using Cons.prems(2) by (auto simp: node_matches_def)
  have "distinct (map fst b)" using Cons.prems(1) by (simp add: branch_inv_def)
  note found = laid_out_search [OF laid assms(1) this, of c]
  then have range: "get_range (nodes fs) s (s + length b) = Some (slice s (s + length b) (nodes fs))"
    by (simp add: get_range_def slice_def)
  have name: "node_name fs = (\<lambda>n. read_name (names fs) (name_index n))"
    by (simp add: node_name_def fun_eq_iff)
  show ?case
  proof (cases "map_of b c")
    case None
    then show ?thesis using found i range by (simp add: nth_opt_def name)
  next
    case (Some t)
    then obtain k where k: "esearch (map (node_name fs) (slice s (s + length b) (nodes fs))) (as_bytes c) = Some k"
      "node_matches layout (nodes fs) (names fs) (k + s) t"
      "name_ref (names fs) (name_index (nodes fs ! (k + s))) c"
      using found by (auto simp: name)
    have step: "walk esearch fs i (c # cs) = walk esearch fs (k + s) cs"
      using i range k(1) by (simp add: nth_opt_def)
    show ?thesis
    proof (cases t)
      case (Branch b')
      then have "branch_inv Q R b'"
        using branch_inv_map_of [OF Cons.prems(1) Some] by simp
      note IH = Cons.IH [OF this k(2) [unfolded Branch]]
      have find: "find_node b (c # cs) = find_node b' cs" using Some Branch by simp
      show ?thesis
      proof (cases cs)
        case Nil
        then show ?thesis unfolding find step using k(2,3) Branch by simp
      next
        case (Cons c' cs')
        then have l: "last (c # cs) = last cs" "cs \<noteq> []" by simp_all
        then show ?thesis unfolding find step l(1) using IH
          by (cases "find_node b' cs") simp_all
      qed
    next
      case (Leaf d)
      have find: "find_node b (c # cs) = (if cs = [] then Some (Leaf d) else None)"
        using Some Leaf by simp
      show ?thesis unfolding find step
        using k(2,3) Leaf by (cases cs) (auto simp: nth_opt_def node_matches_def)
    qed
  qed
qed simp

section \<open>Every index in bounds\<close>

text \<open>
  What the unchecked reads rely on: every node has its name inside the table, its children
  (at a nonzero index) inside the node array and its file inside the file array.
\<close>

definition node_wf :: "bytes \<Rightarrow> nat \<Rightarrow> nat \<Rightarrow> node \<Rightarrow> bool" where
  "node_wf ns bound files n \<longleftrightarrow> (\<exists>c. name_ref ns (name_index n) c) \<and>
     (case content n of NDir s k \<Rightarrow> 0 < s \<and> s + k \<le> bound | NFile d \<Rightarrow> d < files)"

definition rofs_wf :: "'a rofs \<Rightarrow> bool" where
  "rofs_wf fs \<longleftrightarrow> length (nodes fs) \<le> U32_MAX \<and>
     (\<forall>n \<in> set (nodes fs). node_wf (names fs) (length (nodes fs)) (length (rofs_files fs)) n)"

fun leaves_ok :: "nat \<Rightarrow> tree_node \<Rightarrow> bool" where
  "leaves_ok n (Branch b) \<longleftrightarrow> (\<forall>x \<in> set b. leaves_ok n (snd x))"
| "leaves_ok n (Leaf d) \<longleftrightarrow> d < n"

lemma tree_inv_leaves: "tree_inv Q (\<lambda>d. d < n) t \<Longrightarrow> leaves_ok n t"
  by (induction n t rule: leaves_ok.induct) (auto simp: branch_inv_def)

definition build_wf :: "nat \<Rightarrow> build_state \<Rightarrow> bool" where
  "build_wf files st \<longleftrightarrow> interned_ok st \<and> 0 < b_child_index st \<and> b_child_index st \<le> U32_MAX \<and>
     b_child_index st = length (b_nodes st) + sum_list (map length (b_queue st)) \<and>
     (\<forall>n \<in> set (b_nodes st). node_wf (b_names st) (b_child_index st) files n) \<and>
     (\<forall>b \<in> set (b_queue st). small_tree (Branch b) \<and> leaves_ok files (Branch b))"

lemma node_wf_mono:
  "node_wf ns bound files n \<Longrightarrow> bound \<le> bound' \<Longrightarrow> node_wf (ns @ ms) bound' files n"
  by (auto simp: node_wf_def intro: name_ref_append split: node_content.splits)

lemma placed_wf:
  "placed ns ci b es \<Longrightarrow> 0 < ci \<Longrightarrow> leaves_ok files (Branch b) \<Longrightarrow> e \<in> set es \<Longrightarrow>
     node_wf ns (ci + sum_list (map length (sub_branches b))) files e"
  by (induction ns ci b es rule: placed.induct) (auto simp: node_wf_def add.assoc)

lemma sub_branches_leaves:
  assumes "leaves_ok files (Branch b)" "b' \<in> set (sub_branches b)"
  shows "leaves_ok files (Branch b')"
  using assms by (induction b rule: sub_branches.induct) auto

lemma place_nodes_child_index:
  "place_nodes b st = Ok st' \<Longrightarrow> b_child_index st \<le> U32_MAX \<Longrightarrow> b_child_index st' \<le> U32_MAX"
proof (induction b st arbitrary: st' rule: place_nodes.induct)
  case (2 c branch rest st)
  from "2.prems"(1) obtain i st1 where i: "intern c st = Ok (i, st1)" by auto
  with "2.prems" "2.IH" [OF i refl refl refl] show ?case
    by (auto simp: Let_def split: if_splits)
next
  case (3 c d rest st)
  from "3.prems"(1) obtain i st1 where i: "intern c st = Ok (i, st1)" by auto
  with "3.prems" "3.IH" [OF i refl] show ?case
    by (auto simp: intern_frame [OF i])
qed simp

lemma build_level_wf:
  assumes level: "build_level layout b (st\<lparr>b_queue := rest\<rparr>) = Ok st'" and q: "b_queue st = b # rest"
    and wf: "build_wf files st" and ok: "eytzinger_ok layout esearch"
  shows "build_wf files st'"
proof -
  let ?st0 = "st\<lparr>b_queue := rest\<rparr>"
  obtain st2 where place: "place_nodes b ?st0 = Ok st2" and
    st': "st' = st2\<lparr>b_nodes := take (length (b_nodes st)) (b_nodes st2) @ eytzingerize layout
      (sort_key (\<lambda>n. read_name (b_names st2) (name_index n)) (drop (length (b_nodes st)) (b_nodes st2)))\<rparr>"
    using level by (auto simp: build_level_def Let_def)
  have small: "small_tree (Branch b)" and inv: "leaves_ok files (Branch b)"
    using wf q by (simp_all add: build_wf_def del: small_tree.simps leaves_ok.simps)
  obtain es ms where es: "b_nodes st2 = b_nodes st @ es" "b_names st2 = b_names st @ ms"
    "interned_ok st2" "placed (b_names st2) (b_child_index st) b es"
    "b_child_index st2 = b_child_index st + sum_list (map length (sub_branches b))"
    using place_nodes_placed [OF place] small_tree_entries [OF small] wf
    by (auto simp: interned_ok_def build_wf_def)
  have queue: "b_queue st2 = rest @ sub_branches b" using place_nodes_queue [OF place] by simp
  have set': "set (b_nodes st') = set (b_nodes st) \<union> set es"
    by (simp add: st' es(1) eytzinger_ok_set [OF ok])
  have len': "length (b_nodes st') = length (b_nodes st) + length b"
    by (simp add: st' es(1) length_eytzingerize eytzinger_ok_length [OF ok] placed_length [OF es(4)])
  have "node_wf (b_names st2) (b_child_index st2) files n" if "n \<in> set (b_nodes st')" for n
    using that wf placed_wf [OF es(4) _ inv] unfolding set'
    by (auto simp: es(2,5) build_wf_def intro: node_wf_mono)
  moreover have "b_child_index st2 \<le> U32_MAX"
    using place_nodes_child_index [OF place] wf by (simp add: build_wf_def)
  moreover have "\<forall>b' \<in> set (b_queue st2). small_tree (Branch b') \<and> leaves_ok files (Branch b')"
    using wf q small_tree_sub [OF small] sub_branches_leaves [OF inv]
    by (auto simp: queue build_wf_def simp del: small_tree.simps leaves_ok.simps)
  moreover have "0 < b_child_index st2" using wf unfolding es(5) build_wf_def by linarith
  moreover have "b_child_index st2 = length (b_nodes st') + sum_list (map length (b_queue st2))"
    using wf q by (simp add: es(5) queue len' build_wf_def)
  moreover have "b_child_index st' = b_child_index st2" "b_queue st' = b_queue st2"
    "b_names st' = b_names st2" "interned_ok st'"
    using es(3) by (simp_all add: st' interned_ok_def)
  ultimately show ?thesis unfolding build_wf_def by (simp del: small_tree.simps leaves_ok.simps)
qed

lemma build_keeps_wf:
  "build layout st = Ok st' \<Longrightarrow> build_wf files st \<Longrightarrow> eytzinger_ok layout esearch \<Longrightarrow>
     build_wf files st' \<and> b_queue st' = []"
proof (induction layout st arbitrary: st' rule: build.induct)
  case (1 layout st)
  show ?case
  proof (cases "b_queue st")
    case Nil
    then show ?thesis using "1.prems" by (subst (asm) build.simps) auto
  next
    case (Cons b rest)
    then obtain st1 where level: "build_level layout b (st\<lparr>b_queue := rest\<rparr>) = Ok st1"
      and run: "build layout st1 = Ok st'"
      using "1.prems"(1) by (subst (asm) build.simps) auto
    show ?thesis
      using "1.IH" [OF Cons level run build_level_wf [OF level Cons "1.prems"(2,3)] "1.prems"(3)] .
  qed
qed

lemma into_rofs_build:
  assumes "into_rofs layout obj = Ok fs"
  obtains st where
    "build layout \<lparr>b_nodes = [], b_names = [], b_interned = [], b_queue = [obj_root obj], b_child_index = 1\<rparr> = Ok st"
    "fs = \<lparr>nodes = b_nodes st, rofs_files = obj_files obj, names = b_names st\<rparr>"
  using assms by (auto simp: into_rofs_def)

lemma object_inv_root:
  "object_inv S obj \<Longrightarrow> obj_root obj \<noteq> [] \<Longrightarrow>
     \<exists>b. obj_root obj = [([], Branch b)] \<and> branch_inv (name_ok S) (\<lambda>d. d < length (obj_files obj)) b"
  by (auto simp: object_inv_def)

lemma into_rofs_wf:
  assumes "into_rofs layout obj = Ok fs" "eytzinger_ok layout esearch" "object_inv S obj"
    and "obj_root obj \<noteq> []" "small_tree (Branch (obj_root obj))"
  shows "rofs_wf fs"
proof -
  from object_inv_root [OF assms(3,4)] obtain b where root: "obj_root obj = [([], Branch b)]"
    and inv: "branch_inv (name_ok S) (\<lambda>d. d < length (obj_files obj)) b" by auto
  have "leaves_ok (length (obj_files obj)) (Branch (obj_root obj))"
    using inv tree_inv_leaves by (fastforce simp: root branch_inv_def)
  then have wf: "build_wf (length (obj_files obj))
      \<lparr>b_nodes = [], b_names = [], b_interned = [], b_queue = [obj_root obj], b_child_index = 1\<rparr>"
    using assms(5) by (simp add: build_wf_def interned_ok_def root)
  obtain st where st: "build layout
      \<lparr>b_nodes = [], b_names = [], b_interned = [], b_queue = [obj_root obj], b_child_index = 1\<rparr> = Ok st"
    and fs: "fs = \<lparr>nodes = b_nodes st, rofs_files = obj_files obj, names = b_names st\<rparr>"
    using assms(1) by (rule into_rofs_build)
  show ?thesis
    using build_keeps_wf [OF st wf assms(2)] by (auto simp: rofs_wf_def build_wf_def fs)
qed

lemma eytzingerize_single:
  assumes "eytzinger_ok layout esearch"
  shows "eytzingerize layout [x] = [x]"
proof -
  have "length (eytzingerize layout [x]) = 1" "set (eytzingerize layout [x]) = {x}"
    using eytzinger_ok_length [OF assms] eytzinger_ok_set [OF assms, of "[x]"]
    by (simp_all add: length_eytzingerize)
  then show ?thesis by (cases "eytzingerize layout [x]") auto
qed

lemma into_rofs_root:
  assumes "into_rofs layout obj = Ok fs" "eytzinger_ok layout esearch"
    and "obj_root obj = [([], Branch b)]" "small_tree (Branch (obj_root obj))"
  shows "node_matches layout (nodes fs) (names fs) 0 (Branch b) \<and>
    name_ref (names fs) (name_index (nodes fs ! 0)) [] \<and> rofs_files fs = obj_files obj"
proof -
  obtain st where st: "build layout
      \<lparr>b_nodes = [], b_names = [], b_interned = [], b_queue = [obj_root obj], b_child_index = 1\<rparr> = Ok st"
    and fs: "fs = \<lparr>nodes = b_nodes st, rofs_files = obj_files obj, names = b_names st\<rparr>"
    using assms(1) by (rule into_rofs_build)
  have "laid_out layout (nodes fs) (names fs) 0 [([], Branch b)]"
    using build_laid [OF st] eytzinger_ok_length [OF assms(2)] assms(3,4)
    by (auto simp: fs interned_ok_def)
  then show ?thesis
  proof cases
    case (laid_outI es)
    then obtain e where e: "es = [e]" by (auto simp: list_all2_Cons1)
    then have "slice 0 1 (nodes fs) = [e]"
      using laid_outI(3) eytzingerize_single [OF assms(2), of e] by simp
    then have "nodes fs ! 0 = e" using laid_outI(1) by (cases "nodes fs") (auto simp: slice_def)
    then show ?thesis
      using laid_outI(1,2) by (auto simp: node_matches_def e fs)
  qed
qed

end
