(* ===== verification/RofsLookup.thy ===== *)
theory RofsLookup
  imports Rofs
begin

text \<open>
  What the frozen filesystem answers: a lookup in \<open>src/filesystem.rs\<close> finds exactly what the
  tree of \<open>src/filesystem/object.rs\<close> holds at the normalised lowercase path, a directory
  lists exactly the names of the tree's directory, no read of the frozen form is out of
  bounds, and freezing succeeds whenever the sizes fit in 32 bits.
\<close>

section \<open>Lookup\<close>

lemma inode_by_path_walk:
  assumes "rofs_wf fs" "\<And>j. walk esearch fs i (components S p) = Ok j \<Longrightarrow> j < length (nodes fs)"
  shows "inode_by_path S esearch fs i p = walk esearch fs i (components S p)"
proof (cases "components S p")
  case (Cons c cs)
  have small: "length (nodes fs) \<le> U32_MAX" using assms(1) by (simp add: rofs_wf_def)
  show ?thesis
  proof (cases "walk esearch fs i (components S p)")
    case (Ok j)
    then have "j mod 2 ^ 32 = j" using assms(2) [OF Ok] small by simp
    then show ?thesis unfolding inode_by_path_def using Ok Cons by (simp del: walk.simps)
  qed (simp_all add: inode_by_path_def Cons del: walk.simps)
qed (simp add: inode_by_path_def)

lemma find_node_names:
  "find_node b cs = Some t \<Longrightarrow> branch_inv Q R b \<Longrightarrow> c \<in> set cs \<Longrightarrow> Q c"
proof (induction b cs rule: find_node.induct)
  case (2 b c' cs)
  then obtain u where u: "map_of b c' = Some u" by (auto split: option.splits)
  have inv: "Q c'" "tree_inv Q R u"
    using branch_inv_map_of [OF "2.prems"(2) u] by auto
  show ?case
  proof (cases u)
    case (Branch b')
    then show ?thesis using 2 u inv by auto
  next
    case (Leaf d)
    then show ?thesis using 2 u inv by (auto split: if_splits)
  qed
qed simp

lemma find_node_lower:
  "find_node b cs = Some t \<Longrightarrow> branch_inv (name_ok S) R b \<Longrightarrow> c \<in> set cs \<Longrightarrow> is_lower c"
  using find_node_names [of b cs t "name_ok S" R c] by (simp add: name_ok_def)

lemma to_ascii_lowercase_lower: "is_lower s \<Longrightarrow> to_ascii_lowercase s = s"
  by (simp add: is_lower_def to_ascii_lowercase_id)

text \<open>The exact and the lowercased attempt together look for the lowercased path.\<close>

lemma lookup_walk:
  assumes "valid_seps S" "eytzinger_ok layout esearch" "rofs_wf fs"
    and inv: "branch_inv (name_ok S) R b"
    and root: "node_matches layout (nodes fs) (names fs) 0 (Branch b)"
  shows "lookup S esearch fs path =
    (case find_node b (stored_path S path) of
       None \<Rightarrow> Err NotFound
     | Some t \<Rightarrow> obind (walk esearch fs 0 (stored_path S path)) (\<lambda>j. Ok (of_nat j + INODE_ROOT)))"
proof -
  let ?p = "normalize_path S path" and ?l = "to_ascii_lowercase (normalize_path S path)"
  note walks = walk_find [OF assms(2) inv root]
  have step: "inode_by_path S esearch fs 0 q = walk esearch fs 0 (components S q)" for q
  proof (rule inode_by_path_walk [OF assms(3)])
    fix j assume "walk esearch fs 0 (components S q) = Ok j"
    then show "j < length (nodes fs)"
      using walks [of "components S q"] by (auto simp: node_matches_def split: option.splits)
  qed
  have p: "components S ?p = resolve S path" "components S ?l = stored_path S path"
    using assms(1) by (simp_all add: components_normalize_path components_lower stored_path_def)
  have zero: "unat (INODE_ROOT - INODE_ROOT) mod 2 ^ 32 = 0" by simp
  have low: "resolve S path = stored_path S path" if "find_node b (resolve S path) = Some t" for t
  proof -
    have "map to_ascii_lowercase (resolve S path) = resolve S path"
      using find_node_lower [OF that inv] to_ascii_lowercase_lower by (simp add: map_idI)
    then show ?thesis by (simp add: stored_path_def)
  qed
  have id: "?l = ?p" if "\<not> list_ex is_ascii_uppercase ?p"
    using that by (rule to_ascii_lowercase_id)
  show ?thesis
  proof (cases "find_node b (resolve S path)")
    case (Some t)
    then show ?thesis
      using walks [of "stored_path S path"] low [OF Some]
      by (auto simp: lookup_def lookup_in_dir_def zero inode_by_path_ignore_ascii_case_def step p)
  next
    case None
    then have none: "walk esearch fs 0 (resolve S path) = Err NotFound"
      using walks [of "resolve S path"] by simp
    show ?thesis
    proof (cases "list_ex is_ascii_uppercase ?p")
      case True
      then show ?thesis
        using walks [of "stored_path S path"] none
        by (auto simp: lookup_def lookup_in_dir_def zero inode_by_path_ignore_ascii_case_def step p
            cow_to_ascii_lowercase_eq split: option.splits)
    next
      case False
      then have "resolve S path = stored_path S path" using id p by simp
      then show ?thesis
        using None none False
        by (auto simp: lookup_def lookup_in_dir_def zero inode_by_path_ignore_ascii_case_def step p
            cow_to_ascii_lowercase_eq)
    qed
  qed
qed

section \<open>Entries\<close>

lemma unat_inode: "j < length (nodes fs) \<Longrightarrow> rofs_wf fs \<Longrightarrow> unat (of_nat j + INODE_ROOT - INODE_ROOT :: u64) = j"
  by (simp add: rofs_wf_def unat_of_nat)

lemma node_entry_ok:
  assumes "rofs_wf fs" "i < length (nodes fs)"
  shows "node_entry fs i = Ok \<lparr>inode = of_nat i - INODE_ROOT,
     entry_name = str_of_bytes (node_name fs (nodes fs ! i)),
     kind = (case content (nodes fs ! i) of
        NDir s k \<Rightarrow> EDir [s..<s + k] | NFile d \<Rightarrow> EFile (rofs_files fs ! d))\<rparr>"
proof -
  have "nodes fs ! i \<in> set (nodes fs)" using assms(2) by simp
  then have "node_wf (names fs) (length (nodes fs)) (length (rofs_files fs)) (nodes fs ! i)"
    using assms(1) by (simp add: rofs_wf_def)
  then show ?thesis
    by (auto simp: node_entry_def Let_def node_wf_def split: node_content.splits)
qed

lemma dir_entries_ok:
  "rofs_wf fs \<Longrightarrow> \<forall>i \<in> set is. i < length (nodes fs) \<Longrightarrow>
     \<exists>es. dir_entries fs is = Ok es \<and>
       map entry_name es = map (\<lambda>i. str_of_bytes (node_name fs (nodes fs ! i))) is \<and>
       map inode es = map (\<lambda>i. of_nat i - INODE_ROOT) is"
  by (induction "is") (auto simp: node_entry_ok)

lemma mset_eytzingerize:
  assumes "eytzinger_ok layout esearch"
  shows "mset (eytzingerize layout xs) = mset xs"
proof -
  have "mset (eytzingerize layout xs) = image_mset ((!) xs) (mset [0..<length xs])"
    using assms by (simp add: eytzingerize_def eytzinger_ok_def del: mset_upt)
  also have "\<dots> = mset (map ((!) xs) [0..<length xs])" by (simp only: mset_map)
  finally show ?thesis by (simp add: map_nth)
qed

lemma laid_out_names:
  assumes "laid_out layout N ns s b" "eytzinger_ok layout esearch"
  shows "mset (map (\<lambda>n. read_name ns (name_index n)) (slice s (s + length b) N)) =
     mset (map (as_bytes \<circ> fst) b)"
  using assms(1)
proof cases
  case (laid_outI es)
  let ?f = "\<lambda>n. read_name ns (name_index n)"
  have "map ?f es = map (as_bytes \<circ> fst) b"
    using laid_outI(2) list_all2_lengthD [OF laid_outI(2)]
    by (intro nth_equalityI) (auto simp: list_all2_conv_all_nth read_name_ref)
  then show ?thesis
    unfolding laid_outI(3) mset_map mset_eytzingerize [OF assms(2)] mset_sort
    by (metis mset_map)
qed

lemma slice_nths: "s + n \<le> length xs \<Longrightarrow> map ((!) xs) [s..<s + n] = slice s (s + n) xs"
  by (rule nth_equalityI) (auto simp: slice_def)

lemma rofs_entry_at:
  assumes "rofs_wf fs" "j < length (nodes fs)"
  shows "rofs_entry fs (of_nat j + INODE_ROOT) = node_entry fs j"
    and "rofs_name fs (of_nat j + INODE_ROOT) = Ok (str_of_bytes (node_name fs (nodes fs ! j)))"
  unfolding rofs_entry_def rofs_name_def Let_def
  using unat_inode [OF assms(2,1)] assms(2) by (simp_all add: nth_opt_def)

lemma matched_lookup:
  assumes "valid_seps S" "eytzinger_ok layout esearch" "object_inv S obj" "obj_root obj \<noteq> []"
    and "small_tree (Branch (obj_root obj))" "into_rofs layout obj = Ok fs"
  shows "case find_node (obj_root obj) ([] # stored_path S path) of
      None \<Rightarrow> lookup S esearch fs path = Err NotFound
    | Some t \<Rightarrow> \<exists>j. lookup S esearch fs path = Ok (of_nat j + INODE_ROOT) \<and>
        node_matches layout (nodes fs) (names fs) j t \<and>
        name_ref (names fs) (name_index (nodes fs ! j)) (last ([] # stored_path S path))"
proof -
  from object_inv_root [OF assms(3,4)] obtain b where root: "obj_root obj = [([], Branch b)]"
    and inv: "branch_inv (name_ok S) (\<lambda>d. d < length (obj_files obj)) b" by auto
  have wf: "rofs_wf fs" using into_rofs_wf [OF assms(6,2,3,4,5)] .
  have zero: "node_matches layout (nodes fs) (names fs) 0 (Branch b)"
    and name0: "name_ref (names fs) (name_index (nodes fs ! 0)) []"
    using into_rofs_root [OF assms(6,2) root assms(5)] by auto
  have find: "find_node (obj_root obj) ([] # stored_path S path) = find_node b (stored_path S path)"
    by (simp add: root)
  note walk = walk_find [OF assms(2) inv zero, of "stored_path S path"]
  show ?thesis
  proof (cases "stored_path S path = []")
    case True
    then show ?thesis
      unfolding find lookup_walk [OF assms(1,2) wf inv zero, of path]
      using zero name0 by (intro exI [of _ 0] | simp)+
  next
    case False
    then show ?thesis
      unfolding find lookup_walk [OF assms(1,2) wf inv zero, of path]
      using walk by (auto split: option.splits)
  qed
qed

section \<open>Freezing succeeds\<close>

text \<open>The directory entries of a tree and the bytes their names take.\<close>

fun entry_total :: "tree_node \<Rightarrow> nat" where
  "entry_total (Branch b) = length b + sum_list (map (\<lambda>x. entry_total (snd x)) b)"
| "entry_total (Leaf d) = 0"

fun name_total :: "tree_node \<Rightarrow> nat" where
  "name_total (Branch b) = sum_list (map (\<lambda>x. 1 + length (fst x) + name_total (snd x)) b)"
| "name_total (Leaf d) = 0"

lemma entry_total_sub:
  "entry_total (Branch b) = length b + sum_list (map (\<lambda>b'. entry_total (Branch b')) (sub_branches b))"
  by (induction b rule: sub_branches.induct) auto

lemma name_total_sub:
  "name_total (Branch b) =
     sum_list (map (\<lambda>x. 1 + length (fst x)) b) + sum_list (map (\<lambda>b'. name_total (Branch b')) (sub_branches b))"
  by (induction b rule: sub_branches.induct) auto

lemma intern_total:
  "length (b_names st) \<le> U32_MAX \<Longrightarrow> \<exists>i st'. intern c st = Ok (i, st') \<and>
     length (b_names st') \<le> length (b_names st) + 1 + length c"
  by (auto simp: intern_def assert_u32_def split: option.split)

lemma place_nodes_total:
  "b_child_index st + sum_list (map length (sub_branches b)) \<le> U32_MAX \<Longrightarrow>
   length (b_names st) + sum_list (map (\<lambda>x. 1 + length (fst x)) b) \<le> U32_MAX \<Longrightarrow>
   \<exists>st'. place_nodes b st = Ok st' \<and>
     b_child_index st' \<le> b_child_index st + sum_list (map length (sub_branches b)) \<and>
     length (b_names st') \<le> length (b_names st) + sum_list (map (\<lambda>x. 1 + length (fst x)) b)"
proof (induction b st rule: place_nodes.induct)
  case (2 c branch rest st)
  have "length (b_names st) \<le> U32_MAX" using "2.prems"(2) by simp
  from intern_total [OF this] obtain i st1 where i: "intern c st = Ok (i, st1)"
    and len: "length (b_names st1) \<le> length (b_names st) + 1 + length c" by blast
  note fr = intern_frame [OF i]
  have mod: "length branch mod 2 ^ 32 \<le> length branch" by simp
  have guard: "b_child_index st1 + length branch mod 2 ^ 32 \<le> U32_MAX"
    using "2.prems"(1) mod fr by simp
  let ?n = "node_dir (b_child_index st1) (length branch mod 2 ^ 32) i"
  let ?st2 = "st1\<lparr>b_nodes := b_nodes st1 @ [?n],
     b_child_index := b_child_index st1 + length branch mod 2 ^ 32, b_queue := b_queue st1 @ [branch]\<rparr>"
  have "b_child_index ?st2 + sum_list (map length (sub_branches rest)) \<le> U32_MAX"
    "length (b_names ?st2) + sum_list (map (\<lambda>x. 1 + length (fst x)) rest) \<le> U32_MAX"
    using "2.prems" fr len mod by simp_all
  then obtain st' where "place_nodes rest ?st2 = Ok st'"
    "b_child_index st' \<le> b_child_index ?st2 + sum_list (map length (sub_branches rest))"
    "length (b_names st') \<le> length (b_names ?st2) + sum_list (map (\<lambda>x. 1 + length (fst x)) rest)"
    using "2.IH" [OF i refl refl refl] guard by auto
  then show ?case
    using i guard fr len mod by (intro exI [of _ st']) (simp add: Let_def)
next
  case (3 c d rest st)
  have "length (b_names st) \<le> U32_MAX" using "3.prems"(2) by simp
  from intern_total [OF this] obtain i st1 where i: "intern c st = Ok (i, st1)"
    and len: "length (b_names st1) \<le> length (b_names st) + 1 + length c" by blast
  note fr = intern_frame [OF i]
  let ?st2 = "st1\<lparr>b_nodes := b_nodes st1 @ [node_file d i]\<rparr>"
  have "b_child_index ?st2 + sum_list (map length (sub_branches rest)) \<le> U32_MAX"
    "length (b_names ?st2) + sum_list (map (\<lambda>x. 1 + length (fst x)) rest) \<le> U32_MAX"
    using "3.prems" fr len by simp_all
  then obtain st' where "place_nodes rest ?st2 = Ok st'"
    "b_child_index st' \<le> b_child_index ?st2 + sum_list (map length (sub_branches rest))"
    "length (b_names st') \<le> length (b_names ?st2) + sum_list (map (\<lambda>x. 1 + length (fst x)) rest)"
    using "3.IH" [OF i refl] by auto
  then show ?case
    using i fr len by (intro exI [of _ st']) simp
qed simp

definition queue_entries :: "branch list \<Rightarrow> nat" where
  "queue_entries q = sum_list (map (\<lambda>b. sum_list (map (\<lambda>b'. entry_total (Branch b')) (sub_branches b))) q)"

definition queue_names :: "branch list \<Rightarrow> nat" where
  "queue_names q = sum_list (map (\<lambda>b. name_total (Branch b)) q)"

lemma queue_entries_sub:
  "queue_entries q + sum_list (map length q) = sum_list (map (\<lambda>b. entry_total (Branch b)) q)"
proof (induction q)
  case (Cons b q)
  then show ?case
    using entry_total_sub [of b] by (simp add: queue_entries_def del: entry_total.simps)
qed (simp add: queue_entries_def)

lemma build_total:
  "b_child_index st + queue_entries (b_queue st) \<le> U32_MAX \<Longrightarrow>
   length (b_names st) + queue_names (b_queue st) \<le> U32_MAX \<Longrightarrow> \<exists>st'. build layout st = Ok st'"
proof (induction layout st rule: build.induct)
  case (1 layout st)
  show ?case
  proof (cases "b_queue st")
    case Nil
    then show ?thesis by (subst build.simps) simp
  next
    case (Cons b rest)
    let ?st0 = "st\<lparr>b_queue := rest\<rparr>"
    have e: "queue_entries (b_queue st) = queue_entries (sub_branches b) +
        sum_list (map length (sub_branches b)) + queue_entries rest"
      using queue_entries_sub [of "sub_branches b"] Cons by (simp add: queue_entries_def del: entry_total.simps)
    have n: "queue_names (b_queue st) = sum_list (map (\<lambda>x. 1 + length (fst x)) b) +
        queue_names (sub_branches b) + queue_names rest"
      using name_total_sub [of b] Cons by (simp add: queue_names_def del: name_total.simps)
    have "\<exists>st2. place_nodes b ?st0 = Ok st2 \<and>
        b_child_index st2 \<le> b_child_index ?st0 + sum_list (map length (sub_branches b)) \<and>
        length (b_names st2) \<le> length (b_names ?st0) + sum_list (map (\<lambda>x. 1 + length (fst x)) b)"
      by (rule place_nodes_total) (use "1.prems" e n in simp_all)
    then obtain st2 where place: "place_nodes b ?st0 = Ok st2"
      and ci: "b_child_index st2 \<le> b_child_index st + sum_list (map length (sub_branches b))"
      and nm: "length (b_names st2) \<le> length (b_names st) + sum_list (map (\<lambda>x. 1 + length (fst x)) b)"
      by auto
    obtain st1 where level: "build_level layout b ?st0 = Ok st1" and
      st1: "b_child_index st1 = b_child_index st2" "b_names st1 = b_names st2" "b_queue st1 = b_queue st2"
      using place by (simp add: build_level_def Let_def)
    have q: "b_queue st1 = rest @ sub_branches b" using place_nodes_queue [OF place] st1 by simp
    have "\<exists>st'. build layout st1 = Ok st'"
    proof (rule "1.IH" [OF Cons level])
      have "queue_entries (b_queue st1) = queue_entries rest + queue_entries (sub_branches b)"
        "queue_names (b_queue st1) = queue_names rest + queue_names (sub_branches b)"
        by (simp_all only: q queue_entries_def queue_names_def map_append sum_list_append)
      then show "b_child_index st1 + queue_entries (b_queue st1) \<le> U32_MAX"
        "length (b_names st1) + queue_names (b_queue st1) \<le> U32_MAX"
        using "1.prems" e n ci nm by (simp_all only: st1)
    qed
    then show ?thesis using level Cons by (subst build.simps) simp
  qed
qed

lemma into_rofs_succeeds:
  assumes "entry_total (Branch (obj_root obj)) \<le> U32_MAX" "name_total (Branch (obj_root obj)) \<le> U32_MAX"
    and "length (obj_root obj) = 1"
  shows "\<exists>fs. into_rofs layout obj = Ok fs"
proof -
  let ?st = "\<lparr>b_nodes = [], b_names = [], b_interned = [], b_queue = [obj_root obj], b_child_index = 1\<rparr>"
  have "\<exists>st'. build layout ?st = Ok st'"
  proof (rule build_total)
    show "b_child_index ?st + queue_entries (b_queue ?st) \<le> U32_MAX"
      using assms(1,3) entry_total_sub [of "obj_root obj"]
      by (simp add: queue_entries_def del: entry_total.simps)
    show "length (b_names ?st) + queue_names (b_queue ?st) \<le> U32_MAX"
      using assms(2) by (simp add: queue_names_def del: name_total.simps)
  qed
  then show ?thesis by (auto simp: into_rofs_def)
qed

section \<open>No panics\<close>

lemma walk_no_panic:
  assumes "rofs_wf fs"
  shows "walk search fs i cs \<noteq> Panic"
proof (induction cs arbitrary: i)
  case (Cons c cs)
  show ?case
  proof (cases "i < length (nodes fs)")
    case True
    then have "node_wf (names fs) (length (nodes fs)) (length (rofs_files fs)) (nodes fs ! i)"
      using assms by (simp add: rofs_wf_def)
    then show ?thesis
      using Cons True by (auto simp: node_wf_def nth_opt_def get_range_def split: node_content.splits option.splits)
  qed (simp add: nth_opt_def)
qed simp

lemma inode_by_path_no_panic: "rofs_wf fs \<Longrightarrow> inode_by_path S search fs i p \<noteq> Panic"
  using walk_no_panic [of fs search i "components S p"]
  by (cases "walk search fs i (components S p)"; cases "components S p")
    (simp_all add: inode_by_path_def del: walk.simps)

lemma lookup_in_dir_no_panic: "rofs_wf fs \<Longrightarrow> lookup_in_dir S search fs ino path \<noteq> Panic"
  by (auto simp: lookup_in_dir_def Let_def inode_by_path_ignore_ascii_case_def cow_to_ascii_lowercase_eq
      split: outcome.splits dest: inode_by_path_no_panic)

lemma rofs_entry_no_panic: "rofs_wf fs \<Longrightarrow> rofs_entry fs ino \<noteq> Panic"
  by (auto simp: rofs_entry_def Let_def nth_opt_def node_entry_ok)

lemma rofs_name_no_panic: "rofs_name fs ino \<noteq> Panic"
  by (simp add: rofs_name_def Let_def split: option.split)

section \<open>A concrete instance\<close>

text \<open>The contract of the crate is met by the sorted layout with a linear search.\<close>

fun linear_search :: "bytes list \<Rightarrow> bytes \<Rightarrow> nat option" where
  "linear_search [] k = None"
| "linear_search (x # xs) k = (if x = k then Some 0 else map_option Suc (linear_search xs k))"

lemma linear_search_correct:
  "case linear_search ks k of Some i \<Rightarrow> i < length ks \<and> ks ! i = k | None \<Rightarrow> k \<notin> set ks"
  by (induction ks) (auto split: option.splits)

definition sorted_layout :: "nat \<Rightarrow> nat list" where
  "sorted_layout n = [0..<n]"

lemma eytzinger_ok_sorted: "eytzinger_ok sorted_layout linear_search"
proof -
  have id: "eytzingerize sorted_layout ks = ks" for ks :: "bytes list"
    by (simp add: eytzingerize_def sorted_layout_def map_nth)
  show ?thesis
    unfolding eytzinger_ok_def id using linear_search_correct by (simp add: sorted_layout_def)
qed

definition sample_object :: "nat rofs_object" where
  "sample_object = \<lparr>obj_root = [([], Branch [(''b'', Leaf 0), (''a'', Branch [(''c'', Leaf 1)])])],
     obj_files = [10, 20]\<rparr>"

lemma sample_object_ok:
  "object_inv DvdbndConfig_SEPARATORS sample_object" "obj_root sample_object \<noteq> []"
  "small_tree (Branch (obj_root sample_object))"
  "entry_total (Branch (obj_root sample_object)) \<le> U32_MAX"
  "name_total (Branch (obj_root sample_object)) \<le> U32_MAX"
  "length (obj_root sample_object) = 1"
proof -
  have n: "name_ok DvdbndConfig_SEPARATORS ''a''" "name_ok DvdbndConfig_SEPARATORS ''b''"
    "name_ok DvdbndConfig_SEPARATORS ''c''" by code_simp+
  then show "object_inv DvdbndConfig_SEPARATORS sample_object"
    by (auto simp: object_inv_def branch_inv_def sample_object_def)
qed (simp_all add: sample_object_def)

lemma lookup_refines:
  assumes "valid_seps S" "eytzinger_ok layout esearch" "object_inv S obj" "obj_root obj \<noteq> []"
    and "small_tree (Branch (obj_root obj))" "into_rofs layout obj = Ok fs"
  shows "case find_node (obj_root obj) ([] # stored_path S path) of
      None \<Rightarrow> lookup S esearch fs path = Err NotFound
    | Some t \<Rightarrow> \<exists>ino e. lookup S esearch fs path = Ok ino \<and> rofs_entry fs ino = Ok e \<and>
        rofs_name fs ino = Ok (entry_name e) \<and> entry_name e = last ([] # stored_path S path) \<and>
        (\<forall>d. t = Leaf d \<longrightarrow> kind e = EFile (obj_files obj ! d)) \<and>
        (\<forall>b. t = Branch b \<longrightarrow> (\<exists>is. kind e = EDir is \<and> length is = length b))"
proof (cases "find_node (obj_root obj) ([] # stored_path S path)")
  case None
  then show ?thesis using matched_lookup [OF assms, of path] by simp
next
  case (Some t)
  then obtain j where j: "lookup S esearch fs path = Ok (of_nat j + INODE_ROOT)"
    "node_matches layout (nodes fs) (names fs) j t"
    "name_ref (names fs) (name_index (nodes fs ! j)) (last ([] # stored_path S path))"
    using matched_lookup [OF assms, of path] by (auto simp del: find_node.simps)
  have wf: "rofs_wf fs" using into_rofs_wf [OF assms(6,2,3,4,5)] .
  have files: "rofs_files fs = obj_files obj" using assms(6) by (auto simp: into_rofs_def)
  have len: "j < length (nodes fs)" using j(2) by (simp add: node_matches_def)
  have name: "node_name fs (nodes fs ! j) = as_bytes (last ([] # stored_path S path))"
    unfolding node_name_def using j(3) by (rule read_name_ref)
  show ?thesis
    using j(1,2) Some
    by (cases t) (auto simp: rofs_entry_at [OF wf len] node_entry_ok [OF wf len] name files
        node_matches_def simp del: find_node.simps last.simps)
qed

section \<open>Properties\<close>

text \<open>C6: the frozen filesystem answers a lookup exactly as the tree it was frozen from: a
  path is found iff the tree holds its normalised lowercase components, the inode found
  has the name of the last component, and its entry is the file the tree stores there, or a
  directory with as many children.\<close>

theorem rofs_lookup_refines:
  assumes "valid_seps S" "eytzinger_ok layout esearch" "object_inv S obj" "obj_root obj \<noteq> []"
    and "small_tree (Branch (obj_root obj))" "into_rofs layout obj = Ok fs"
  shows "case find_node (obj_root obj) ([] # stored_path S path) of
      None \<Rightarrow> lookup S esearch fs path = Err NotFound
    | Some t \<Rightarrow> \<exists>ino e. lookup S esearch fs path = Ok ino \<and> rofs_entry fs ino = Ok e \<and>
        rofs_name fs ino = Ok (entry_name e) \<and> entry_name e = last ([] # stored_path S path) \<and>
        (\<forall>d. t = Leaf d \<longrightarrow> kind e = EFile (obj_files obj ! d)) \<and>
        (\<forall>b. t = Branch b \<longrightarrow> (\<exists>is. kind e = EDir is \<and> length is = length b))"
  using assms by (rule lookup_refines)

text \<open>C22: the iterator over a directory runs without a panic and lists exactly the names the
  tree's directory holds, each once.\<close>

theorem rofs_directory_lists_tree:
  assumes "valid_seps S" "eytzinger_ok layout esearch" "object_inv S obj" "obj_root obj \<noteq> []"
    and "small_tree (Branch (obj_root obj))" "into_rofs layout obj = Ok fs"
    and "find_node (obj_root obj) ([] # stored_path S path) = Some (Branch b)"
  shows "\<exists>ino e is es. lookup S esearch fs path = Ok ino \<and> rofs_entry fs ino = Ok e \<and>
    kind e = EDir is \<and> dir_entries fs is = Ok es \<and> mset (map entry_name es) = mset (map fst b)"
proof -
  obtain j where j: "lookup S esearch fs path = Ok (of_nat j + INODE_ROOT)"
    "node_matches layout (nodes fs) (names fs) j (Branch b)"
    using matched_lookup [OF assms(1-6), of path] assms(7) by (auto simp del: find_node.simps)
  have wf: "rofs_wf fs" using into_rofs_wf [OF assms(6,2,3,4,5)] .
  obtain s where len: "j < length (nodes fs)" and s: "content (nodes fs ! j) = NDir s (length b)"
    and laid: "laid_out layout (nodes fs) (names fs) s b"
    using j(2) by (auto simp: node_matches_def)
  have range: "s + length b \<le> length (nodes fs)" using laid by cases simp
  then obtain es where es: "dir_entries fs [s..<s + length b] = Ok es"
    "map entry_name es = map (\<lambda>i. str_of_bytes (node_name fs (nodes fs ! i))) [s..<s + length b]"
    using dir_entries_ok [OF wf, of "[s..<s + length b]"] by auto
  have "map entry_name es = map str_of_bytes (map (\<lambda>n. read_name (names fs) (name_index n))
      (map ((!) (nodes fs)) [s..<s + length b]))"
    by (simp add: es(2) node_name_def)
  then have "mset (map entry_name es) = image_mset str_of_bytes (mset (map (\<lambda>n. read_name (names fs) (name_index n))
      (slice s (s + length b) (nodes fs))))"
    by (simp only: slice_nths [OF range] mset_map)
  also have "\<dots> = mset (map fst b)"
    unfolding laid_out_names [OF laid assms(2)] by (simp add: o_def flip: mset_map)
  finally show ?thesis
    using j(1) es(1) by (simp add: rofs_entry_at [OF wf len] node_entry_ok [OF wf len] s)
qed

text \<open>C23: every node of a frozen filesystem has its whole name inside the name table, its
  children inside the node array, at a nonzero index, and its file inside the file array;
  so no lookup, from any inode, and no access to any inode panics or reads out of bounds.\<close>

theorem rofs_in_bounds:
  assumes "eytzinger_ok layout esearch" "object_inv S obj" "obj_root obj \<noteq> []"
    and "small_tree (Branch (obj_root obj))" "into_rofs layout obj = Ok fs"
  shows "rofs_wf fs \<and> lookup_in_dir S search fs ino path \<noteq> Panic \<and> rofs_entry fs ino \<noteq> Panic \<and>
    rofs_name fs ino \<noteq> Panic"
  using into_rofs_wf [OF assms(5,1,2,3,4)]
  by (simp add: lookup_in_dir_no_panic rofs_entry_no_panic rofs_name_no_panic)

text \<open>C24: freezing an object terminates and succeeds whenever its directory entries and the
  bytes of its names can be counted in 32 bits.\<close>

theorem into_rofs_total:
  assumes "entry_total (Branch (obj_root obj)) \<le> U32_MAX" "name_total (Branch (obj_root obj)) \<le> U32_MAX"
    and "length (obj_root obj) = 1"
  shows "\<exists>fs. into_rofs layout obj = Ok fs \<and> rofs_files fs = obj_files obj"
proof -
  obtain fs where "into_rofs layout obj = Ok fs" using into_rofs_succeeds [OF assms] by blast
  then show ?thesis by (auto simp: into_rofs_def)
qed

theorem into_rofs_total_witness: "\<exists>fs. into_rofs sorted_layout sample_object = Ok fs \<and> rofs_files fs = [10, 20]"
  using into_rofs_total [OF sample_object_ok(4-6), of sorted_layout] by (simp add: sample_object_def)

text \<open>The inode an entry reports is two less than the inode it was obtained with: the
  conversion in \<open>node_entry\<close> subtracts the root inode where the lookup adds it, so no
  entry reports the inode under which lookups find it.\<close>

theorem entry_inode_off_by_two:
  assumes "rofs_wf fs" "rofs_entry fs ino = Ok e"
  shows "inode e = ino - 2 * INODE_ROOT \<and> inode e \<noteq> ino"
proof -
  have "inode e = of_nat (unat (ino - INODE_ROOT)) - INODE_ROOT"
    using assms by (auto simp: rofs_entry_def Let_def nth_opt_def node_entry_ok split: if_splits)
  then have "inode e = ino - 2" by (simp add: INODE_ROOT_def)
  moreover have "ino - 2 \<noteq> ino" by simp
  ultimately show ?thesis by (simp add: INODE_ROOT_def)
qed

lemma sample_fs:
  obtains fs where "into_rofs sorted_layout sample_object = Ok fs" "rofs_wf fs"
proof -
  obtain fs where "into_rofs sorted_layout sample_object = Ok fs"
    using into_rofs_succeeds [OF sample_object_ok(4-6)] by blast
  with into_rofs_wf [OF this eytzinger_ok_sorted sample_object_ok(1-3)] that show ?thesis by blast
qed

theorem rofs_lookup_refines_witness:
  "\<exists>fs ino. into_rofs sorted_layout sample_object = Ok fs \<and>
     lookup DvdbndConfig_SEPARATORS linear_search fs ''/A/./c'' = Ok ino \<and>
     map_option kind (case rofs_entry fs ino of Ok e \<Rightarrow> Some e | _ \<Rightarrow> None) = Some (EFile 20) \<and>
     lookup DvdbndConfig_SEPARATORS linear_search fs ''a/d'' = Err NotFound"
proof -
  obtain fs where fs: "into_rofs sorted_layout sample_object = Ok fs" "rofs_wf fs" by (rule sample_fs)
  note ref = rofs_lookup_refines [OF valid_seps_configs(2) eytzinger_ok_sorted sample_object_ok(1-3) fs(1)]
  have p: "stored_path DvdbndConfig_SEPARATORS ''/A/./c'' = [''a'', ''c'']"
    "stored_path DvdbndConfig_SEPARATORS ''a/d'' = [''a'', ''d'']" by code_simp+
  show ?thesis
    using ref [of "''/A/./c''"] ref [of "''a/d''"] fs(1) unfolding p
    by (auto simp: sample_object_def)
qed

theorem rofs_directory_lists_tree_witness:
  "\<exists>fs ino e is es. into_rofs sorted_layout sample_object = Ok fs \<and>
     lookup DvdbndConfig_SEPARATORS linear_search fs '''' = Ok ino \<and> rofs_entry fs ino = Ok e \<and>
     kind e = EDir is \<and> dir_entries fs is = Ok es \<and> mset (map entry_name es) = {#''a'', ''b''#}"
proof -
  obtain fs where fs: "into_rofs sorted_layout sample_object = Ok fs" "rofs_wf fs" by (rule sample_fs)
  have p: "stored_path DvdbndConfig_SEPARATORS '''' = []" by code_simp
  have "find_node (obj_root sample_object) ([] # stored_path DvdbndConfig_SEPARATORS '''') =
      Some (Branch [(''b'', Leaf 0), (''a'', Branch [(''c'', Leaf 1)])])"
    unfolding p by (simp add: sample_object_def)
  from rofs_directory_lists_tree [OF valid_seps_configs(2) eytzinger_ok_sorted sample_object_ok(1-3) fs(1) this]
  show ?thesis using fs(1) by (auto simp: add_mset_commute)
qed

theorem rofs_in_bounds_witness:
  "\<exists>fs. into_rofs sorted_layout sample_object = Ok fs \<and> rofs_wf fs \<and>
     lookup_in_dir DvdbndConfig_SEPARATORS linear_search fs 77 ''x'' \<noteq> Panic"
proof -
  obtain fs where fs: "into_rofs sorted_layout sample_object = Ok fs" "rofs_wf fs" by (rule sample_fs)
  from rofs_in_bounds [OF eytzinger_ok_sorted sample_object_ok(1-3) fs(1)] fs(1) show ?thesis by blast
qed

theorem entry_inode_off_by_two_witness:
  "\<exists>fs e. into_rofs sorted_layout sample_object = Ok fs \<and> rofs_entry fs 1 = Ok e \<and> inode e = - 1"
proof -
  obtain fs where fs: "into_rofs sorted_layout sample_object = Ok fs" "rofs_wf fs" by (rule sample_fs)
  obtain b where "obj_root sample_object = [([], Branch b)]" by (simp add: sample_object_def)
  from into_rofs_root [OF fs(1) eytzinger_ok_sorted this sample_object_ok(3)]
  have "0 < length (nodes fs)" by (auto simp: node_matches_def)
  then obtain e where "rofs_entry fs 1 = Ok e"
    using rofs_entry_at(1) [OF fs(2), of 0] node_entry_ok [OF fs(2), of 0] by (simp add: INODE_ROOT_def)
  with entry_inode_off_by_two [OF fs(2) this] fs(1) show ?thesis by (auto simp: INODE_ROOT_def)
qed

end
