(* ===== verification/Unaligned.thy ===== *)
theory Unaligned
  imports Prelude
begin

text \<open>
  The unaligned little integers of \<open>src/unaligned.rs\<close> (\<open>impl_uints!\<close>): \<open>U16\<close>, \<open>U24\<close>,
  \<open>U32\<close> and \<open>U64\<close> store the low bytes of a \<open>u16\<close>, \<open>u32\<close> or \<open>u64\<close>, on the little-endian
  targets of the program. Shown: reading back what was stored gives the value modulo the
  stored width, and the checked conversion accepts exactly the values that fit.
\<close>

text \<open>\<open>to_ne_bytes\<close> and \<open>from_ne_bytes\<close> of an integer of \<open>w\<close> bytes.\<close>

definition ne_bytes :: "nat \<Rightarrow> 'w::len word \<Rightarrow> bytes" where
  "ne_bytes w v = nat_le w (unat v)"

definition from_ne_bytes :: "bytes \<Rightarrow> 'w::len word" where
  "from_ne_bytes bs = of_nat (le_nat bs)"

text \<open>The two copy loops; \<open>b\<close> is the stored width, \<open>w\<close> the width of the integer in bytes.\<close>

function copy_loop :: "nat \<Rightarrow> nat \<Rightarrow> bytes \<Rightarrow> bytes \<Rightarrow> bytes" where
  "copy_loop i n src dst =
     (if i < n then copy_loop (i + 1) n src (dst[i := src ! i]) else dst)"
  by pat_completeness auto
termination by (relation "measure (\<lambda>(i, n, _, _). n - i)") auto

declare copy_loop.simps [simp del]

definition uint_new :: "nat \<Rightarrow> nat \<Rightarrow> 'w::len word \<Rightarrow> bytes" where
  "uint_new b w v = copy_loop 0 b (ne_bytes w v) (replicate b 0)"

definition uint_get :: "nat \<Rightarrow> nat \<Rightarrow> bytes \<Rightarrow> 'w::len word" where
  "uint_get b w src = from_ne_bytes (copy_loop 0 b src (replicate w 0))"

definition uint_MAX :: "nat \<Rightarrow> nat \<Rightarrow> 'w::len word \<Rightarrow> bytes" where
  "uint_MAX b w t = uint_new b w (- 1 :: 'w word)"

definition uint_try_from :: "nat \<Rightarrow> nat \<Rightarrow> 'w::len word \<Rightarrow> bytes option" where
  "uint_try_from b w v = (if v \<le> uint_get b w (uint_MAX b w v) then Some (uint_new b w v) else None)"

text \<open>The four types.\<close>

definition u16_new :: "u16 \<Rightarrow> bytes" where "u16_new = uint_new 2 2"
definition u16_get :: "bytes \<Rightarrow> u16" where "u16_get = uint_get 2 2"
definition u24_new :: "u32 \<Rightarrow> bytes" where "u24_new = uint_new 3 4"
definition u24_get :: "bytes \<Rightarrow> u32" where "u24_get = uint_get 3 4"
definition u24_try_from :: "u32 \<Rightarrow> bytes option" where "u24_try_from = uint_try_from 3 4"
definition u32_new :: "u32 \<Rightarrow> bytes" where "u32_new = uint_new 4 4"
definition u32_get :: "bytes \<Rightarrow> u32" where "u32_get = uint_get 4 4"
definition u64_new :: "u64 \<Rightarrow> bytes" where "u64_new = uint_new 8 8"
definition u64_get :: "bytes \<Rightarrow> u64" where "u64_get = uint_get 8 8"

lemma copy_loop_take:
  "i \<le> n \<Longrightarrow> n \<le> length src \<Longrightarrow> n \<le> length dst \<Longrightarrow>
     copy_loop i n src dst = take i dst @ slice i n src @ drop n dst"
proof (induction i n src dst rule: copy_loop.induct)
  case (1 i n src dst)
  show ?case
  proof (cases "i < n")
    case True
    have "copy_loop i n src dst = copy_loop (i + 1) n src (dst[i := src ! i])"
      using True by (subst copy_loop.simps) simp
    also have "\<dots> = take (i + 1) (dst[i := src ! i]) @ slice (i + 1) n src @ drop n (dst[i := src ! i])"
      using 1 True by simp
    also have "take (i + 1) (dst[i := src ! i]) = take i dst @ [src ! i]"
      using True 1 by (simp add: take_Suc_conv_app_nth)
    finally have eq: "copy_loop i n src dst =
        (take i dst @ [src ! i]) @ slice (i + 1) n src @ drop n (dst[i := src ! i])" .
    have "slice i n src = [src ! i] @ slice (i + 1) n src"
      using True 1 by (simp add: slice_def Cons_nth_drop_Suc [symmetric] take_Cons')
    then show ?thesis using True 1 by (simp add: eq)
  next
    case False
    then show ?thesis using 1 by (subst copy_loop.simps) simp
  qed
qed

lemma uint_new_eq: "b \<le> w \<Longrightarrow> uint_new b w v = nat_le b (unat v)"
  using nat_le_add [of b "w - b" "unat v"]
  by (simp add: uint_new_def copy_loop_take ne_bytes_def slice_def)

lemma uint_get_eq: "b \<le> w \<Longrightarrow> length src = b \<Longrightarrow> uint_get b w src = of_nat (le_nat src)"
  by (simp add: uint_get_def copy_loop_take slice_def from_ne_bytes_def le_nat_append)

lemma uint_get_new:
  "b \<le> w \<Longrightarrow> uint_get b w (uint_new b w v) = of_nat (unat v mod 256 ^ b)"
  by (simp add: uint_new_eq uint_get_eq le_nat_nat_le)

lemma unat_uint_MAX:
  fixes v :: "'w::len word"
  assumes "b \<le> w" "LENGTH('w) = 8 * w" "0 < b"
  shows "unat (uint_get b w (uint_MAX b w v) :: 'w word) = 256 ^ b - 1"
proof -
  have p: "(2 :: nat) ^ LENGTH('w) = 256 ^ b * 256 ^ (w - b)"
    using assms by (simp add: power_mult flip: power_add)
  have "(256 ^ b * 256 ^ (w - b) - 1 :: nat) = (256 ^ (w - b) - 1) * 256 ^ b + (256 ^ b - 1)"
    by (simp add: algebra_simps)
  then have "(256 ^ b * 256 ^ (w - b) - 1 :: nat) mod 256 ^ b = 256 ^ b - 1"
    by (simp only: mod_mult_self3) simp
  then have "unat (- 1 :: 'w word) mod 256 ^ b = 256 ^ b - 1"
    by (simp add: unsigned_minus_1_eq_mask mask_eq_exp_minus_1 p)
  moreover have "(256 ^ b - 1 :: nat) < 2 ^ LENGTH('w)"
  proof -
    have "0 < (256 :: nat) ^ b" "(256 :: nat) ^ b \<le> 256 ^ b * 256 ^ (w - b)" by simp_all
    then show ?thesis unfolding p by linarith
  qed
  ultimately show ?thesis
    using assms(1) by (simp only: uint_MAX_def uint_get_new unat_of_nat mod_less)
qed

lemma uint_laws:
  fixes v :: "'w::len word"
  assumes "LENGTH('w) = 8 * w" "0 < b" "b \<le> w" "length src = b"
  shows "unat (uint_get b w (uint_new b w v) :: 'w word) = unat v mod 256 ^ b
    \<and> uint_new b w (uint_get b w src :: 'w word) = src
    \<and> uint_try_from b w v = (if unat v < 256 ^ b then Some (uint_new b w v) else None)
    \<and> (\<forall>bs. uint_try_from b w v = Some bs \<longrightarrow> uint_get b w bs = v)"
proof -
  have get: "unat (uint_get b w (uint_new b w v) :: 'w word) = unat v mod 256 ^ b"
    using assms(3) by (simp add: uint_get_new unat_of_nat)
      (metis le_less_trans mod_less mod_less_eq_dividend unsigned_less)
  have "(256 :: nat) ^ b \<le> 2 ^ LENGTH('w)"
    using assms(1,3) by (simp add: power_mult power_increasing)
  then have "le_nat src < 2 ^ LENGTH('w)" using le_nat_less [of src] assms(4) by simp
  then have new: "uint_new b w (uint_get b w src :: 'w word) = src"
    using assms(3,4) nat_le_le_nat [of src] by (simp add: uint_new_eq uint_get_eq unat_of_nat)
  have conv: "uint_try_from b w v = (if unat v < 256 ^ b then Some (uint_new b w v) else None)"
    using unat_uint_MAX [OF assms(3,1,2), of v]
    by (auto simp: uint_try_from_def word_le_nat_alt) (metis Suc_pred le_imp_less_Suc zero_less_numeral zero_less_power)+
  have "uint_get b w bs = v" if "uint_try_from b w v = Some bs" for bs
    using that get unfolding conv by (metis mod_less option.distinct(1) option.inject word_unat_eq_iff)
  then show ?thesis using get new conv by simp
qed

section \<open>Properties\<close>

text \<open>For every stored width, reading back a stored integer gives its low bytes, stored
  bytes are recovered by storing what was read, and the checked conversion succeeds exactly
  on the values that fit, without loss.\<close>

theorem uint_round_trip:
  fixes v :: "'w::len word"
  assumes "LENGTH('w) = 8 * w" "0 < b" "b \<le> w" "length src = b"
  shows "unat (uint_get b w (uint_new b w v) :: 'w word) = unat v mod 256 ^ b
    \<and> uint_new b w (uint_get b w src :: 'w word) = src
    \<and> uint_try_from b w v = (if unat v < 256 ^ b then Some (uint_new b w v) else None)
    \<and> (\<forall>bs. uint_try_from b w v = Some bs \<longrightarrow> uint_get b w bs = v)"
  using assms by (rule uint_laws)

theorem uint_round_trip_witness:
  "u24_get (u24_new 0x01ABCDEF) = 0x00ABCDEF \<and> u24_try_from 0x01000000 = None \<and>
   u24_get (u24_new 0x00123456) = 0x00123456"
proof -
  note rt = uint_round_trip [where 'w = 32 and b = 3 and w = 4 and src = "[0, 0, 0]", simplified]
  have "unat (u24_get (u24_new v)) = unat v mod 16777216" for v
    using rt [of v] by (simp add: u24_get_def u24_new_def)
  then have "unat (u24_get (u24_new 0x01ABCDEF)) = 0xABCDEF" "unat (u24_get (u24_new 0x00123456)) = 0x123456"
    by simp_all
  moreover have "u24_try_from 0x01000000 = None"
    using rt [of "0x01000000"] by (simp add: u24_try_from_def)
  ultimately show ?thesis by (simp add: word_unat_eq_iff)
qed

end
