(* ===== verification/Bhd5.thy ===== *)
theory Bhd5
  imports Prelude
begin

text \<open>
  The archive header format (\<open>src/dvdbnd/bhd5.rs\<close> and \<open>bhd5/format.rs\<close>, \<open>byte_order.rs\<close>,
  \<open>consts.rs\<close>, \<open>magic.rs\<close>): the 32-byte file header, the bucket headers, the file
  entries of the four layouts and their encryption records, in either byte order, and the
  classification of a file into one of five game formats. The zero-copy casts of the source
  are decoders on the same byte ranges with the same size and validity checks.
\<close>

section \<open>Byte orders and constants\<close>

datatype byte_order = LE | BE

text \<open>A field of a \<open>repr(C, align(1))\<close> structure, and the integers of either byte order.\<close>

definition field :: "bytes \<Rightarrow> nat \<Rightarrow> nat \<Rightarrow> bytes" where
  "field bs off n = take n (drop off bs)"

definition read_uint :: "byte_order \<Rightarrow> bytes \<Rightarrow> 'w::len word" where
  "read_uint ord bs = of_nat (case ord of LE \<Rightarrow> le_nat bs | BE \<Rightarrow> be_nat bs)"

definition magic :: bytes where "magic = [0x42, 0x48, 0x44, 0x35]"

definition bom_value :: "byte_order \<Rightarrow> u8" where
  "bom_value ord = (case ord of LE \<Rightarrow> 0xff | BE \<Rightarrow> 0)"

definition one_u32 :: "byte_order \<Rightarrow> bytes" where
  "one_u32 ord = (case ord of LE \<Rightarrow> [1, 0, 0, 0] | BE \<Rightarrow> [0, 0, 0, 1])"

definition zero_u32 :: bytes where "zero_u32 = [0, 0, 0, 0]"

section \<open>The structures\<close>

datatype format = DarkSouls | DarkSoulsRemastered | DarkSouls2 | DarkSouls3 | EldenRing

datatype bhd_error = HeaderSize | HeaderValidity | BucketError | EncryptionError

type_synonym 'a bhd_result = "(bhd_error, 'a) outcome"

record header =
  has_crypto :: bool
  hdr_file_size :: u32
  hdr_bucket_count :: i32
  hdr_bucket_offset :: u32
  bucket_offset2_or_salt_len :: bytes

definition BHD5_HEADER_LEN :: nat where "BHD5_HEADER_LEN = 32"

definition SALT_OFFSET :: nat where "SALT_OFFSET = 20 + 4"

text \<open>The constant fields that \<open>TryFromBytes\<close> checks.\<close>

definition header_valid :: "byte_order \<Rightarrow> bytes \<Rightarrow> bool" where
  "header_valid ord bs \<longleftrightarrow> field bs 0 4 = magic \<and> bs ! 4 = bom_value ord \<and>
     (bs ! 5 = 0 \<or> bs ! 5 = 1) \<and> bs ! 6 = 0 \<and> bs ! 7 = 0 \<and> field bs 8 4 = one_u32 ord"

definition decode_header :: "byte_order \<Rightarrow> bytes \<Rightarrow> header" where
  "decode_header ord bs =
     \<lparr>has_crypto = (bs ! 5 = 1), hdr_file_size = read_uint ord (field bs 12 4),
      hdr_bucket_count = read_uint ord (field bs 16 4),
      hdr_bucket_offset = read_uint ord (field bs 20 4),
      bucket_offset2_or_salt_len = field bs 24 8\<rparr>"

definition try_ref_header :: "byte_order \<Rightarrow> bytes \<Rightarrow> header bhd_result" where
  "try_ref_header ord bytes =
     (if length bytes < BHD5_HEADER_LEN then Err HeaderSize
      else if header_valid ord bytes then Ok (decode_header ord bytes)
      else Err HeaderValidity)"

definition is_dsr_format :: "header \<Rightarrow> bool" where
  "is_dsr_format h \<longleftrightarrow> hdr_bucket_offset h = 0"

definition bucket_count :: "header \<Rightarrow> nat" where
  "bucket_count h = (if sint (hdr_bucket_count h) < 0 then 0 else nat (sint (hdr_bucket_count h)))"

definition bucket_offset :: "byte_order \<Rightarrow> header \<Rightarrow> u64" where
  "bucket_offset ord h =
     (if is_dsr_format h then read_uint ord (bucket_offset2_or_salt_len h)
      else ucast (hdr_bucket_offset h))"

definition salt_len :: "byte_order \<Rightarrow> header \<Rightarrow> nat option" where
  "salt_len ord h =
     (if is_dsr_format h then None
      else let bucket_offset = hdr_bucket_offset h;
               salt_len = read_uint ord (take 4 (bucket_offset2_or_salt_len h)) :: u32
           in if SALT_OFFSET + unat salt_len > U32_MAX then None
              else if SALT_OFFSET + unat salt_len \<le> unat bucket_offset then Some (unat salt_len)
              else None)"

text \<open>Bucket headers.\<close>

datatype bucket_layout = BucketHeaderAll | BucketHeaderDsr

record bucket_header =
  entry_count :: i32
  entry_offset :: u64

fun bucket_header_len :: "bucket_layout \<Rightarrow> nat" where
  "bucket_header_len BucketHeaderAll = 8"
| "bucket_header_len BucketHeaderDsr = 16"

fun decode_bucket_header :: "byte_order \<Rightarrow> bucket_layout \<Rightarrow> bytes \<Rightarrow> bucket_header option" where
  "decode_bucket_header ord BucketHeaderAll bs =
     Some \<lparr>entry_count = read_uint ord (field bs 0 4),
           entry_offset = ucast (read_uint ord (field bs 4 4) :: u32)\<rparr>"
| "decode_bucket_header ord BucketHeaderDsr bs =
     (if field bs 4 4 = one_u32 ord
      then Some \<lparr>entry_count = read_uint ord (field bs 0 4), entry_offset = read_uint ord (field bs 8 8)\<rparr>
      else None)"

text \<open>File entries: path hash, file size, file offset, then the fields of the later formats
  (file hash offset, encryption offset, unpadded file size).\<close>

datatype file_entry =
    FileEntryDs u32 i32 u64
  | FileEntryDs2 u32 i32 u64 u64 u64
  | FileEntryDs3 u32 i32 u64 u64 u64 i32
  | FileEntryEr u64 i32 i32 u64 u64 u64

datatype entry_layout = LayoutDs | LayoutDs2 | LayoutDs3 | LayoutEr

fun entry_len :: "entry_layout \<Rightarrow> nat" where
  "entry_len LayoutDs = 16"
| "entry_len LayoutDs2 = 32"
| "entry_len LayoutDs3 = 40"
| "entry_len LayoutEr = 40"

fun decode_entry :: "byte_order \<Rightarrow> entry_layout \<Rightarrow> bytes \<Rightarrow> file_entry option" where
  "decode_entry ord LayoutDs bs =
     Some (FileEntryDs (read_uint ord (field bs 0 4)) (read_uint ord (field bs 4 4))
       (read_uint ord (field bs 8 8)))"
| "decode_entry ord LayoutDs2 bs =
     Some (FileEntryDs2 (read_uint ord (field bs 0 4)) (read_uint ord (field bs 4 4))
       (read_uint ord (field bs 8 8)) (read_uint ord (field bs 16 8)) (read_uint ord (field bs 24 8)))"
| "decode_entry ord LayoutDs3 bs =
     (if field bs 36 4 = zero_u32
      then Some (FileEntryDs3 (read_uint ord (field bs 0 4)) (read_uint ord (field bs 4 4))
        (read_uint ord (field bs 8 8)) (read_uint ord (field bs 16 8)) (read_uint ord (field bs 24 8))
        (read_uint ord (field bs 32 4)))
      else None)"
| "decode_entry ord LayoutEr bs =
     Some (FileEntryEr (read_uint ord (field bs 0 8)) (read_uint ord (field bs 8 4))
       (read_uint ord (field bs 12 4)) (read_uint ord (field bs 16 8))
       (read_uint ord (field bs 24 8)) (read_uint ord (field bs 32 8)))"

section \<open>The file entry interface\<close>

fun U64_HASH :: "entry_layout \<Rightarrow> bool" where
  "U64_HASH LayoutEr = True"
| "U64_HASH _ = False"

fun path_hash :: "file_entry \<Rightarrow> u64" where
  "path_hash (FileEntryDs h _ _) = ucast h"
| "path_hash (FileEntryDs2 h _ _ _ _) = ucast h"
| "path_hash (FileEntryDs3 h _ _ _ _ _) = ucast h"
| "path_hash (FileEntryEr h _ _ _ _ _) = h"

fun file_offset :: "file_entry \<Rightarrow> u64" where
  "file_offset (FileEntryDs _ _ off) = off"
| "file_offset (FileEntryDs2 _ _ off _ _) = off"
| "file_offset (FileEntryDs3 _ _ off _ _ _) = off"
| "file_offset (FileEntryEr _ _ _ off _ _) = off"

text \<open>\<open>get().max(0) as u32\<close>.\<close>

definition clamp_i32 :: "i32 \<Rightarrow> u32" where
  "clamp_i32 w = (if sint w < 0 then 0 else w)"

fun file_size :: "file_entry \<Rightarrow> u32" where
  "file_size (FileEntryDs _ sz _) = clamp_i32 sz"
| "file_size (FileEntryDs2 _ sz _ _ _) = clamp_i32 sz"
| "file_size (FileEntryDs3 _ sz _ _ _ _) = clamp_i32 sz"
| "file_size (FileEntryEr _ sz _ _ _ _) = clamp_i32 sz"

definition non_zero :: "'w::len word \<Rightarrow> 'w word option" where
  "non_zero w = (if w = 0 then None else Some w)"

fun unpadded_file_size :: "file_entry \<Rightarrow> u32 option" where
  "unpadded_file_size (FileEntryDs3 _ _ _ _ _ unpadded) = non_zero (clamp_i32 unpadded)"
| "unpadded_file_size (FileEntryEr _ _ unpadded _ _ _) = non_zero (clamp_i32 unpadded)"
| "unpadded_file_size _ = None"

fun encryption_offset :: "file_entry \<Rightarrow> u64 option" where
  "encryption_offset (FileEntryDs _ _ _) = None"
| "encryption_offset (FileEntryDs2 _ _ _ _ enc) = non_zero enc"
| "encryption_offset (FileEntryDs3 _ _ _ _ enc _) = non_zero enc"
| "encryption_offset (FileEntryEr _ _ _ _ _ enc) = non_zero enc"

definition crypto_valid :: "header \<Rightarrow> u64 \<Rightarrow> u64 \<Rightarrow> bool" where
  "crypto_valid h enc hash =
     (if has_crypto h then
        let header_size = ucast (hdr_file_size h) in enc < header_size \<and> hash < header_size
      else enc = 0 \<and> hash = 0)"

fun is_valid :: "header \<Rightarrow> file_entry \<Rightarrow> bool" where
  "is_valid h (FileEntryDs _ sz _) \<longleftrightarrow> 0 \<le> sint sz"
| "is_valid h (FileEntryDs2 _ sz _ hash enc) \<longleftrightarrow>
     (if sint sz < 0 then False else crypto_valid h enc hash)"
| "is_valid h (FileEntryDs3 _ sz _ hash enc unpadded) \<longleftrightarrow>
     (if sint sz < 0 \<or> sint unpadded < 0 \<or> sint sz < sint unpadded then False
      else crypto_valid h enc hash)"
| "is_valid h (FileEntryEr _ sz unpadded _ hash enc) \<longleftrightarrow>
     (if sint sz < 0 \<or> sint unpadded < 0 \<or> sint sz < sint unpadded then False
      else crypto_valid h enc hash)"

text \<open>\<open>FileEntryValidator\<close>: its state is whether an entry at offset 0 was seen.\<close>

definition validator_is_valid :: "header \<Rightarrow> bool \<Rightarrow> file_entry \<Rightarrow> bool \<times> bool" where
  "validator_is_valid h has_offset_0 e =
     (let is_offset_0 = (file_offset e = 0)
      in (if is_offset_0 \<and> has_offset_0 then False else is_valid h e, has_offset_0 \<or> is_offset_0))"

fun validate_all :: "header \<Rightarrow> bool \<Rightarrow> file_entry list \<Rightarrow> bool \<times> bool" where
  "validate_all h has_offset_0 [] = (True, has_offset_0)"
| "validate_all h has_offset_0 (e # es) =
     (case validator_is_valid h has_offset_0 e of
        (valid, has_offset_0) \<Rightarrow>
          if valid then validate_all h has_offset_0 es else (False, has_offset_0))"

section \<open>Slices of structures\<close>

text \<open>\<open><[B]>::try_ref_from_prefix_with_elems\<close>: enough bytes, and every element valid.\<close>

definition ref_elems :: "(bytes \<Rightarrow> 'b option) \<Rightarrow> nat \<Rightarrow> bytes \<Rightarrow> nat \<Rightarrow> 'b list option" where
  "ref_elems decode sz bytes cnt =
     (if cnt * sz \<le> length bytes
      then those (map (\<lambda>i. decode (slice (i * sz) (i * sz + sz) bytes)) [0..<cnt])
      else None)"

definition try_ref_slice_helper ::
  "(bytes \<Rightarrow> 'b option) \<Rightarrow> nat \<Rightarrow> bytes \<Rightarrow> int \<Rightarrow> nat \<Rightarrow> 'b list option" where
  "try_ref_slice_helper decode sz bytes cnt offset =
     (if cnt < 0 then None
      else case get_from bytes offset of
             None \<Rightarrow> None
           | Some bytes \<Rightarrow> ref_elems decode sz bytes (nat cnt))"

section \<open>Encryption records\<close>

record encryption_range =
  start_offset :: u64
  end_offset :: u64

record encryption =
  key :: bytes
  range_count :: i32
  ranges :: "encryption_range list"

definition decode_range :: "byte_order \<Rightarrow> bytes \<Rightarrow> encryption_range option" where
  "decode_range ord bs =
     Some \<lparr>start_offset = read_uint ord (field bs 0 8), end_offset = read_uint ord (field bs 8 8)\<rparr>"

text \<open>\<open>Encryption::ref_from_prefix_with_elems\<close>: 20 bytes, then the ranges.\<close>

definition ref_encryption :: "byte_order \<Rightarrow> bytes \<Rightarrow> nat \<Rightarrow> encryption option" where
  "ref_encryption ord bytes n_ranges =
     (if length bytes < 20 then None
      else map_option (\<lambda>rs. \<lparr>key = field bytes 0 16, range_count = read_uint ord (field bytes 16 4), ranges = rs\<rparr>)
             (ref_elems (decode_range ord) 16 (drop 20 bytes) n_ranges))"

definition try_ref_encryption_inner ::
  "byte_order \<Rightarrow> bytes \<Rightarrow> file_entry \<Rightarrow> encryption option bhd_result" where
  "try_ref_encryption_inner ord bytes e =
     (case encryption_offset e of
        None \<Rightarrow> Ok None
      | Some offset \<Rightarrow>
          (case get_from bytes (unat offset) of
             None \<Rightarrow> Err EncryptionError
           | Some bytes \<Rightarrow>
               (case ref_encryption ord bytes 0 of
                  None \<Rightarrow> Err EncryptionError
                | Some encryption \<Rightarrow>
                    if sint (range_count encryption) < 0 then Err EncryptionError
                    else (case ref_encryption ord bytes (nat (sint (range_count encryption))) of
                            None \<Rightarrow> Err EncryptionError
                          | Some encryption \<Rightarrow> Ok (Some encryption)))))"

datatype buckets =
    BDarkSouls "file_entry list list"
  | BDarkSouls2 "file_entry list list"
  | BDarkSouls3 "file_entry list list"
  | BEldenRing "file_entry list list"

fun try_ref_encryption ::
  "byte_order \<Rightarrow> bytes \<Rightarrow> buckets \<Rightarrow> encryption option list bhd_result" where
  "try_ref_encryption ord bytes (BDarkSouls entries) =
     Ok (replicate (sum_list (map length entries)) None)"
| "try_ref_encryption ord bytes (BDarkSouls2 entries) =
     collect (try_ref_encryption_inner ord bytes) (concat entries)"
| "try_ref_encryption ord bytes (BDarkSouls3 entries) =
     collect (try_ref_encryption_inner ord bytes) (concat entries)"
| "try_ref_encryption ord bytes (BEldenRing entries) =
     collect (try_ref_encryption_inner ord bytes) (concat entries)"

section \<open>Files\<close>

record bhd_file =
  file_format :: format
  file_buckets :: buckets
  file_encryption :: "encryption option list"
  salt :: "bytes option"

fun ref_entries ::
  "byte_order \<Rightarrow> entry_layout \<Rightarrow> bytes \<Rightarrow> header \<Rightarrow> bool \<Rightarrow> bucket_header list \<Rightarrow> file_entry list list option" where
  "ref_entries ord layout bytes h has_offset_0 [] = Some []"
| "ref_entries ord layout bytes h has_offset_0 (bucket # rest) =
     (case try_ref_slice_helper (decode_entry ord layout) (entry_len layout) bytes
             (sint (entry_count bucket)) (unat (entry_offset bucket)) of
        None \<Rightarrow> None
      | Some entries \<Rightarrow>
          (case validate_all h has_offset_0 entries of
             (valid, has_offset_0) \<Rightarrow>
               if valid then map_option ((#) entries) (ref_entries ord layout bytes h has_offset_0 rest)
               else None))"

definition try_ref_buckets ::
  "byte_order \<Rightarrow> bucket_layout \<Rightarrow> entry_layout \<Rightarrow> bytes \<Rightarrow> header \<Rightarrow>
     (file_entry list list \<Rightarrow> buckets) \<Rightarrow> (buckets \<times> encryption option list) bhd_result" where
  "try_ref_buckets ord blayout elayout bytes h f =
     (case try_ref_slice_helper (decode_bucket_header ord blayout) (bucket_header_len blayout) bytes
             (int (bucket_count h)) (unat (bucket_offset ord h)) of
        None \<Rightarrow> Err BucketError
      | Some bucket_headers \<Rightarrow>
          (case ref_entries ord elayout bytes h False bucket_headers of
             None \<Rightarrow> Err BucketError
           | Some entries \<Rightarrow>
               obind (try_ref_encryption ord bytes (f entries)) (\<lambda>enc. Ok (f entries, enc))))"

definition try_ref_ds1 :: "byte_order \<Rightarrow> bytes \<Rightarrow> header \<Rightarrow> bhd_file bhd_result" where
  "try_ref_ds1 ord bytes h =
     obind (try_ref_buckets ord BucketHeaderAll LayoutDs bytes h BDarkSouls) (\<lambda>(buckets, enc).
       Ok \<lparr>file_format = DarkSouls, file_buckets = buckets, file_encryption = enc, salt = None\<rparr>)"

definition try_ref_dsr :: "byte_order \<Rightarrow> bytes \<Rightarrow> header \<Rightarrow> bhd_file bhd_result" where
  "try_ref_dsr ord bytes h =
     obind (try_ref_buckets ord BucketHeaderDsr LayoutDs bytes h BDarkSouls) (\<lambda>(buckets, enc).
       Ok \<lparr>file_format = DarkSoulsRemastered, file_buckets = buckets, file_encryption = enc, salt = None\<rparr>)"

definition try_ref_ds3_ds2_er :: "byte_order \<Rightarrow> bytes \<Rightarrow> header \<Rightarrow> nat \<Rightarrow> bhd_file bhd_result" where
  "try_ref_ds3_ds2_er ord bytes h slen =
     (let salt = get_range bytes SALT_OFFSET (SALT_OFFSET + slen)
      in case try_ref_buckets ord BucketHeaderAll LayoutDs3 bytes h BDarkSouls3 of
           Ok (buckets, enc) \<Rightarrow>
             Ok \<lparr>file_format = DarkSouls3, file_buckets = buckets, file_encryption = enc, salt = salt\<rparr>
         | Panic \<Rightarrow> Panic
         | Err _ \<Rightarrow>
             (case try_ref_buckets ord BucketHeaderAll LayoutDs2 bytes h BDarkSouls2 of
                Ok (buckets, enc) \<Rightarrow>
                  Ok \<lparr>file_format = DarkSouls2, file_buckets = buckets, file_encryption = enc, salt = salt\<rparr>
              | Panic \<Rightarrow> Panic
              | Err _ \<Rightarrow>
                  obind (try_ref_buckets ord BucketHeaderAll LayoutEr bytes h BEldenRing) (\<lambda>(buckets, enc).
                    Ok \<lparr>file_format = EldenRing, file_buckets = buckets, file_encryption = enc, salt = salt\<rparr>)))"

definition try_ref_from_bytes :: "byte_order \<Rightarrow> bytes \<Rightarrow> bhd_file bhd_result" where
  "try_ref_from_bytes ord bytes =
     obind (try_ref_header ord bytes) (\<lambda>h.
       case salt_len ord h of
         Some len \<Rightarrow> try_ref_ds3_ds2_er ord bytes h len
       | None \<Rightarrow> if is_dsr_format h then try_ref_dsr ord bytes h else try_ref_ds1 ord bytes h)"

text \<open>\<open>Bhd5File\<close>: little endian first, then big endian; the error carries both.\<close>

datatype bhd5_file = Bhd5_LE bhd_file | Bhd5_BE bhd_file

definition bhd5_try_ref_from_bytes :: "bytes \<Rightarrow> (bhd_error \<times> bhd_error, bhd5_file) outcome" where
  "bhd5_try_ref_from_bytes bytes =
     (case try_ref_from_bytes LE bytes of
        Ok le \<Rightarrow> Ok (Bhd5_LE le)
      | Panic \<Rightarrow> Panic
      | Err err_le \<Rightarrow>
          (case try_ref_from_bytes BE bytes of
             Ok be \<Rightarrow> Ok (Bhd5_BE be)
           | Panic \<Rightarrow> Panic
           | Err err_be \<Rightarrow> Err (err_le, err_be)))"

text \<open>\<open>strip_bhd_extension\<close>.\<close>

definition strip_suffix :: "string \<Rightarrow> string \<Rightarrow> string option" where
  "strip_suffix suf s =
     (if length suf \<le> length s \<and> drop (length s - length suf) s = suf
      then Some (take (length s - length suf) s) else None)"

definition strip_bhd_extension :: "string \<Rightarrow> string option" where
  "strip_bhd_extension name =
     (let name = (case strip_suffix ''5'' name of Some stem \<Rightarrow> stem | None \<Rightarrow> name)
      in if length name < 4 then None
         else if eq_ignore_ascii_case (drop (length name - 4) name) ''.bhd''
         then Some (take (length name - 4) name)
         else None)"

section \<open>Slices are decoded ranges\<close>

lemma ref_elems_Some:
  "ref_elems decode sz bytes n = Some xs \<longleftrightarrow> n * sz \<le> length bytes \<and> length xs = n \<and>
     (\<forall>i < n. decode (slice (i * sz) (i * sz + sz) bytes) = Some (xs ! i))"
proof -
  have "map (\<lambda>i. decode (slice (i * sz) (i * sz + sz) bytes)) [0..<n] = map Some xs \<longleftrightarrow>
      length xs = n \<and> (\<forall>i < n. decode (slice (i * sz) (i * sz + sz) bytes) = Some (xs ! i))"
    by (auto simp: list_eq_iff_nth_eq)
  then show ?thesis by (simp add: ref_elems_def those_Some)
qed

text \<open>The elements read from a slice lie inside the file.\<close>

definition decoded_at :: "(bytes \<Rightarrow> 'b option) \<Rightarrow> nat \<Rightarrow> bytes \<Rightarrow> nat \<Rightarrow> 'b list \<Rightarrow> bool" where
  "decoded_at decode sz bytes off xs \<longleftrightarrow> off + length xs * sz \<le> length bytes \<and>
     (\<forall>i < length xs. decode (slice (off + i * sz) (off + i * sz + sz) bytes) = Some (xs ! i))"

lemma slice_drop: "slice a b (drop off xs) = slice (off + a) (off + b) xs"
  by (simp add: slice_def add.commute)

lemma try_ref_slice_helper_Some:
  "try_ref_slice_helper decode sz bytes cnt off = Some xs \<longleftrightarrow>
     0 \<le> cnt \<and> off \<le> length bytes \<and> length xs = nat cnt \<and> decoded_at decode sz bytes off xs"
  by (auto simp: try_ref_slice_helper_def get_from_def ref_elems_Some decoded_at_def slice_drop add.assoc)

section \<open>Accepted entries are valid\<close>

lemma validate_all_True:
  "validate_all h z es = (True, z') \<Longrightarrow> list_all (is_valid h) es \<and>
     (z' \<longleftrightarrow> z \<or> (\<exists>e \<in> set es. file_offset e = 0)) \<and>
     length (filter (\<lambda>e. file_offset e = 0) es) + of_bool z \<le> 1"
proof (induction es arbitrary: z)
  case (Cons e es)
  show ?case
    using Cons.prems Cons.IH [of "z \<or> file_offset e = 0"]
    by (auto simp: validator_is_valid_def Let_def split: if_splits)
qed simp

lemma ref_entries_valid:
  "ref_entries ord layout bytes h z bs = Some ess \<Longrightarrow> list_all (is_valid h) (concat ess) \<and>
     length (filter (\<lambda>e. file_offset e = 0) (concat ess)) + of_bool z \<le> 1"
proof (induction bs arbitrary: z ess)
  case (Cons b bs)
  from Cons.prems obtain es ess' z' where es: "validate_all h z es = (True, z')"
    and ess': "ref_entries ord layout bytes h z' bs = Some ess'" and ess: "ess = es # ess'"
    by (auto split: option.splits prod.splits if_splits)
  show ?case using validate_all_True [OF es] Cons.IH [OF ess'] by (cases z') (auto simp: ess)
qed simp

lemma ref_entries_decoded:
  "ref_entries ord layout bytes h z bs = Some ess \<Longrightarrow>
     list_all2 (\<lambda>b es. sint (entry_count b) = int (length es) \<and>
       decoded_at (decode_entry ord layout) (entry_len layout) bytes (unat (entry_offset b)) es) bs ess"
  by (induction bs arbitrary: z ess)
    (auto simp: try_ref_slice_helper_Some split: option.splits prod.splits if_splits)

lemma try_ref_buckets_Ok:
  assumes "try_ref_buckets ord bl el bytes h f = Ok (bs, enc)"
  obtains bhs ess where "bs = f ess" "try_ref_encryption ord bytes (f ess) = Ok enc"
    "ref_entries ord el bytes h False bhs = Some ess" "length bhs = bucket_count h"
    "decoded_at (decode_bucket_header ord bl) (bucket_header_len bl) bytes (unat (bucket_offset ord h)) bhs"
  using assms
  by (auto simp: try_ref_buckets_def try_ref_slice_helper_Some split: option.splits)

lemma try_ref_buckets_no_panic:
  assumes "\<And>e. try_ref_encryption ord bytes (f e) \<noteq> Panic"
  shows "try_ref_buckets ord bl el bytes h f \<noteq> Panic"
proof -
  have "obind (try_ref_encryption ord bytes (f e)) (\<lambda>enc. Ok (f e, enc)) \<noteq> Panic" for e
    using assms [of e] by (cases "try_ref_encryption ord bytes (f e)") auto
  then show ?thesis by (auto simp: try_ref_buckets_def split: option.splits)
qed

lemma collect_no_panic: "(\<And>x. f x \<noteq> Panic) \<Longrightarrow> collect f xs \<noteq> Panic"
proof (induction xs)
  case (Cons x xs)
  then show ?case by (cases "f x"; cases "collect f xs") auto
qed simp

lemma try_ref_encryption_no_panic: "try_ref_encryption ord bytes b \<noteq> Panic"
proof -
  have "try_ref_encryption_inner ord bytes e \<noteq> Panic" for e
    by (simp add: try_ref_encryption_inner_def split: option.split)
  note p = collect_no_panic [of "try_ref_encryption_inner ord bytes", OF this]
  show ?thesis using p by (cases b) simp_all
qed

section \<open>A conforming writer\<close>

definition write_uint :: "byte_order \<Rightarrow> nat \<Rightarrow> 'w::len word \<Rightarrow> bytes" where
  "write_uint ord n w = (case ord of LE \<Rightarrow> nat_le n (unat w) | BE \<Rightarrow> nat_be n (unat w))"

lemma length_write_uint [simp]: "length (write_uint ord n w) = n"
  by (simp add: write_uint_def split: byte_order.split)

lemma read_write_uint:
  fixes w :: "'w::len word"
  assumes "LENGTH('w) = 8 * n"
  shows "read_uint ord (write_uint ord n w) = w"
proof -
  have "unat w < 256 ^ n" using assms unsigned_less [of w] by (simp add: power_mult)
  then show ?thesis
    by (simp add: read_uint_def write_uint_def le_nat_nat_le be_nat_nat_be split: byte_order.split)
qed

lemma read_write_u32 [simp]: "read_uint ord (write_uint ord 4 w) = (w :: u32)"
  by (rule read_write_uint) simp

lemma read_write_u64 [simp]: "read_uint ord (write_uint ord 8 w) = (w :: u64)"
  by (rule read_write_uint) simp

lemma length_one_u32 [simp]: "length (one_u32 ord) = 4"
  by (simp add: one_u32_def split: byte_order.split)

lemma field_append:
  "field (xs @ ys) off n =
     (if off + n \<le> length xs then field xs off n
      else if length xs \<le> off then field ys (off - length xs) n
      else drop off xs @ take (off + n - length xs) ys)"
  by (auto simp: field_def add.commute)

lemma field_all: "length xs = n \<Longrightarrow> field xs 0 n = xs"
  by (simp add: field_def)

lemmas field_simps' = field_append field_all

fun entry_layout_of :: "file_entry \<Rightarrow> entry_layout" where
  "entry_layout_of (FileEntryDs _ _ _) = LayoutDs"
| "entry_layout_of (FileEntryDs2 _ _ _ _ _) = LayoutDs2"
| "entry_layout_of (FileEntryDs3 _ _ _ _ _ _) = LayoutDs3"
| "entry_layout_of (FileEntryEr _ _ _ _ _ _) = LayoutEr"

fun encode_entry :: "byte_order \<Rightarrow> file_entry \<Rightarrow> bytes" where
  "encode_entry ord (FileEntryDs h sz off) = write_uint ord 4 h @ write_uint ord 4 sz @ write_uint ord 8 off"
| "encode_entry ord (FileEntryDs2 h sz off hash enc) =
     write_uint ord 4 h @ write_uint ord 4 sz @ write_uint ord 8 off @ write_uint ord 8 hash @
     write_uint ord 8 enc"
| "encode_entry ord (FileEntryDs3 h sz off hash enc unpadded) =
     write_uint ord 4 h @ write_uint ord 4 sz @ write_uint ord 8 off @ write_uint ord 8 hash @
     write_uint ord 8 enc @ write_uint ord 4 unpadded @ zero_u32"
| "encode_entry ord (FileEntryEr h sz unpadded off hash enc) =
     write_uint ord 8 h @ write_uint ord 4 sz @ write_uint ord 4 unpadded @ write_uint ord 8 off @
     write_uint ord 8 hash @ write_uint ord 8 enc"

lemma length_encode_entry: "length (encode_entry ord e) = entry_len (entry_layout_of e)"
  by (cases e) (simp_all add: zero_u32_def)

lemma decode_encode_entry: "decode_entry ord (entry_layout_of e) (encode_entry ord e) = Some e"
  by (cases e) (simp_all add: field_simps' zero_u32_def)

definition encode_header :: "byte_order \<Rightarrow> header \<Rightarrow> bytes" where
  "encode_header ord h =
     magic @ [bom_value ord, of_bool (has_crypto h), 0, 0] @ one_u32 ord @
     write_uint ord 4 (hdr_file_size h) @ write_uint ord 4 (hdr_bucket_count h) @
     write_uint ord 4 (hdr_bucket_offset h) @ bucket_offset2_or_salt_len h"

lemma length_encode_header:
  "length (bucket_offset2_or_salt_len h) = 8 \<Longrightarrow> length (encode_header ord h) = 32"
  by (simp add: encode_header_def magic_def)

lemma try_ref_header_encode:
  assumes "length (bucket_offset2_or_salt_len h) = 8"
  shows "try_ref_header ord (encode_header ord h @ rest) = Ok h"
proof -
  define p where "p = magic @ [bom_value ord, of_bool (has_crypto h), 0, 0]"
  have p: "length p = 8" "field p 0 4 = magic" "p ! 4 = bom_value ord" "p ! 5 = of_bool (has_crypto h)"
    "p ! 6 = 0" "p ! 7 = 0"
    by (simp_all add: p_def magic_def field_def)
  have e: "encode_header ord h @ rest = p @ one_u32 ord @ write_uint ord 4 (hdr_file_size h) @
      write_uint ord 4 (hdr_bucket_count h) @ write_uint ord 4 (hdr_bucket_offset h) @
      bucket_offset2_or_salt_len h @ rest"
    by (simp add: encode_header_def p_def)
  have "header_valid ord (encode_header ord h @ rest)"
    unfolding e using p by (cases "has_crypto h") (simp_all add: header_valid_def field_simps' nth_append)
  moreover have "decode_header ord (encode_header ord h @ rest) = h"
    unfolding e using p assms by (cases "has_crypto h") (simp_all add: decode_header_def field_simps' nth_append)
  ultimately show ?thesis
    using assms by (simp add: try_ref_header_def length_encode_header BHD5_HEADER_LEN_def)
qed

lemma decoded_at_concat:
  assumes "\<forall>x \<in> set xs. length (enc x) = sz \<and> decode (enc x) = Some x"
  shows "decoded_at decode sz (pre @ concat (map enc xs) @ post) (length pre) xs"
proof -
  have len: "length (concat (map enc xs)) = length xs * sz" using assms by (induction xs) auto
  have "slice (i * sz) (i * sz + sz) (concat (map enc xs) @ post) = enc (xs ! i)" if "i < length xs" for i
    using that assms
  proof (induction xs arbitrary: i)
    case (Cons x xs)
    then show ?case by (cases i) (auto simp: slice_def)
  qed simp
  then have "decode (slice (length pre + i * sz) (length pre + i * sz + sz) (pre @ concat (map enc xs) @ post)) =
      Some (xs ! i)" if "i < length xs" for i
    using that assms by (simp add: slice_def)
  then show ?thesis by (simp add: decoded_at_def len)
qed

text \<open>The remastered layout: 16-byte bucket headers right after the file header, then the
  entries of all buckets.\<close>

fun dsr_bucket_headers :: "nat \<Rightarrow> file_entry list list \<Rightarrow> bucket_header list" where
  "dsr_bucket_headers off [] = []"
| "dsr_bucket_headers off (es # ess) =
     \<lparr>entry_count = of_nat (length es), entry_offset = of_nat off\<rparr> #
     dsr_bucket_headers (off + 16 * length es) ess"

lemma length_dsr_bucket_headers [simp]: "length (dsr_bucket_headers off ess) = length ess"
  by (induction off ess rule: dsr_bucket_headers.induct) simp_all

definition encode_bucket_header_dsr :: "byte_order \<Rightarrow> bucket_header \<Rightarrow> bytes" where
  "encode_bucket_header_dsr ord b =
     write_uint ord 4 (entry_count b) @ one_u32 ord @ write_uint ord 8 (entry_offset b)"

definition dsr_header :: "byte_order \<Rightarrow> u32 \<Rightarrow> nat \<Rightarrow> header" where
  "dsr_header ord fsize n =
     \<lparr>has_crypto = False, hdr_file_size = fsize, hdr_bucket_count = of_nat n, hdr_bucket_offset = 0,
      bucket_offset2_or_salt_len = write_uint ord 8 (32 :: u64)\<rparr>"

definition encode_dsr :: "byte_order \<Rightarrow> u32 \<Rightarrow> file_entry list list \<Rightarrow> bytes" where
  "encode_dsr ord fsize ess =
     encode_header ord (dsr_header ord fsize (length ess)) @
     concat (map (encode_bucket_header_dsr ord) (dsr_bucket_headers (32 + 16 * length ess) ess)) @
     concat (map (encode_entry ord) (concat ess))"

lemma sint_of_nat_i32: "n < 2 ^ 31 \<Longrightarrow> sint (of_nat n :: i32) = int n"
  by (simp add: signed_of_nat signed_take_bit_int_eq_self)

lemma validate_all_complete:
  "list_all (is_valid h) es \<Longrightarrow> length (filter (\<lambda>e. file_offset e = 0) es) + of_bool z \<le> 1 \<Longrightarrow>
     validate_all h z es = (True, z \<or> (\<exists>e \<in> set es. file_offset e = 0))"
proof (induction es arbitrary: z)
  case (Cons e es)
  then show ?case
    using Cons.IH [of "z \<or> file_offset e = 0"]
    by (cases z) (auto simp: validator_is_valid_def Let_def split: if_splits)
qed simp

lemma ref_entries_dsr:
  assumes "\<forall>e \<in> set (concat ess). entry_layout_of e = LayoutDs"
    and "list_all (is_valid h) (concat ess)"
    and "length (filter (\<lambda>e. file_offset e = 0) (concat ess)) + of_bool z \<le> 1"
    and "\<forall>es \<in> set ess. length es < 2 ^ 31"
    and "length pre + 16 * length (concat ess) < 2 ^ 64"
  shows "ref_entries ord LayoutDs (pre @ concat (map (encode_entry ord) (concat ess))) h z
    (dsr_bucket_headers (length pre) ess) = Some ess"
  using assms
proof (induction ess arbitrary: pre z)
  case (Cons es ess)
  let ?bytes = "pre @ concat (map (encode_entry ord) (concat (es # ess)))"
  let ?post = "concat (map (encode_entry ord) (concat ess))"
  have len: "length (concat (map (encode_entry ord) es)) = 16 * length es"
    using Cons.prems(1) length_encode_entry [of ord] by (induction es) auto
  have "decoded_at (decode_entry ord LayoutDs) 16 (pre @ concat (map (encode_entry ord) es) @ ?post)
      (length pre) es"
  proof (rule decoded_at_concat, rule ballI)
    fix e assume "e \<in> set es"
    then have "entry_layout_of e = LayoutDs" using Cons.prems(1) by simp
    then show "length (encode_entry ord e) = 16 \<and> decode_entry ord LayoutDs (encode_entry ord e) = Some e"
      using length_encode_entry [of ord e] decode_encode_entry [of ord e] by simp
  qed
  then have "decoded_at (decode_entry ord LayoutDs) 16 ?bytes (length pre) es" by simp
  moreover have "sint (of_nat (length es) :: i32) = int (length es)"
    using Cons.prems(4) by (simp add: sint_of_nat_i32)
  moreover have "unat (of_nat (length pre) :: u64) = length pre"
    using Cons.prems(5) by (simp add: unat_of_nat)
  ultimately have ref: "try_ref_slice_helper (decode_entry ord LayoutDs) (entry_len LayoutDs) ?bytes
      (sint (of_nat (length es) :: i32)) (unat (of_nat (length pre) :: u64)) = Some es"
    by (subst try_ref_slice_helper_Some) simp
  let ?z = "z \<or> (\<exists>e \<in> set es. file_offset e = 0)"
  have val: "validate_all h z es = (True, ?z)"
    using Cons.prems(2,3) by (intro validate_all_complete) simp_all
  have "of_bool ?z \<le> length (filter (\<lambda>e. file_offset e = 0) es) + of_bool z"
    by (cases z) (auto simp: filter_empty_conv Suc_le_eq)
  then have z: "length (filter (\<lambda>e. file_offset e = 0) (concat ess)) + of_bool ?z \<le> 1"
    using Cons.prems(3) by simp
  have "ref_entries ord LayoutDs ((pre @ concat (map (encode_entry ord) es)) @ ?post) h ?z
      (dsr_bucket_headers (length (pre @ concat (map (encode_entry ord) es))) ess) = Some ess"
    by (rule Cons.IH [OF _ _ z]) (use Cons.prems len in auto)
  then have "ref_entries ord LayoutDs ?bytes h ?z (dsr_bucket_headers (length pre + 16 * length es) ess) = Some ess"
    by (simp add: len)
  then show ?case using ref val by (simp del: entry_len.simps)
qed simp

section \<open>What an accepted file satisfies\<close>

fun bucket_entries :: "buckets \<Rightarrow> file_entry list list" where
  "bucket_entries (BDarkSouls ess) = ess"
| "bucket_entries (BDarkSouls2 ess) = ess"
| "bucket_entries (BDarkSouls3 ess) = ess"
| "bucket_entries (BEldenRing ess) = ess"

text \<open>The layouts of the bucket headers and of the entries of a format, and its buckets.\<close>

fun format_layouts :: "format \<Rightarrow> bucket_layout \<times> entry_layout" where
  "format_layouts DarkSouls = (BucketHeaderAll, LayoutDs)"
| "format_layouts DarkSoulsRemastered = (BucketHeaderDsr, LayoutDs)"
| "format_layouts DarkSouls2 = (BucketHeaderAll, LayoutDs2)"
| "format_layouts DarkSouls3 = (BucketHeaderAll, LayoutDs3)"
| "format_layouts EldenRing = (BucketHeaderAll, LayoutEr)"

fun format_buckets :: "format \<Rightarrow> file_entry list list \<Rightarrow> buckets" where
  "format_buckets DarkSouls = BDarkSouls"
| "format_buckets DarkSoulsRemastered = BDarkSouls"
| "format_buckets DarkSouls2 = BDarkSouls2"
| "format_buckets DarkSouls3 = BDarkSouls3"
| "format_buckets EldenRing = BEldenRing"

lemma bucket_entries_format [simp]: "bucket_entries (format_buckets fmt ess) = ess"
  by (cases fmt) simp_all

lemma try_ref_from_bytes_Ok:
  assumes "try_ref_from_bytes ord bytes = Ok f"
  obtains h where "try_ref_header ord bytes = Ok h"
    "try_ref_buckets ord (fst (format_layouts (file_format f))) (snd (format_layouts (file_format f))) bytes h
       (format_buckets (file_format f)) = Ok (file_buckets f, file_encryption f)"
    "file_format f = DarkSoulsRemastered \<longleftrightarrow> is_dsr_format h"
    "file_format f = DarkSouls \<Longrightarrow> salt_len ord h = None"
    "\<And>s. salt f = Some s \<Longrightarrow> \<exists>len. salt_len ord h = Some len \<and>
       get_range bytes SALT_OFFSET (SALT_OFFSET + len) = Some s"
proof -
  obtain h where h: "try_ref_header ord bytes = Ok h" using assms by (auto simp: try_ref_from_bytes_def)
  show ?thesis
  proof (cases "salt_len ord h")
    case None
    show ?thesis
      using assms h None
      by (intro that [of h])
        (auto simp: try_ref_from_bytes_def try_ref_dsr_def try_ref_ds1_def split: if_splits)
  next
    case (Some len)
    then have "\<not> is_dsr_format h" by (auto simp: salt_len_def)
    then show ?thesis
      using assms h Some
      by (intro that [of h])
        (auto simp: try_ref_from_bytes_def try_ref_ds3_ds2_er_def Let_def split: outcome.splits)
  qed
qed

fun raw_file_size :: "file_entry \<Rightarrow> i32" where
  "raw_file_size (FileEntryDs _ sz _) = sz"
| "raw_file_size (FileEntryDs2 _ sz _ _ _) = sz"
| "raw_file_size (FileEntryDs3 _ sz _ _ _ _) = sz"
| "raw_file_size (FileEntryEr _ sz _ _ _ _) = sz"

definition entry_ok :: "header \<Rightarrow> file_entry \<Rightarrow> bool" where
  "entry_ok h e \<longleftrightarrow> 0 \<le> sint (raw_file_size e) \<and> file_size e = raw_file_size e \<and>
     (\<forall>u. unpadded_file_size e = Some u \<longrightarrow> 0 < u \<and> u \<le> file_size e) \<and>
     (\<forall>off. encryption_offset e = Some off \<longrightarrow>
        has_crypto h \<and> 0 < off \<and> unat off < unat (hdr_file_size h))"

lemma sint_le_word: "0 \<le> sint (a :: i32) \<Longrightarrow> sint a \<le> sint b \<Longrightarrow> a \<le> b"
proof -
  assume a: "0 \<le> sint a" "sint a \<le> sint b"
  have "uint w = sint w" if "0 \<le> sint w" for w :: i32
    using that sint_lt [of w] by (simp add: uint_sint take_bit_int_eq_self)
  with a show ?thesis by (simp add: word_le_def)
qed

lemma unat_ucast_u32 [simp]: "unat (ucast (w :: u32) :: u64) = unat w"
proof -
  have "unat w < 2 ^ 32" using unsigned_less [of w, where 'a = nat] by simp
  then show ?thesis by (simp add: unsigned_ucast_eq take_bit_nat_eq_self)
qed

lemma non_zero_Some: "non_zero w = Some v \<longleftrightarrow> v = w \<and> w \<noteq> 0"
  by (auto simp: non_zero_def)

lemma is_valid_entry_ok: "is_valid h e \<Longrightarrow> entry_ok h e"
proof -
  have c: "crypto_valid h enc hash \<Longrightarrow> enc \<noteq> 0 \<Longrightarrow> has_crypto h \<and> 0 < enc \<and> unat enc < unat (hdr_file_size h)"
    for enc hash
    by (auto simp: crypto_valid_def Let_def word_less_nat_alt unat_gt_0 split: if_splits)
  show "is_valid h e \<Longrightarrow> entry_ok h e"
    using c
    by (cases e) (auto simp: entry_ok_def clamp_i32_def non_zero_Some word_gt_0 intro: sint_le_word
        split: if_splits)
qed

lemma ref_encryption_Some:
  "ref_encryption ord bs n = Some x \<Longrightarrow> length (key x) = 16 \<and> length (ranges x) = n \<and>
     range_count x = read_uint ord (field bs 16 4)"
  by (auto simp: ref_encryption_def ref_elems_Some field_def split: if_splits)

definition encryption_matches :: "file_entry \<Rightarrow> encryption option \<Rightarrow> bool" where
  "encryption_matches e enc \<longleftrightarrow> (enc = None \<longleftrightarrow> encryption_offset e = None) \<and>
     (\<forall>x. enc = Some x \<longrightarrow> length (key x) = 16 \<and> int (length (ranges x)) = sint (range_count x))"

lemma try_ref_encryption_inner_matches:
  "try_ref_encryption_inner ord bytes e = Ok enc \<Longrightarrow> encryption_matches e enc"
  by (auto simp: try_ref_encryption_inner_def encryption_matches_def dest!: ref_encryption_Some
      split: option.splits if_splits) metis+

lemma encryption_matches_ds:
  "\<forall>e \<in> set es. entry_layout_of e = LayoutDs \<Longrightarrow>
     list_all2 encryption_matches es (replicate (length es) None)"
  by (auto simp: list_all2_conv_all_nth encryption_matches_def)
    (metis encryption_offset.simps(1) entry_layout.distinct entry_layout_of.elims nth_mem)+

lemma decode_entry_layout: "decode_entry ord layout bs = Some e \<Longrightarrow> entry_layout_of e = layout"
  by (cases layout) (auto split: if_splits)

lemma ref_entries_layout:
  assumes "ref_entries ord layout bytes h z bs = Some ess" "e \<in> set (concat ess)"
  shows "entry_layout_of e = layout"
proof -
  from assms(2) obtain es where es: "es \<in> set ess" "e \<in> set es" by auto
  obtain k where k: "k < length ess" "ess ! k = es" using es(1) by (auto simp: in_set_conv_nth)
  obtain i where i: "i < length es" "es ! i = e" using es(2) by (auto simp: in_set_conv_nth)
  have "decoded_at (decode_entry ord layout) (entry_len layout) bytes (unat (entry_offset (bs ! k))) es"
    using list_all2_nthD2 [OF ref_entries_decoded [OF assms(1)] k(1)] k(2) by simp
  with i have "\<exists>sl. decode_entry ord layout sl = Some e" by (auto simp: decoded_at_def)
  then show ?thesis using decode_entry_layout by blast
qed

lemma try_ref_encryption_matches:
  assumes "try_ref_encryption ord bytes (format_buckets fmt ess) = Ok enc"
    and "ref_entries ord (snd (format_layouts fmt)) bytes h z bs = Some ess"
  shows "list_all2 encryption_matches (concat ess) enc"
proof -
  have ds: "snd (format_layouts fmt) = LayoutDs \<Longrightarrow>
      list_all2 encryption_matches (concat ess) (replicate (length (concat ess)) None)"
    using ref_entries_layout [OF assms(2)] by (intro encryption_matches_ds) auto
  have cl: "collect (try_ref_encryption_inner ord bytes) (concat ess) = Ok enc \<Longrightarrow>
      list_all2 encryption_matches (concat ess) enc"
    using try_ref_encryption_inner_matches by (auto simp: collect_Ok elim!: list_all2_mono)
  show ?thesis
    using assms(1) ds cl by (cases fmt) (auto simp: length_concat)
qed

text \<open>What holds of a file that is accepted.\<close>

lemma accepted_file_valid:
  assumes "try_ref_from_bytes ord bytes = Ok f"
  shows "\<exists>h. try_ref_header ord bytes = Ok h \<and>
    (\<forall>e \<in> set (concat (bucket_entries (file_buckets f))). entry_ok h e) \<and>
    length (filter (\<lambda>e. file_offset e = 0) (concat (bucket_entries (file_buckets f)))) \<le> 1 \<and>
    list_all2 encryption_matches (concat (bucket_entries (file_buckets f))) (file_encryption f)"
proof -
  obtain h where h: "try_ref_header ord bytes = Ok h" and b:
    "try_ref_buckets ord (fst (format_layouts (file_format f))) (snd (format_layouts (file_format f))) bytes h
       (format_buckets (file_format f)) = Ok (file_buckets f, file_encryption f)"
    using assms by (rule try_ref_from_bytes_Ok)
  obtain bhs ess where ess: "file_buckets f = format_buckets (file_format f) ess"
    "try_ref_encryption ord bytes (format_buckets (file_format f) ess) = Ok (file_encryption f)"
    "ref_entries ord (snd (format_layouts (file_format f))) bytes h False bhs = Some ess"
    using b by (rule try_ref_buckets_Ok)
  show ?thesis
    using h ref_entries_valid [OF ess(3)] is_valid_entry_ok try_ref_encryption_matches [OF ess(2,3)]
    by (auto simp: ess(1) list_all_iff)
qed

section \<open>Byte orders\<close>

lemma header_valid_exclusive: "header_valid LE bytes \<Longrightarrow> \<not> header_valid BE bytes"
  by (simp add: header_valid_def bom_value_def)

lemma try_ref_from_bytes_header:
  "try_ref_from_bytes ord bytes = Ok f \<Longrightarrow> BHD5_HEADER_LEN \<le> length bytes \<and> header_valid ord bytes"
  by (auto simp: try_ref_from_bytes_def try_ref_header_def split: if_splits)

lemma try_ref_from_bytes_invalid:
  "BHD5_HEADER_LEN \<le> length bytes \<Longrightarrow> \<not> header_valid ord bytes \<Longrightarrow>
     try_ref_from_bytes ord bytes = Err HeaderValidity"
  by (simp add: try_ref_from_bytes_def try_ref_header_def)

lemma try_ref_from_bytes_no_panic: "try_ref_from_bytes ord bytes \<noteq> Panic"
proof -
  note p = try_ref_buckets_no_panic [OF try_ref_encryption_no_panic]
  have o: "obind m (\<lambda>(b, c). Ok (g b c)) \<noteq> Panic" if "m \<noteq> Panic" for m :: "('a \<times> 'b) bhd_result" and g
    using that by (cases m) auto
  have "try_ref_ds3_ds2_er ord bytes h len \<noteq> Panic" for h len
    using p by (auto simp: try_ref_ds3_ds2_er_def Let_def o split: outcome.split)
  moreover have "try_ref_ds1 ord bytes h \<noteq> Panic" "try_ref_dsr ord bytes h \<noteq> Panic" for h
    unfolding try_ref_ds1_def try_ref_dsr_def by (rule o, rule p)+
  ultimately show ?thesis
    by (cases "try_ref_header ord bytes")
      (auto simp: try_ref_from_bytes_def try_ref_header_def split: option.split if_splits)
qed

section \<open>Extensions\<close>

lemma strip_suffix_Some: "strip_suffix suf s = Some t \<longleftrightarrow> s = t @ suf"
  by (auto simp: strip_suffix_def) (metis append_take_drop_id)

lemma strip_suffix_None: "strip_suffix suf s = None \<longleftrightarrow> (\<nexists>t. s = t @ suf)"
  using strip_suffix_Some [of suf s] by (cases "strip_suffix suf s") auto

lemma split_ext:
  "(if length n < 4 then None
    else if eq_ignore_ascii_case (drop (length n - 4) n) ''.bhd'' then Some (take (length n - 4) n)
    else None) = Some stem \<longleftrightarrow> (\<exists>ext. n = stem @ ext \<and> to_ascii_lowercase ext = ''.bhd'')"
proof -
  have low: "to_ascii_lowercase ''.bhd'' = ''.bhd''" by code_simp
  have "length ext = 4" if "to_ascii_lowercase ext = ''.bhd''" for ext
    using arg_cong [OF that, of length] by simp
  then show ?thesis
    by (auto simp: eq_ignore_ascii_case_def low) (metis append_take_drop_id)
qed

lemma ascii_lower_5: "ascii_lower c = CHR ''5'' \<longleftrightarrow> c = CHR ''5''"
proof (cases "is_ascii_uppercase c")
  case True
  then have "(of_char (ascii_lower c) :: nat) \<ge> 97"
    by (auto simp: ascii_lower_def is_ascii_uppercase_def)
  moreover have "(of_char CHR ''5'' :: nat) = 53" by simp
  moreover have "c \<noteq> CHR ''5''" using True by (auto simp: is_ascii_uppercase_def)
  ultimately show ?thesis by auto
qed (simp add: ascii_lower_id)

lemma lower_ext5:
  "to_ascii_lowercase ext = ''.bhd5'' \<longleftrightarrow> (\<exists>e. ext = e @ ''5'' \<and> to_ascii_lowercase e = ''.bhd'')"
proof
  assume a: "to_ascii_lowercase ext = ''.bhd5''"
  then have "ext \<noteq> []" by auto
  then obtain e c where e: "ext = e @ [c]" by (metis rev_exhaust)
  have "to_ascii_lowercase e @ [ascii_lower c] = ''.bhd'' @ ''5''"
    using a by (simp add: e to_ascii_lowercase_def)
  then have "to_ascii_lowercase e = ''.bhd''" "ascii_lower c = CHR ''5''"
    unfolding append_eq_append_conv [where us = "[_]" and vs = "[_]", simplified] by simp_all
  then show "\<exists>e. ext = e @ ''5'' \<and> to_ascii_lowercase e = ''.bhd''"
    using e ascii_lower_5 by blast
next
  have low: "to_ascii_lowercase ''5'' = ''5''" by code_simp
  show "\<exists>e. ext = e @ ''5'' \<and> to_ascii_lowercase e = ''.bhd'' \<Longrightarrow> to_ascii_lowercase ext = ''.bhd5''"
    by (auto simp: low)
qed

section \<open>Reading what a writer wrote\<close>

lemma encode_dsr_read:
  assumes "\<forall>e \<in> set (concat ess). entry_layout_of e = LayoutDs \<and> 0 \<le> sint (raw_file_size e)"
    and "length (filter (\<lambda>e. file_offset e = 0) (concat ess)) \<le> 1"
    and "length ess < 2 ^ 31" "\<forall>es \<in> set ess. length es < 2 ^ 31"
    and "32 + 16 * length ess + 16 * length (concat ess) < 2 ^ 64"
  shows "try_ref_from_bytes ord (encode_dsr ord fsize ess) =
    Ok \<lparr>file_format = DarkSoulsRemastered, file_buckets = BDarkSouls ess,
        file_encryption = replicate (length (concat ess)) None, salt = None\<rparr>"
proof -
  let ?h = "dsr_header ord fsize (length ess)"
  let ?bhs = "dsr_bucket_headers (32 + 16 * length ess) ess"
  let ?head = "encode_header ord ?h"
  let ?body = "concat (map (encode_entry ord) (concat ess))"
  let ?dir = "concat (map (encode_bucket_header_dsr ord) ?bhs)"
  have header: "try_ref_header ord (encode_dsr ord fsize ess) = Ok ?h"
    unfolding encode_dsr_def by (rule try_ref_header_encode) (simp add: dsr_header_def)
  have dsr: "is_dsr_format ?h" "salt_len ord ?h = None"
    by (simp_all add: is_dsr_format_def dsr_header_def salt_len_def)
  have cnt: "bucket_count ?h = length ess"
    using assms(3) by (simp add: bucket_count_def dsr_header_def sint_of_nat_i32)
  have off: "unat (bucket_offset ord ?h) = 32" by (simp add: bucket_offset_def is_dsr_format_def dsr_header_def)
  have lh: "length ?head = 32" by (rule length_encode_header) (simp add: dsr_header_def)
  have lb: "length ?bhs = length ess" by simp
  have "length (concat (map (encode_bucket_header_dsr ord) bs)) = 16 * length bs" for bs
    by (induction bs) (auto simp: encode_bucket_header_dsr_def)
  then have ld: "length ?dir = 16 * length ess" by simp
  have "decoded_at (decode_bucket_header ord BucketHeaderDsr) 16 (?head @ ?dir @ ?body) (length ?head) ?bhs"
    by (rule decoded_at_concat) (auto simp: encode_bucket_header_dsr_def field_simps')
  then have "try_ref_slice_helper (decode_bucket_header ord BucketHeaderDsr) 16 (encode_dsr ord fsize ess)
      (int (bucket_count ?h)) (unat (bucket_offset ord ?h)) = Some ?bhs"
    unfolding cnt off lh by (subst try_ref_slice_helper_Some) (simp add: encode_dsr_def lb lh)
  moreover have "ref_entries ord LayoutDs ((?head @ ?dir) @ ?body) ?h False
      (dsr_bucket_headers (length (?head @ ?dir)) ess) = Some ess"
  proof (rule ref_entries_dsr)
    show "list_all (is_valid ?h) (concat ess)"
      unfolding list_all_iff
    proof
      fix e assume "e \<in> set (concat ess)"
      with assms(1) have "entry_layout_of e = LayoutDs \<and> 0 \<le> sint (raw_file_size e)" by blast
      then show "is_valid ?h e" by (cases e) auto
    qed
  qed (use assms lh ld in auto)
  then have "ref_entries ord LayoutDs (encode_dsr ord fsize ess) ?h False ?bhs = Some ess"
    by (simp add: lh ld encode_dsr_def)
  ultimately have "try_ref_buckets ord BucketHeaderDsr LayoutDs (encode_dsr ord fsize ess) ?h BDarkSouls =
      Ok (BDarkSouls ess, replicate (length (concat ess)) None)"
    by (simp add: try_ref_buckets_def length_concat)
  then show ?thesis
    by (simp add: try_ref_from_bytes_def header dsr try_ref_dsr_def)
qed

definition sample_entries :: "file_entry list list" where
  "sample_entries = [[FileEntryDs 7 16 0, FileEntryDs 9 8 16], []]"

lemma sample_dsr:
  "try_ref_from_bytes ord (encode_dsr ord 64 sample_entries) =
    Ok \<lparr>file_format = DarkSoulsRemastered, file_buckets = BDarkSouls sample_entries,
        file_encryption = [None, None], salt = None\<rparr>"
  using encode_dsr_read [of sample_entries ord 64] by (simp add: sample_entries_def)

text \<open>An empty little-endian file of the later formats, with an eight-byte salt announced.\<close>

definition sample_salted :: bytes where
  "sample_salted = magic @ [0xff, 0, 0, 0] @ one_u32 LE @ [32, 0, 0, 0] @ [0, 0, 0, 0] @ [32, 0, 0, 0] @
     [8, 0, 0, 0, 70, 68, 80, 95]"

lemma sample_salted:
  "try_ref_from_bytes LE sample_salted =
    Ok \<lparr>file_format = DarkSouls3, file_buckets = BDarkSouls3 [], file_encryption = [],
        salt = Some [8, 0, 0, 0, 70, 68, 80, 95]\<rparr>"
  by (simp add: sample_salted_def try_ref_from_bytes_def try_ref_header_def BHD5_HEADER_LEN_def header_valid_def
      magic_def field_def one_u32_def bom_value_def decode_header_def salt_len_def is_dsr_format_def
      read_uint_def SALT_OFFSET_def try_ref_ds3_ds2_er_def try_ref_buckets_def try_ref_slice_helper_def
      get_from_def ref_elems_def bucket_count_def bucket_offset_def get_range_def Let_def)

section \<open>Properties\<close>

text \<open>C9: in an accepted file every entry has a nonnegative size that bounds its unpadded
  size, an encryption record only when the header announces cryptography and then inside
  the file's stated size, at most one entry lies at offset 0, and the list of encryption
  records matches the entries one to one, each with a 16-byte key and as many ranges as it
  announces.\<close>

theorem bhd_file_valid:
  assumes "try_ref_from_bytes ord bytes = Ok f"
  shows "\<exists>h. try_ref_header ord bytes = Ok h \<and>
    (\<forall>e \<in> set (concat (bucket_entries (file_buckets f))). entry_ok h e) \<and>
    length (filter (\<lambda>e. file_offset e = 0) (concat (bucket_entries (file_buckets f)))) \<le> 1 \<and>
    list_all2 encryption_matches (concat (bucket_entries (file_buckets f))) (file_encryption f)"
  using assms by (rule accepted_file_valid)

theorem bhd_file_valid_witness:
  "\<exists>h. try_ref_header LE (encode_dsr LE 64 sample_entries) = Ok h \<and>
     entry_ok h (FileEntryDs 9 8 16) \<and>
     list_all2 encryption_matches [FileEntryDs 7 16 0, FileEntryDs 9 8 16] [None, None]"
  using bhd_file_valid [OF sample_dsr [of LE]] by (auto simp: sample_entries_def)

text \<open>C25: the bucket headers and the entries of an accepted file are the decoded
  contiguous byte ranges the header and the bucket headers point at, all inside the file,
  in the layouts of the detected format; the remastered format is detected exactly when the
  32-bit bucket offset is zero.\<close>

theorem bhd_file_decoded:
  assumes "try_ref_from_bytes ord bytes = Ok f" "format_layouts (file_format f) = (bl, el)"
  shows "\<exists>h bhs. try_ref_header ord bytes = Ok h \<and>
    (file_format f = DarkSoulsRemastered \<longleftrightarrow> hdr_bucket_offset h = 0) \<and>
    length bhs = bucket_count h \<and>
    decoded_at (decode_bucket_header ord bl) (bucket_header_len bl) bytes (unat (bucket_offset ord h)) bhs \<and>
    file_buckets f = format_buckets (file_format f) (bucket_entries (file_buckets f)) \<and>
    list_all2 (\<lambda>b es. sint (entry_count b) = int (length es) \<and>
        decoded_at (decode_entry ord el) (entry_len el) bytes (unat (entry_offset b)) es)
      bhs (bucket_entries (file_buckets f))"
proof -
  obtain h where h: "try_ref_header ord bytes = Ok h" and b:
    "try_ref_buckets ord bl el bytes h (format_buckets (file_format f)) = Ok (file_buckets f, file_encryption f)"
    "file_format f = DarkSoulsRemastered \<longleftrightarrow> is_dsr_format h"
    using assms by (auto elim: try_ref_from_bytes_Ok)
  obtain bhs ess where ess: "file_buckets f = format_buckets (file_format f) ess"
    "ref_entries ord el bytes h False bhs = Some ess" "length bhs = bucket_count h"
    "decoded_at (decode_bucket_header ord bl) (bucket_header_len bl) bytes (unat (bucket_offset ord h)) bhs"
    using b(1) by (rule try_ref_buckets_Ok)
  show ?thesis
    using h b(2) ess ref_entries_decoded [OF ess(2)] by (auto simp: is_dsr_format_def)
qed

theorem bhd_file_decoded_witness:
  "\<exists>h bhs. try_ref_header LE (encode_dsr LE 64 sample_entries) = Ok h \<and> hdr_bucket_offset h = 0 \<and>
     length bhs = bucket_count h \<and>
     decoded_at (decode_bucket_header LE BucketHeaderDsr) 16 (encode_dsr LE 64 sample_entries)
       (unat (bucket_offset LE h)) bhs"
  using bhd_file_decoded [OF sample_dsr [of LE], of BucketHeaderDsr LayoutDs] by auto

text \<open>C26: a remastered-format file written in either byte order is read back: the same
  buckets with the same entries, no encryption records, no salt.\<close>

theorem dsr_round_trip:
  assumes "\<forall>e \<in> set (concat ess). entry_layout_of e = LayoutDs \<and> 0 \<le> sint (raw_file_size e)"
    and "length (filter (\<lambda>e. file_offset e = 0) (concat ess)) \<le> 1"
    and "length ess < 2 ^ 31" "\<forall>es \<in> set ess. length es < 2 ^ 31"
    and "32 + 16 * length ess + 16 * length (concat ess) < 2 ^ 64"
  shows "try_ref_from_bytes ord (encode_dsr ord fsize ess) =
    Ok \<lparr>file_format = DarkSoulsRemastered, file_buckets = BDarkSouls ess,
        file_encryption = replicate (length (concat ess)) None, salt = None\<rparr>"
  using assms by (rule encode_dsr_read)

theorem dsr_round_trip_witness:
  "try_ref_from_bytes BE (encode_dsr BE 64 sample_entries) =
    Ok \<lparr>file_format = DarkSoulsRemastered, file_buckets = BDarkSouls sample_entries,
        file_encryption = [None, None], salt = None\<rparr>"
  using dsr_round_trip [of sample_entries BE 64] by (simp add: sample_entries_def)

text \<open>The byte orders exclude each other: a file that parses in one order is rejected in
  the other because of its byte-order mark, so trying little endian first loses nothing, and
  parsing never panics.\<close>

theorem byte_orders_exclusive:
  "bhd5_try_ref_from_bytes bytes \<noteq> Panic \<and>
   (\<forall>f. bhd5_try_ref_from_bytes bytes = Ok (Bhd5_LE f) \<longleftrightarrow> try_ref_from_bytes LE bytes = Ok f) \<and>
   (\<forall>f. bhd5_try_ref_from_bytes bytes = Ok (Bhd5_BE f) \<longleftrightarrow> try_ref_from_bytes BE bytes = Ok f) \<and>
   (\<forall>f. try_ref_from_bytes LE bytes = Ok f \<longrightarrow> try_ref_from_bytes BE bytes = Err HeaderValidity) \<and>
   (\<forall>f. try_ref_from_bytes BE bytes = Ok f \<longrightarrow> try_ref_from_bytes LE bytes = Err HeaderValidity)"
proof -
  have 1: "try_ref_from_bytes BE bytes = Err HeaderValidity" if "try_ref_from_bytes LE bytes = Ok f" for f
    using try_ref_from_bytes_header [OF that] header_valid_exclusive try_ref_from_bytes_invalid by blast
  have 2: "try_ref_from_bytes LE bytes = Err HeaderValidity" if "try_ref_from_bytes BE bytes = Ok f" for f
    using try_ref_from_bytes_header [OF that] header_valid_exclusive try_ref_from_bytes_invalid by blast
  show ?thesis
    using 1 2 try_ref_from_bytes_no_panic [of LE bytes] try_ref_from_bytes_no_panic [of BE bytes]
    by (cases "try_ref_from_bytes LE bytes"; cases "try_ref_from_bytes BE bytes")
      (simp_all add: bhd5_try_ref_from_bytes_def)
qed

theorem byte_orders_exclusive_witness:
  "try_ref_from_bytes BE (encode_dsr LE 64 sample_entries) = Err HeaderValidity"
  using byte_orders_exclusive [of "encode_dsr LE 64 sample_entries"] sample_dsr [of LE] by simp

text \<open>The salt of an accepted file is read four bytes early: the slice that is returned
  starts with the length field of the salt itself.\<close>

theorem salt_starts_at_its_length:
  assumes "try_ref_from_bytes ord bytes = Ok f" "salt f = Some s" "4 \<le> length s"
  shows "unat (read_uint ord (take 4 s) :: u32) = length s"
proof -
  obtain h len where h: "try_ref_header ord bytes = Ok h" "salt_len ord h = Some len"
    "get_range bytes SALT_OFFSET (SALT_OFFSET + len) = Some s"
    using try_ref_from_bytes_Ok [OF assms(1)] assms(2) by metis
  have s: "s = take len (drop 24 bytes)" and len: "length s = len"
    using h(3) by (auto simp: get_range_def SALT_OFFSET_def split: if_splits)
  have "bucket_offset2_or_salt_len h = field bytes 24 8"
    using h(1) by (auto simp: try_ref_header_def decode_header_def split: if_splits)
  then have "unat (read_uint ord (take 4 (field bytes 24 8)) :: u32) = len"
    using h(2) by (auto simp: salt_len_def Let_def split: if_splits)
  then show ?thesis using assms(3) len by (simp add: s field_def min_def)
qed

theorem salt_starts_at_its_length_witness:
  "unat (read_uint LE (take 4 [8, 0, 0, 0, 70, 68, 80, 95]) :: u32) = 8"
  using salt_starts_at_its_length [OF sample_salted] by simp

text \<open>The extension of an archive header is stripped exactly from the names that end in
  \<open>.bhd\<close> or \<open>.bhd5\<close>, in any case.\<close>

theorem strip_bhd_extension_iff:
  "strip_bhd_extension name = Some stem \<longleftrightarrow>
     (\<exists>ext. name = stem @ ext \<and> (to_ascii_lowercase ext = ''.bhd'' \<or> to_ascii_lowercase ext = ''.bhd5''))"
proof (cases "\<exists>n. name = n @ ''5''")
  case True
  then obtain n where n: "name = n @ ''5''" by blast
  have "to_ascii_lowercase ext \<noteq> ''.bhd''" if "n @ ''5'' = stem @ ext" for ext
  proof
    assume a: "to_ascii_lowercase ext = ''.bhd''"
    then obtain e c where e: "ext = e @ [c]" by (metis rev_exhaust to_ascii_lowercase_Nil list.distinct(1))
    then have "c = CHR ''5''" using that by simp
    then have "last (to_ascii_lowercase ext) = CHR ''5''" using ascii_lower_5 by (simp add: e to_ascii_lowercase_def)
    then show False using a by simp
  qed
  then have "(\<exists>ext. name = stem @ ext \<and> (to_ascii_lowercase ext = ''.bhd'' \<or> to_ascii_lowercase ext = ''.bhd5'')) \<longleftrightarrow>
      (\<exists>e. n = stem @ e \<and> to_ascii_lowercase e = ''.bhd'')"
    unfolding n lower_ext5 by auto
  moreover have "strip_suffix ''5'' name = Some n" using n strip_suffix_Some by blast
  ultimately show ?thesis using split_ext [of n stem] by (simp add: strip_bhd_extension_def Let_def)
next
  case False
  then have "strip_suffix ''5'' name = None" using strip_suffix_None by blast
  moreover have "to_ascii_lowercase ext \<noteq> ''.bhd5''" if "name = stem @ ext" for ext
    using False that unfolding lower_ext5 by auto
  ultimately show ?thesis using split_ext [of name stem] by (auto simp: strip_bhd_extension_def Let_def)
qed

end
