(* ===== verification/Aligned.thy ===== *)
theory Aligned
  imports Prelude
begin

text \<open>
  Aligned reads of the data archives (\<open>src/dvdbnd/filesystem/aligned.rs\<close> and
  \<open>aligned/split.rs\<close>, Unix configuration): the pool of 64 aligned buffers behind the
  asynchronous driver, the streams of buffers that cover a range of a file, with and
  without the context windows around it, and the splitting of one buffer into views.
  The managed read of the driver (crate \<open>compio\<close>) is the parameter \<open>read_at\<close>, with the
  contract \<open>reads_file\<close>. A stream is the list of the results it yields.
\<close>

definition ALIGNMENT :: nat where "ALIGNMENT = 64"
definition WINDOW_SIZE :: nat where "WINDOW_SIZE = ALIGNMENT"

definition BUFFER_BLOCK_LEN :: nat where "BUFFER_BLOCK_LEN = 4096"
definition BUFFER_BLOCKS :: nat where "BUFFER_BLOCKS = 8"
definition POOL_SIZE :: nat where "POOL_SIZE = 64"
definition BUFFER_LEN :: nat where "BUFFER_LEN = BUFFER_BLOCKS * BUFFER_BLOCK_LEN"
definition ARRAY_BLOCKS :: nat where "ARRAY_BLOCKS = POOL_SIZE * BUFFER_BLOCKS"

lemma BUFFER_LEN_eq [simp]: "BUFFER_LEN = 32768"
  by (simp add: BUFFER_LEN_def BUFFER_BLOCKS_def BUFFER_BLOCK_LEN_def)

lemma WINDOW_SIZE_eq [simp]: "WINDOW_SIZE = 64"
  by (simp add: WINDOW_SIZE_def ALIGNMENT_def)

section \<open>The buffer pool\<close>

text \<open>A pool is the bit set of the free buffers; a buffer is named by its byte offset from the
  start of the array. Out-of-range shifts are masked to the width of the word.\<close>

definition trailing_zeros :: "u64 \<Rightarrow> nat" where
  "trailing_zeros w = length (takeWhile (\<lambda>i. \<not> bit w i) [0..<64])"

text \<open>\<open>1 << i\<close>.\<close>

definition shl1 :: "nat \<Rightarrow> u64" where
  "shl1 i = push_bit i 1"

definition pool_new :: u64 where "pool_new = - 1"

definition pool_alloc :: "u64 \<Rightarrow> (nat \<times> u64) option" where
  "pool_alloc available =
     (if available = 0 then None
      else let mask = available - 1;
               new_available = available AND mask;
               index = trailing_zeros (available - new_available)
           in Some (index * BUFFER_LEN, new_available))"

definition pool_free :: "nat \<Rightarrow> u64 \<Rightarrow> u64 option" where
  "pool_free ptr available =
     (if ptr mod ALIGNMENT \<noteq> 0 then None
      else if ARRAY_BLOCKS * BUFFER_LEN \<le> ptr then None
      else let index = ptr div BUFFER_LEN in Some (available OR shl1 (index mod 64)))"

text \<open>\<open>BufferAllocator\<close>: the length must match; running out of buffers panics.\<close>

definition allocate :: "nat \<Rightarrow> u64 \<Rightarrow> (nat \<times> u64) option" where
  "allocate len available = (if len \<noteq> BUFFER_LEN then None else pool_alloc available)"

definition deallocate :: "nat \<Rightarrow> nat \<Rightarrow> u64 \<Rightarrow> u64 option" where
  "deallocate ptr len available = (if len \<noteq> BUFFER_LEN then None else pool_free ptr available)"

text \<open>The free buffers as a set.\<close>

definition free_set :: "u64 \<Rightarrow> nat set" where
  "free_set w = {i. i < 64 \<and> bit w i}"

lemma finite_free_set [simp]: "finite (free_set w)"
  by (simp add: free_set_def)

lemma free_set_empty: "free_set w = {} \<longleftrightarrow> w = 0"
  by (auto simp: free_set_def bit_eq_iff)

text \<open>The lowest set bit and what the two subtractions do to it.\<close>

lemma lowest_bit:
  assumes "w \<noteq> (0 :: u64)"
  shows "Min (free_set w) < 64" "bit w (Min (free_set w))" "\<forall>j < Min (free_set w). \<not> bit w j"
proof -
  have ne: "free_set w \<noteq> {}" using assms free_set_empty by blast
  then have "Min (free_set w) \<in> free_set w" by (intro Min_in) simp_all
  then show "Min (free_set w) < 64" "bit w (Min (free_set w))" by (simp_all add: free_set_def)
  show "\<forall>j < Min (free_set w). \<not> bit w j"
  proof (intro allI impI notI)
    fix j assume j: "j < Min (free_set w)" "bit w j"
    then have "j \<in> free_set w" using bit_imp_le_length [of w j] by (simp add: free_set_def)
    then have "Min (free_set w) \<le> j" by simp
    with j(1) show False by simp
  qed
qed

lemma bit_push_1: "bit (shl1 i) j \<longleftrightarrow> i = j \<and> j < 64"
  by (auto simp: shl1_def bit_push_bit_iff bit_1_iff simp del: push_bit_of_1)

lemma trailing_zeros_exp: "i < 64 \<Longrightarrow> trailing_zeros (shl1 i) = i"
proof -
  assume i: "i < 64"
  have "[0..<64] = [0..<i] @ [i..<64]" using i upt_add_eq_append [of 0 i "64 - i"] by simp
  also have "[i..<64] = i # [Suc i..<64]" using i by (rule upt_conv_Cons)
  finally have "takeWhile (\<lambda>j. \<not> bit (shl1 i) j) [0..<64] = [0..<i]"
    using i by (simp only: bit_push_1) (auto simp: takeWhile_eq_all_conv intro!: takeWhile_append2 [THEN trans])
  then show ?thesis by (simp add: trailing_zeros_def)
qed

lemma clear_lowest_bit:
  assumes "i < 64" "bit w i" "\<forall>j < i. \<not> bit w j"
  shows "w AND (w - 1) = w AND NOT (shl1 i)" "w - (w AND (w - 1)) = shl1 i"
proof -
  define v where "v = w AND NOT (shl1 i)"
  have bv: "bit v j \<longleftrightarrow> bit w j \<and> i \<noteq> j" for j
    using bit_imp_le_length [of w j] by (auto simp: v_def bit_and_iff bit_not_iff bit_push_1)
  have "v AND shl1 i = 0"
    by (rule bit_word_eqI) (simp add: bit_and_iff bv bit_push_1)
  then have "v + shl1 i = v OR shl1 i" by (rule disjunctive_add_eq_or)
  also have "\<dots> = w"
    using assms by (intro bit_word_eqI) (auto simp: bit_or_iff bv bit_push_1)
  finally have split: "w = v + shl1 i" by simp
  have "v AND mask i = 0"
    using assms by (intro bit_word_eqI) (auto simp: bit_and_iff bv bit_mask_iff)
  then have "v + mask i = v OR mask i" by (rule disjunctive_add_eq_or)
  moreover have "w - 1 = v + mask i" using split by (simp add: mask_eq_decr_exp shl1_def)
  ultimately have "w AND (w - 1) = w AND (v OR mask i)" by simp
  also have "\<dots> = v"
  proof (rule bit_word_eqI)
    fix n assume "n < LENGTH(64)"
    show "bit (w AND (v OR mask i)) n = bit v n"
      using assms(3) by (cases "n < i") (auto simp: bit_and_iff bit_or_iff bv bit_mask_iff)
  qed
  finally have v: "w AND (w - 1) = v" .
  then show "w AND (w - 1) = w AND NOT (shl1 i)" by (simp only: v_def)
  have "w - v = shl1 i" by (metis split add_diff_cancel_left')
  then show "w - (w AND (w - 1)) = shl1 i" by (simp only: v)
qed

lemma pool_alloc_set:
  "pool_alloc w = (if free_set w = {} then None
     else Some (Min (free_set w) * BUFFER_LEN, w AND NOT (shl1 (Min (free_set w)))))"
proof (cases "w = 0")
  case False
  note i = lowest_bit [OF False]
  have "trailing_zeros (w - (w AND (w - 1))) = Min (free_set w)"
    by (simp only: clear_lowest_bit(2) [OF i] trailing_zeros_exp [OF i(1)])
  then show ?thesis
    using False clear_lowest_bit(1) [OF i] by (simp only: pool_alloc_def Let_def free_set_empty if_False)
qed (simp add: pool_alloc_def free_set_empty)

lemma free_set_alloc: "free_set (w AND NOT (shl1 i)) = free_set w - {i}"
  by (auto simp: free_set_def bit_and_iff bit_not_iff bit_push_1)

lemma free_set_free: "i < 64 \<Longrightarrow> free_set (w OR shl1 i) = insert i (free_set w)"
  by (auto simp: free_set_def bit_or_iff bit_push_1)

lemma free_set_new: "free_set pool_new = {..<64}"
  by (auto simp: free_set_def pool_new_def)

lemma pool_free_Some:
  "i < 64 \<Longrightarrow> pool_free (i * BUFFER_LEN) w = Some (w OR shl1 i)"
  by (simp add: pool_free_def ALIGNMENT_def ARRAY_BLOCKS_def POOL_SIZE_def BUFFER_BLOCKS_def Let_def
      mod_mult_right_eq)

section \<open>The pool interface\<close>

text \<open>
  What the driver relies on: allocation takes a free buffer, and only fails when there is
  none; freeing a buffer of the pool makes it free. The client keeps the set of the buffers
  it holds.
\<close>

locale buffer_pool =
  fixes new :: "'s" and alloc :: "'s \<Rightarrow> (nat \<times> 's) option" and free :: "nat \<Rightarrow> 's \<Rightarrow> 's option"
    and avail :: "'s \<Rightarrow> nat set" and ptrs :: "nat set"
  assumes avail_new: "avail new = ptrs"
    and alloc_None: "alloc s = None \<longleftrightarrow> avail s = {}"
    and alloc_Some: "alloc s = Some (p, s') \<Longrightarrow> p \<in> avail s \<and> avail s' = avail s - {p}"
    and free_Some: "p \<in> ptrs \<Longrightarrow> \<exists>s'. free p s = Some s' \<and> avail s' = insert p (avail s)"
    and finite_ptrs: "finite ptrs"
begin

definition partition :: "'s \<Rightarrow> nat set \<Rightarrow> bool" where
  "partition s held \<longleftrightarrow> avail s \<inter> held = {} \<and> avail s \<union> held = ptrs"

lemma partition_new: "partition new {}"
  by (simp add: partition_def avail_new)

lemma partition_alloc:
  "partition s held \<Longrightarrow> alloc s = Some (p, s') \<Longrightarrow>
     p \<in> ptrs \<and> p \<notin> held \<and> partition s' (insert p held)"
  using alloc_Some [of s p s'] by (auto simp: partition_def)

lemma partition_free:
  "partition s held \<Longrightarrow> p \<in> held \<Longrightarrow> free p s = Some s' \<Longrightarrow> partition s' (held - {p})"
  using free_Some [of p s] by (auto simp: partition_def)

lemma free_held: "partition s held \<Longrightarrow> p \<in> held \<Longrightarrow> free p s \<noteq> None"
  using free_Some [of p s] by (auto simp: partition_def)

lemma exhausted: "partition s held \<Longrightarrow> alloc s = None \<longleftrightarrow> card held = card ptrs"
proof -
  assume p: "partition s held"
  then have "held \<subseteq> ptrs" by (auto simp: partition_def)
  then have "card held = card ptrs \<longleftrightarrow> held = ptrs"
    using card_subset_eq [OF finite_ptrs] by auto
  then show ?thesis using p by (auto simp: alloc_None partition_def)
qed

end

text \<open>The buffers of the pool by their byte offsets.\<close>

definition pool_ptrs :: "nat set" where
  "pool_ptrs = (\<lambda>i. i * BUFFER_LEN) ` {..<64}"

definition pool_avail :: "u64 \<Rightarrow> nat set" where
  "pool_avail w = (\<lambda>i. i * BUFFER_LEN) ` free_set w"

lemma pool_avail_alloc:
  assumes "pool_alloc w = Some (p, w')"
  shows "p \<in> pool_avail w \<and> pool_avail w' = pool_avail w - {p}"
proof -
  let ?i = "Min (free_set w)"
  have ne: "free_set w \<noteq> {}" and p: "p = ?i * BUFFER_LEN" and w': "free_set w' = free_set w - {?i}"
    using assms by (auto simp: pool_alloc_set free_set_alloc split: if_splits)
  have "?i \<in> free_set w" using ne by (intro Min_in) simp_all
  moreover have "inj (\<lambda>i. i * BUFFER_LEN)" by (simp add: inj_on_def)
  then have "pool_avail w' = pool_avail w - (\<lambda>i. i * BUFFER_LEN) ` {?i}"
    unfolding pool_avail_def w' by (rule image_set_diff)
  ultimately show ?thesis unfolding p by (auto simp only: pool_avail_def image_insert image_empty)
qed

interpretation pool: buffer_pool pool_new pool_alloc pool_free pool_avail pool_ptrs
proof (unfold_locales, goal_cases)
  case 1
  then show ?case by (simp add: free_set_new pool_ptrs_def pool_avail_def)
next
  case (2 w)
  then show ?case by (simp add: pool_alloc_set pool_avail_def)
next
  case (3 w p w')
  then show ?case by (rule pool_avail_alloc)
next
  case (4 p w)
  then obtain i where "i < 64" "p = i * BUFFER_LEN" by (auto simp: pool_ptrs_def)
  then show ?case using pool_free_Some [of i w] free_set_free [of i w] by (simp add: pool_avail_def)
next
  case 5
  then show ?case by (simp add: pool_ptrs_def)
qed

text \<open>The pool in use: a state is the bit set and the set of the buffers handed out.\<close>

inductive pool_step :: "u64 \<times> nat set \<Rightarrow> u64 \<times> nat set \<Rightarrow> bool" where
  alloc: "allocate BUFFER_LEN w = Some (p, w') \<Longrightarrow> pool_step (w, held) (w', insert p held)"
| dealloc: "p \<in> held \<Longrightarrow> deallocate p BUFFER_LEN w = Some w' \<Longrightarrow> pool_step (w, held) (w', held - {p})"

inductive_cases pool_stepE: "pool_step (w, held) (w', held')"

lemma pool_step_partition:
  "pool_step (w, held) (w', held') \<Longrightarrow> pool.partition w held \<Longrightarrow> pool.partition w' held'"
  by (elim pool_stepE) (auto simp: allocate_def deallocate_def dest: pool.partition_alloc pool.partition_free)

lemma pool_reachable:
  "pool_step\<^sup>*\<^sup>* (pool_new, {}) (w, held) \<Longrightarrow> pool.partition w held"
proof (induction "(w, held)" arbitrary: w held rule: rtranclp_induct)
  case base
  then show ?case using pool.partition_new by simp
next
  case (step y)
  then show ?case using pool_step_partition by (cases y) blast
qed

lemma pool_ptrs_apart:
  assumes "p \<in> pool_ptrs" "q \<in> pool_ptrs" "p \<noteq> q"
  shows "p + BUFFER_LEN \<le> q \<or> q + BUFFER_LEN \<le> p"
proof -
  obtain i j where "p = i * 32768" "q = j * 32768" using assms(1,2) by (auto simp: pool_ptrs_def)
  then show ?thesis using assms(3) by (cases i j rule: linorder_cases) auto
qed

section \<open>Views of a shared buffer\<close>

text \<open>A \<open>Split\<close> half: a range of the buffer it shares with the other half.\<close>

record split_half =
  view_start :: nat
  view_len :: nat

definition split_buf :: "bytes \<Rightarrow> nat \<Rightarrow> (split_half \<times> split_half) option" where
  "split_buf buf index =
     (if index \<le> length buf
      then Some (\<lparr>view_start = 0, view_len = index\<rparr>,
                 \<lparr>view_start = index, view_len = length buf - index\<rparr>)
      else None)"

definition split_again :: "split_half \<Rightarrow> nat \<Rightarrow> (split_half \<times> split_half) option" where
  "split_again v index =
     (if index \<le> view_len v
      then Some (\<lparr>view_start = view_start v, view_len = index\<rparr>,
                 \<lparr>view_start = view_start v + index, view_len = view_len v - index\<rparr>)
      else None)"

definition deref :: "bytes \<Rightarrow> split_half \<Rightarrow> bytes" where
  "deref buf v = slice (view_start v) (view_start v + view_len v) buf"

text \<open>A write of the whole view through \<open>deref_mut\<close>.\<close>

definition deref_write :: "split_half \<Rightarrow> bytes \<Rightarrow> bytes \<Rightarrow> bytes" where
  "deref_write v bs buf = take (view_start v) buf @ bs @ drop (view_start v + view_len v) buf"

definition set_len :: "split_half \<Rightarrow> nat \<Rightarrow> split_half" where
  "set_len v len = (if len < view_len v then v\<lparr>view_len := len\<rparr> else v)"

text \<open>\<open>DynAlignedBuf::truncate\<close>.\<close>

definition truncate_view :: "split_half \<Rightarrow> nat \<Rightarrow> split_half" where
  "truncate_view v new_len = (if view_len v \<le> new_len then v else set_len v new_len)"

definition view_ok :: "bytes \<Rightarrow> split_half \<Rightarrow> bool" where
  "view_ok buf v \<longleftrightarrow> view_start v + view_len v \<le> length buf"

definition views_apart :: "split_half \<Rightarrow> split_half \<Rightarrow> bool" where
  "views_apart v w \<longleftrightarrow> view_start v + view_len v \<le> view_start w \<or> view_start w + view_len w \<le> view_start v"

lemma deref_write_same:
  "view_ok buf v \<Longrightarrow> length bs = view_len v \<Longrightarrow> deref (deref_write v bs buf) v = bs"
  by (simp add: deref_def deref_write_def slice_def view_ok_def)

lemma deref_write_apart:
  assumes "view_ok buf v" "view_ok buf w" "views_apart v w" "length bs = view_len v"
  shows "deref (deref_write v bs buf) w = deref buf w"
proof (rule nth_equalityI)
  show "length (deref (deref_write v bs buf) w) = length (deref buf w)"
    using assms by (auto simp: deref_def deref_write_def slice_def view_ok_def views_apart_def)
  fix i assume "i < length (deref (deref_write v bs buf) w)"
  then show "deref (deref_write v bs buf) w ! i = deref buf w ! i"
    using assms by (auto simp: deref_def deref_write_def slice_def view_ok_def views_apart_def nth_append)
qed

section \<open>Streams\<close>

datatype io_error = InvalidInput | UnexpectedEof | DriverError nat

type_synonym 'a io_result = "(io_error, 'a) outcome"
type_synonym managed_read = "nat \<Rightarrow> nat \<Rightarrow> bytes option io_result"

text \<open>A buffer with its offset in the file, which is negative for a window before it.\<close>

type_synonym aligned_buf = "bytes \<times> int"

definition read_buf :: "managed_read \<Rightarrow> nat \<Rightarrow> nat \<Rightarrow> nat \<Rightarrow> aligned_buf io_result option" where
  "read_buf read_at len pos file_start =
     (if len = 0 then None
      else let file_offset = int pos - int file_start
           in if file_offset < - (2 ^ 63) \<or> 2 ^ 63 \<le> file_offset then Some (Err InvalidInput)
              else case read_at len pos of
                     Ok None \<Rightarrow> None
                   | Ok (Some buf) \<Rightarrow>
                       if len \<le> length buf then Some (Ok (buf, file_offset)) else Some (Err UnexpectedEof)
                   | Err e \<Rightarrow> Some (Err e)
                   | Panic \<Rightarrow> Some Panic)"

definition end_bounds :: "u64 \<Rightarrow> u32 \<Rightarrow> u64 \<Rightarrow> u32 \<Rightarrow> (u64 \<times> u64) option" where
  "end_bounds start len file_start file_len =
     (let end = start + ucast len;
          file_end = file_start + ucast file_len
      in if \<not> file_start \<le> start then None
         else if \<not> end \<le> file_end then None
         else Some (end, file_end))"

text \<open>\<open>(start..end).step_by(BUFFER_LEN)\<close>.\<close>

function steps :: "nat \<Rightarrow> nat \<Rightarrow> nat list" where
  "steps pos end = (if pos < end then pos # steps (pos + BUFFER_LEN) end else [])"
  by pat_completeness auto
termination by (relation "measure (\<lambda>(pos, end). end - pos)") auto

declare steps.simps [simp del]

definition body_reads :: "nat \<Rightarrow> nat \<Rightarrow> (nat \<times> nat) list" where
  "body_reads start end = map (\<lambda>pos. (min (end - pos) BUFFER_LEN, pos)) (steps start end)"

definition stream_read ::
  "managed_read \<Rightarrow> u64 \<Rightarrow> u32 \<Rightarrow> u64 \<Rightarrow> u32 \<Rightarrow> aligned_buf io_result list option" where
  "stream_read read_at start len file_start file_len =
     (case end_bounds start len file_start file_len of
        None \<Rightarrow> None
      | Some (end, _) \<Rightarrow>
          Some (List.map_filter (\<lambda>(len, pos). read_buf read_at len pos (unat file_start))
            (body_reads (unat start) (unat end))))"

definition WINDOW_MAX :: nat where "WINDOW_MAX = BUFFER_LEN - WINDOW_SIZE * 2"

definition saturating_add :: "u64 \<Rightarrow> u64 \<Rightarrow> u64" where
  "saturating_add a b = (if unat a + unat b \<le> U64_MAX then a + b else - 1)"

text \<open>One buffer for the range and both windows; \<open>None\<close> hands the file back.\<close>

definition stream_read_one_window ::
  "managed_read \<Rightarrow> u64 \<Rightarrow> u32 \<Rightarrow> u64 \<Rightarrow> u64 \<Rightarrow> aligned_buf io_result list option" where
  "stream_read_one_window read_at start len file_start file_end =
     (if WINDOW_MAX < unat len then None
      else if start < of_nat WINDOW_SIZE then None
      else let pos = start - of_nat WINDOW_SIZE;
               end = min (saturating_add (start + ucast len) (of_nat WINDOW_SIZE)) file_end
           in Some (case read_buf read_at (unat (end - pos)) (unat pos) (unat file_start) of
                None \<Rightarrow> []
              | Some (Err e) \<Rightarrow> [Err e]
              | Some Panic \<Rightarrow> [Panic]
              | Some (Ok (buf, head_offset)) \<Rightarrow>
                  (case split_buf buf WINDOW_SIZE of
                     None \<Rightarrow> [Panic]
                   | Some (head, rest) \<Rightarrow>
                       (case split_again rest (unat len) of
                          None \<Rightarrow> [Panic]
                        | Some (body, tail) \<Rightarrow>
                            let body_offset = head_offset + int WINDOW_SIZE;
                                tail_offset = body_offset + int (unat len)
                            in [Ok (deref buf head, head_offset), Ok (deref buf body, body_offset),
                                Ok (deref buf tail, tail_offset)]))))"

definition stream_read_windows ::
  "managed_read \<Rightarrow> u64 \<Rightarrow> u32 \<Rightarrow> u64 \<Rightarrow> u32 \<Rightarrow> aligned_buf io_result list option" where
  "stream_read_windows read_at start len file_start file_len =
     (case end_bounds start len file_start file_len of
        None \<Rightarrow> None
      | Some (end, file_end) \<Rightarrow>
          (case stream_read_one_window read_at start len file_start file_end of
             Some window \<Rightarrow> Some window
           | None \<Rightarrow>
               let head = (let pos = max (unat start - WINDOW_SIZE) (unat file_start)
                           in (unat start - pos, pos));
                   tail_end = unat end + WINDOW_SIZE
               in if U64_MAX < tail_end then None
                  else Some (List.map_filter (\<lambda>(len, pos). read_buf read_at len pos (unat file_start))
                         (head # body_reads (unat start) (unat end) @
                          [(min tail_end (unat file_end) - unat end, unat end)]))))"

section \<open>What the streams yield\<close>

text \<open>The managed read returns the bytes asked for, when they exist and fit in a buffer.\<close>

definition reads_file :: "managed_read \<Rightarrow> bytes \<Rightarrow> bool" where
  "reads_file read_at file \<longleftrightarrow>
     (\<forall>len pos. 0 < len \<and> len \<le> BUFFER_LEN \<and> pos + len \<le> length file \<longrightarrow>
        read_at len pos = Ok (Some (slice pos (pos + len) file)))"

text \<open>Buffers that are consecutive parts of the file; offsets count from \<open>base\<close>.\<close>

fun chain :: "bytes \<Rightarrow> nat \<Rightarrow> nat \<Rightarrow> aligned_buf list \<Rightarrow> bool" where
  "chain file base pos [] \<longleftrightarrow> True"
| "chain file base pos ((buf, off) # bs) \<longleftrightarrow>
     off = int pos - int base \<and> pos + length buf \<le> length file \<and>
     buf = slice pos (pos + length buf) file \<and> chain file base (pos + length buf) bs"

lemma chain_append:
  "chain file base pos (xs @ ys) \<longleftrightarrow>
     chain file base pos xs \<and> chain file base (pos + length (concat (map fst xs))) ys"
proof (induction xs arbitrary: pos)
  case (Cons x xs)
  then show ?case by (cases x) (auto simp: add.assoc)
qed simp

lemma less_2p63: "n < 2 ^ 63 \<Longrightarrow> int n < 2 ^ 63"
  by simp

lemma read_buf_ok:
  assumes "reads_file read_at file" "0 < len" "len \<le> BUFFER_LEN" "pos + len \<le> length file"
    and "length file < 2 ^ 63" "base \<le> length file"
  shows "read_buf read_at len pos base = Some (Ok (slice pos (pos + len) file, int pos - int base))"
proof -
  have r: "read_at len pos = Ok (Some (slice pos (pos + len) file))"
    using assms(1-4) unfolding reads_file_def by blast
  have "int pos < 2 ^ 63" "int base < 2 ^ 63"
    using assms(4-6) by (auto intro!: less_2p63)
  then have b: "\<not> (int pos - int base < - (2 ^ 63) \<or> 2 ^ 63 \<le> int pos - int base)" by linarith
  have l: "length (slice pos (pos + len) file) = len" using assms(4) by (simp add: length_slice)
  show ?thesis unfolding read_buf_def Let_def r
    using b l assms(2) by (simp only: if_False option.case outcome.case) simp
qed

lemma map_filter_Cons:
  "List.map_filter f (x # xs) = (case f x of None \<Rightarrow> [] | Some y \<Rightarrow> [y]) @ List.map_filter f xs"
  by (simp add: List.map_filter_def split: option.split)

lemma steps_Cons: "pos < end \<Longrightarrow> steps pos end = pos # steps (pos + BUFFER_LEN) end"
  by (subst steps.simps) simp

lemma steps_Nil: "end \<le> pos \<Longrightarrow> steps pos end = []"
  by (subst steps.simps) simp

lemma body_reads_chain:
  assumes "reads_file read_at file" "end \<le> length file" "length file < 2 ^ 63" "base \<le> length file"
  shows "\<exists>bs. List.map_filter (\<lambda>(len, pos). read_buf read_at len pos base) (body_reads pos end) = map Ok bs \<and>
    chain file base pos bs \<and> (pos \<le> end \<longrightarrow> concat (map fst bs) = slice pos end file) \<and>
    (\<forall>i < length bs. snd (bs ! i) = int (pos + i * BUFFER_LEN) - int base) \<and>
    (\<forall>b \<in> set bs. fst b \<noteq> [] \<and> length (fst b) \<le> BUFFER_LEN)"
  using assms
proof (induction pos "end" rule: steps.induct)
  case (1 pos "end")
  show ?case
  proof (cases "pos < end")
    case False
    then show ?thesis by (intro exI [of _ "[]"]) (simp add: body_reads_def steps_Nil slice_def List.map_filter_def)
  next
    case True
    define n where "n = min (end - pos) BUFFER_LEN"
    have n: "0 < n" "n \<le> BUFFER_LEN" "pos + n \<le> end" using True by (simp_all add: n_def)
    have rd: "read_buf read_at n pos base = Some (Ok (slice pos (pos + n) file, int pos - int base))"
      by (rule read_buf_ok [OF 1(2) n(1,2) _ 1(4,5)]) (use n(3) 1(3) in simp)
    obtain bs where bs: "List.map_filter (\<lambda>(len, pos). read_buf read_at len pos base) (body_reads (pos + BUFFER_LEN) end) = map Ok bs"
      "chain file base (pos + BUFFER_LEN) bs"
      "pos + BUFFER_LEN \<le> end \<longrightarrow> concat (map fst bs) = slice (pos + BUFFER_LEN) end file"
      "\<forall>i < length bs. snd (bs ! i) = int (pos + BUFFER_LEN + i * BUFFER_LEN) - int base"
      "\<forall>b \<in> set bs. fst b \<noteq> [] \<and> length (fst b) \<le> BUFFER_LEN"
      using 1(1)[OF True 1(2-5)] by blast
    have br: "body_reads pos end = (n, pos) # body_reads (pos + BUFFER_LEN) end"
      using True by (simp add: body_reads_def steps_Cons n_def)
    let ?b = "(slice pos (pos + n) file, int pos - int base)"
    have lb: "length (fst ?b) = n" using n(3) 1(3) by (simp add: length_slice)
    have mf: "List.map_filter (\<lambda>(len, pos). read_buf read_at len pos base) (body_reads pos end) = map Ok (?b # bs)"
      by (simp only: br map_filter_Cons prod.case rd option.case bs(1) list.map append_Cons append_Nil)
    have rest: "chain file base (pos + n) bs \<and> concat (map fst bs) = slice (pos + n) end file"
    proof (cases "pos + BUFFER_LEN \<le> end")
      case True
      then show ?thesis using bs(2,3) by (simp add: n_def)
    next
      case False
      then have "n = end - pos" "bs = []"
        using bs(1) by (simp_all add: n_def body_reads_def steps_Nil List.map_filter_def)
      then show ?thesis using True by (simp add: slice_def)
    qed
    show ?thesis
    proof (intro exI [of _ "?b # bs"] conjI impI allI ballI)
      show "chain file base pos (?b # bs)"
        using rest lb n(3) 1(3) by (simp only: chain.simps fst_conv) simp
      show "concat (map fst (?b # bs)) = slice pos end file"
        using rest n(3) by (simp add: slice_append)
    next
      fix i assume "i < length (?b # bs)"
      then show "snd ((?b # bs) ! i) = int (pos + i * BUFFER_LEN) - int base"
        using bs(4) by (cases i) (auto simp: algebra_simps)
    next
      fix b assume "b \<in> set (?b # bs)"
      then show "fst b \<noteq> []" "length (fst b) \<le> BUFFER_LEN"
        using bs(5) lb n(1,2) by (auto simp del: BUFFER_LEN_eq)
    qed (rule mf)
  qed
qed

lemma end_bounds_ok:
  assumes "file_start \<le> start" "unat start + unat len \<le> unat file_start + unat file_len"
    "unat file_start + unat file_len < 2 ^ 63"
  shows "end_bounds start len file_start file_len = Some (start + ucast len, file_start + ucast file_len)"
    "unat (start + ucast len) = unat start + unat len"
    "unat (file_start + ucast file_len) = unat file_start + unat file_len"
proof -
  have u: "unat (ucast x :: u64) = unat x" for x :: u32
    by (simp add: unsigned_ucast_eq take_bit_nat_eq_self unsigned_less [THEN less_le_trans])
  show a: "unat (start + ucast len) = unat start + unat len"
    using assms(2,3) by (subst unat_add_lem [THEN iffD1]) (simp_all add: u)
  show b: "unat (file_start + ucast file_len) = unat file_start + unat file_len"
    using assms(3) by (subst unat_add_lem [THEN iffD1]) (simp_all add: u)
  show "end_bounds start len file_start file_len = Some (start + ucast len, file_start + ucast file_len)"
    using assms(1,2) by (simp add: end_bounds_def Let_def word_le_nat_alt a b)
qed

lemma stream_read_covers:
  assumes "reads_file read_at file" "file_start \<le> start"
    "unat start + unat len \<le> unat file_start + unat file_len"
    "unat file_start + unat file_len \<le> length file" "length file < 2 ^ 63"
  shows "\<exists>bs. stream_read read_at start len file_start file_len = Some (map Ok bs) \<and>
    chain file (unat file_start) (unat start) bs \<and>
    concat (map fst bs) = slice (unat start) (unat start + unat len) file \<and>
    (\<forall>i < length bs. snd (bs ! i) = int (unat start + i * BUFFER_LEN) - int (unat file_start)) \<and>
    (\<forall>b \<in> set bs. fst b \<noteq> [] \<and> length (fst b) \<le> BUFFER_LEN)"
proof -
  have "unat file_start + unat file_len < 2 ^ 63" using assms(4,5) by (rule le_less_trans)
  note e = end_bounds_ok [OF assms(2,3) this]
  have "unat start + unat len \<le> length file" "unat file_start \<le> length file" using assms(3,4) by linarith+
  from body_reads_chain [OF assms(1) this(1) assms(5) this(2), of "unat start"]
  show ?thesis unfolding stream_read_def e(1) option.case prod.case option.inject e(2) by (simp only: le_add1 simp_thms)
qed

lemma map_filter_append: "List.map_filter f (xs @ ys) = List.map_filter f xs @ List.map_filter f ys"
  by (simp add: List.map_filter_def)

definition one_read :: "bytes \<Rightarrow> nat \<Rightarrow> nat \<Rightarrow> nat \<Rightarrow> aligned_buf list" where
  "one_read file base a b = (if a = b then [] else [(slice a b file, int a - int base)])"

lemma one_read_facts:
  assumes "a \<le> b" "b \<le> length file"
  shows "chain file base a (one_read file base a b)" "concat (map fst (one_read file base a b)) = slice a b file"
    "length (one_read file base a b) \<le> 1" "\<forall>x \<in> set (one_read file base a b). fst x \<noteq> []"
  using assms by (auto simp: one_read_def length_slice slice_def)

lemma read_buf_one:
  assumes "reads_file read_at file" "a \<le> b" "b - a \<le> BUFFER_LEN" "b \<le> length file"
    and "length file < 2 ^ 63" "base \<le> length file"
  shows "List.map_filter (\<lambda>(len, pos). read_buf read_at len pos base) [(b - a, a)] = map Ok (one_read file base a b)"
proof (cases "a = b")
  case True
  then show ?thesis by (simp add: List.map_filter_def read_buf_def one_read_def)
next
  case False
  then have "read_buf read_at (b - a) a base = Some (Ok (slice a (a + (b - a)) file, int a - int base))"
    using assms by (intro read_buf_ok) simp_all
  then show ?thesis using False assms(2) by (simp add: List.map_filter_def one_read_def)
qed

text \<open>The stream with windows: at most one buffer before the range, the range in buffers of
  \<open>BUFFER_LEN\<close>, at most one buffer behind it.\<close>

definition windowed ::
  "bytes \<Rightarrow> nat \<Rightarrow> nat \<Rightarrow> nat \<Rightarrow> nat \<Rightarrow> aligned_buf list \<Rightarrow> aligned_buf list \<Rightarrow> aligned_buf list \<Rightarrow> bool" where
  "windowed file base start stop limit hs ms ts \<longleftrightarrow>
     (\<exists>p. (p = base \<or> p + WINDOW_SIZE = start) \<and> p \<le> start \<and> chain file base p (hs @ ms @ ts) \<and>
        concat (map fst hs) = slice p start file) \<and>
     concat (map fst ms) = slice start stop file \<and>
     concat (map fst ts) = slice stop (min (stop + WINDOW_SIZE) limit) file \<and>
     length hs \<le> 1 \<and> length ts \<le> 1 \<and>
     (\<forall>b \<in> set hs. fst b \<noteq> []) \<and> (start < stop \<longrightarrow> (\<forall>b \<in> set ms. fst b \<noteq> [])) \<and>
     (\<forall>i < length ms. snd (ms ! i) = int (start + i * BUFFER_LEN) - int base)"

lemma windowedI:
  assumes "chain file base p hs" "chain file base start ms" "chain file base stop ts"
    and "concat (map fst hs) = slice p start file" "concat (map fst ms) = slice start stop file"
    and "concat (map fst ts) = slice stop (min (stop + WINDOW_SIZE) limit) file"
    and "length hs \<le> 1" "length ts \<le> 1"
    and "\<forall>i < length ms. snd (ms ! i) = int (start + i * BUFFER_LEN) - int base"
    and "\<forall>b \<in> set hs. fst b \<noteq> []" "start < stop \<longrightarrow> (\<forall>b \<in> set ms. fst b \<noteq> [])"
    and "p = base \<or> p + WINDOW_SIZE = start" "p \<le> start" "start \<le> stop" "stop \<le> length file"
  shows "windowed file base start stop limit hs ms ts"
proof -
  have "chain file base p (hs @ ms @ ts)"
    using assms(1-5,13-15) by (simp add: chain_append length_slice)
  then show ?thesis unfolding windowed_def using assms(4-13) by blast
qed

lemma unat_WINDOW_SIZE: "unat (of_nat WINDOW_SIZE :: u64) = WINDOW_SIZE"
  by simp

lemma one_window_covers:
  assumes "reads_file read_at file" "file_start \<le> start"
    and "unat start + unat len \<le> unat file_start + unat (file_len :: u32)"
    and "unat file_start + unat file_len \<le> length file" "length file < 2 ^ 63"
    and "unat len \<le> WINDOW_MAX" "\<not> start < of_nat WINDOW_SIZE"
  shows "\<exists>hs ms ts.
    stream_read_one_window read_at start len file_start (file_start + ucast file_len) = Some (map Ok (hs @ ms @ ts)) \<and>
    windowed file (unat file_start) (unat start) (unat start + unat len) (unat file_start + unat file_len) hs ms ts"
proof -
  let ?s = "unat start" and ?l = "unat len" and ?base = "unat file_start"
  let ?fe = "unat file_start + unat file_len"
  have "?fe < 2 ^ 63" using assms(4,5) by (rule le_less_trans)
  note e = end_bounds_ok [OF assms(2,3) this]
  define p where "p = ?s - 64"
  define q where "q = min (?s + ?l + 64) ?fe"
  have s: "64 \<le> ?s" using assms(7) by (simp add: word_less_nat_alt)
  have l: "?l \<le> 32640" using assms(6) by (simp add: WINDOW_MAX_def)
  have upos: "unat (start - of_nat WINDOW_SIZE) = p"
    using s by (simp add: unat_sub_if' p_def)
  have uend: "unat (min (saturating_add (start + ucast len) (of_nat WINDOW_SIZE)) (file_start + ucast file_len)) = q"
  proof -
    have "unat (saturating_add (start + ucast len) (of_nat WINDOW_SIZE)) = ?s + ?l + 64"
      using assms(3) \<open>?fe < 2 ^ 63\<close> e(2) by (simp add: saturating_add_def unat_plus_if')
    then show ?thesis by (simp add: min_def word_le_nat_alt e(3) q_def)
  qed
  have pq: "p + 64 = ?s" "?s + ?l \<le> q" "q \<le> length file" "0 < q - p" "q - p \<le> BUFFER_LEN" "p \<le> q"
    using s l assms(3,4) by (auto simp: p_def q_def)
  have ulen: "unat (min (saturating_add (start + ucast len) (of_nat WINDOW_SIZE)) (file_start + ucast file_len)
      - (start - of_nat WINDOW_SIZE)) = q - p"
    using upos uend pq(6) by (simp only: unat_sub_if' if_True)
  have rd: "read_buf read_at (q - p) p ?base = Some (Ok (slice p q file, int p - int ?base))"
    using read_buf_ok [OF assms(1) pq(4,5) _ assms(5), of p ?base] pq(3,6) assms(4) by simp
  let ?buf = "slice p q file"
  have lb: "length ?buf = q - p" using pq(3) by (rule length_slice)
  let ?h = "(slice p ?s file, int p - int ?base)" and ?m = "(slice ?s (?s + ?l) file, int ?s - int ?base)"
    and ?t = "(slice (?s + ?l) q file, int (?s + ?l) - int ?base)"
  have views: "slice 0 64 ?buf = fst ?h" "slice 64 (64 + ?l) ?buf = fst ?m"
      "slice (64 + ?l) (q - p) ?buf = fst ?t"
    using pq(1,2) unfolding pq(1) [symmetric]
    by (auto simp: slice_def drop_take add.commute add.left_commute min_def)
  have offs: "int p - int ?base + int WINDOW_SIZE = snd ?m" "snd ?m + int ?l = snd ?t"
    using pq(1) [THEN arg_cong [where f = int]] by simp_all
  have le: "64 \<le> q - p" "?l \<le> q - p - 64" using pq(1,2) by linarith+
  have "stream_read_one_window read_at start len file_start (file_start + ucast file_len) =
      Some (map Ok ([?h] @ [?m] @ [?t]))"
  proof -
    have v1: "split_buf ?buf WINDOW_SIZE = Some (\<lparr>view_start = 0, view_len = 64\<rparr>, \<lparr>view_start = 64, view_len = q - p - 64\<rparr>)"
      using le by (simp add: split_buf_def lb)
    have v2: "split_again \<lparr>view_start = 64, view_len = q - p - 64\<rparr> ?l =
        Some (\<lparr>view_start = 64, view_len = ?l\<rparr>, \<lparr>view_start = 64 + ?l, view_len = q - p - 64 - ?l\<rparr>)"
      using le by (simp add: split_again_def)
    have d: "deref ?buf \<lparr>view_start = 0, view_len = 64\<rparr> = fst ?h"
      "deref ?buf \<lparr>view_start = 64, view_len = ?l\<rparr> = fst ?m"
      "deref ?buf \<lparr>view_start = 64 + ?l, view_len = q - p - 64 - ?l\<rparr> = fst ?t"
      using views le by (simp_all add: deref_def)
    show ?thesis
      unfolding stream_read_one_window_def Let_def ulen upos rd option.case outcome.case prod.case v1 v2 d offs
      using assms(6,7) by (simp add: offs)
  qed
  moreover have "windowed file ?base ?s (?s + ?l) ?fe [?h] [?m] [?t]"
    by (rule windowedI [where p = p]) (use pq q_def assms(4) in \<open>auto simp: length_slice slice_def\<close>)
  ultimately show ?thesis by blast
qed

lemma windows_cover:
  assumes "reads_file read_at file" "file_start \<le> start"
    and "unat start + unat len \<le> unat file_start + unat (file_len :: u32)"
    and "unat file_start + unat file_len \<le> length file" "length file < 2 ^ 63"
  shows "\<exists>hs ms ts. stream_read_windows read_at start len file_start file_len = Some (map Ok (hs @ ms @ ts)) \<and>
    windowed file (unat file_start) (unat start) (unat start + unat len) (unat file_start + unat file_len) hs ms ts"
proof -
  let ?s = "unat start" and ?base = "unat file_start" and ?fe = "unat file_start + unat file_len"
  let ?e = "?s + unat len"
  have fe: "?fe < 2 ^ 63" using assms(4,5) by (rule le_less_trans)
  note e = end_bounds_ok [OF assms(2,3) fe]
  show ?thesis
  proof (cases "unat len \<le> WINDOW_MAX \<and> \<not> start < of_nat WINDOW_SIZE")
    case True
    then obtain hs ms ts where "stream_read_one_window read_at start len file_start (file_start + ucast file_len) =
        Some (map Ok (hs @ ms @ ts))" "windowed file ?base ?s ?e ?fe hs ms ts"
      using one_window_covers [OF assms] by blast
    then show ?thesis by (auto simp: stream_read_windows_def e(1))
  next
    case False
    then have none: "stream_read_one_window read_at start len file_start (file_start + ucast file_len) = None"
      by (auto simp: stream_read_one_window_def linorder_not_le)
    define p where "p = max (?s - WINDOW_SIZE) ?base"
    define q where "q = min (?e + WINDOW_SIZE) ?fe"
    have b: "?base \<le> ?s" using assms(2) by (simp add: word_le_nat_alt)
    have p: "p \<le> ?s" "?s - p \<le> BUFFER_LEN" "?s \<le> length file" "?base \<le> length file"
      using b assms(3,4) by (auto simp: p_def)
    have q: "?e \<le> q" "q - ?e \<le> BUFFER_LEN" "q \<le> length file" "?e \<le> length file"
      using assms(3,4) by (auto simp: q_def)
    have po: "p = ?base \<or> p + WINDOW_SIZE = ?s" using b by (auto simp: p_def max_def)
    obtain ms where ms: "List.map_filter (\<lambda>(len, pos). read_buf read_at len pos ?base) (body_reads ?s ?e) = map Ok ms"
      "chain file ?base ?s ms" "concat (map fst ms) = slice ?s ?e file"
      "\<forall>i < length ms. snd (ms ! i) = int (?s + i * BUFFER_LEN) - int ?base"
      "\<forall>b \<in> set ms. fst b \<noteq> []"
      using body_reads_chain [OF assms(1) q(4) assms(5) p(4), of ?s] by auto
    let ?hs = "one_read file ?base p ?s" and ?ts = "one_read file ?base ?e q"
    have max: "\<not> U64_MAX < ?e + WINDOW_SIZE" using assms(3) fe by simp
    have "stream_read_windows read_at start len file_start file_len = Some (map Ok (?hs @ ms @ ?ts))"
    proof -
      have h: "List.map_filter (\<lambda>(len, pos). read_buf read_at len pos ?base) [(?s - p, p)] = map Ok ?hs"
        by (rule read_buf_one [OF assms(1) p(1,2,3) assms(5) p(4)])
      have t: "List.map_filter (\<lambda>(len, pos). read_buf read_at len pos ?base) [(q - ?e, ?e)] = map Ok ?ts"
        by (rule read_buf_one [OF assms(1) q(1,2,3) assms(5) p(4)])
      let ?f = "\<lambda>(len, pos). read_buf read_at len pos ?base"
      have "List.map_filter ?f ((?s - p, p) # body_reads ?s ?e @ [(q - ?e, ?e)]) =
          List.map_filter ?f ([(?s - p, p)] @ body_reads ?s ?e @ [(q - ?e, ?e)])" by simp
      also have "\<dots> = map Ok (?hs @ ms @ ?ts)"
        unfolding map_filter_append h ms(1) t map_append ..
      finally have "List.map_filter ?f ((?s - p, p) # body_reads ?s ?e @ [(q - ?e, ?e)]) = map Ok (?hs @ ms @ ?ts)" .
      then show ?thesis
        unfolding stream_read_windows_def e option.case prod.case none Let_def
          p_def [symmetric] q_def [symmetric] if_not_P [OF max] by simp
    qed
    moreover have "windowed file ?base ?s ?e ?fe ?hs ms ?ts"
      using one_read_facts [OF p(1,3)] one_read_facts [OF q(1,3)] ms(2-5) po p(1) q(4)
      by (intro windowedI [where p = p]) (simp_all add: q_def)
    ultimately show ?thesis by blast
  qed
qed

section \<open>Properties\<close>

text \<open>C12: in every reachable state of the buffer pool, allocation fails exactly when all 64
  buffers are handed out, a buffer it returns is aligned, inside the array and overlaps no
  buffer that is handed out, and every buffer handed out can be returned.\<close>

theorem pool_safe:
  assumes "pool_step\<^sup>*\<^sup>* (pool_new, {}) (w, held)"
  shows "(allocate BUFFER_LEN w = None \<longleftrightarrow> card held = POOL_SIZE) \<and>
    (\<forall>p w'. allocate BUFFER_LEN w = Some (p, w') \<longrightarrow>
       ALIGNMENT dvd p \<and> p + BUFFER_LEN \<le> POOL_SIZE * BUFFER_LEN \<and>
       (\<forall>q \<in> held. p + BUFFER_LEN \<le> q \<or> q + BUFFER_LEN \<le> p)) \<and>
    (\<forall>p \<in> held. deallocate p BUFFER_LEN w \<noteq> None)"
proof -
  note part = pool_reachable [OF assms]
  have inj: "inj_on (\<lambda>i. i * BUFFER_LEN) {..<64}" by (simp add: inj_on_def)
  have card: "card pool_ptrs = POOL_SIZE"
    unfolding pool_ptrs_def card_image [OF inj] by (simp add: POOL_SIZE_def)
  have held: "held \<subseteq> pool_ptrs" using part by (auto simp: pool.partition_def)
  show ?thesis
  proof (intro conjI allI impI ballI)
    show "allocate BUFFER_LEN w = None \<longleftrightarrow> card held = POOL_SIZE"
      using pool.exhausted [OF part] by (simp add: allocate_def card)
  next
    fix p w' assume "allocate BUFFER_LEN w = Some (p, w')"
    then have p: "p \<in> pool_ptrs" "p \<notin> held"
      using pool.partition_alloc [OF part] by (auto simp: allocate_def)
    then show "ALIGNMENT dvd p" "p + BUFFER_LEN \<le> POOL_SIZE * BUFFER_LEN"
      by (auto simp: pool_ptrs_def ALIGNMENT_def POOL_SIZE_def)
    fix q assume "q \<in> held"
    then show "p + BUFFER_LEN \<le> q \<or> q + BUFFER_LEN \<le> p"
      using p held by (intro pool_ptrs_apart) auto
  next
    fix p assume "p \<in> held"
    then show "deallocate p BUFFER_LEN w \<noteq> None"
      using pool.free_held [OF part] by (simp add: deallocate_def)
  qed
qed

theorem pool_safe_witness:
  "allocate BUFFER_LEN (pool_new AND NOT (shl1 0)) \<noteq> None"
proof -
  have "Min {..<64 :: nat} = 0" by (rule Min_eqI) auto
  then have "allocate BUFFER_LEN pool_new = Some (0, pool_new AND NOT (shl1 0))"
    by (simp add: allocate_def pool_alloc_set free_set_new lessThan_empty_iff)
  then have "pool_step\<^sup>*\<^sup>* (pool_new, {}) (pool_new AND NOT (shl1 0), {0})"
    by (intro r_into_rtranclp pool_step.alloc)
  from pool_safe [OF this] show ?thesis by (simp add: POOL_SIZE_def)
qed

text \<open>The bounds check of a free counts blocks where it steps in buffers: a pointer behind the
  array passes it, and marks a buffer as free that nobody returned.\<close>

theorem free_bound_too_loose:
  assumes "POOL_SIZE \<le> i" "i < ARRAY_BLOCKS"
  shows "POOL_SIZE * BUFFER_LEN \<le> i * BUFFER_LEN \<and>
    pool_free (i * BUFFER_LEN) w = Some (w OR shl1 (i mod POOL_SIZE))"
  using assms
  by (simp_all add: pool_free_def ALIGNMENT_def ARRAY_BLOCKS_def POOL_SIZE_def BUFFER_BLOCKS_def Let_def
      mod_mult_right_eq)

theorem free_bound_too_loose_witness: "pool_free (64 * BUFFER_LEN) 0 = Some (shl1 0)"
  using free_bound_too_loose [of 64 0] by (simp add: POOL_SIZE_def ARRAY_BLOCKS_def BUFFER_BLOCKS_def)

text \<open>The two views of a split buffer cover it and are independent: a write through one is
  what it reads back and leaves the other as it was, also after a truncation; splitting out of
  range panics.\<close>

theorem split_views_independent:
  assumes "split_buf buf index = Some (a, b)" "length xs = index" "length ys = length buf - index"
  shows "deref buf a @ deref buf b = buf \<and>
    deref (deref_write a xs buf) a = xs \<and> deref (deref_write a xs buf) b = deref buf b \<and>
    deref (deref_write b ys buf) b = ys \<and> deref (deref_write b ys buf) a = deref buf a \<and>
    deref buf (truncate_view a n) = take n (deref buf a) \<and>
    deref (deref_write a xs buf) (truncate_view b n) = take n (deref buf b) \<and>
    (length buf < k \<longrightarrow> split_buf buf k = None)"
proof -
  have ab: "a = \<lparr>view_start = 0, view_len = index\<rparr>"
    "b = \<lparr>view_start = index, view_len = length buf - index\<rparr>" "index \<le> length buf"
    using assms(1) by (auto simp: split_buf_def split: if_splits)
  have ok: "view_ok buf a" "view_ok buf b" "views_apart a b" "views_apart b a"
    using ab by (auto simp: view_ok_def views_apart_def)
  have w: "deref (deref_write a xs buf) a = xs" "deref (deref_write b ys buf) b = ys"
    "deref (deref_write a xs buf) b = deref buf b" "deref (deref_write b ys buf) a = deref buf a"
    using assms(2,3) ok ab by (auto intro!: deref_write_same deref_write_apart)
  have t: "deref buf' (truncate_view v n) = take n (deref buf' v)" for buf' v
    by (simp add: deref_def truncate_view_def set_len_def slice_def min_def)
  have "deref buf a @ deref buf b = buf" using ab by (simp add: deref_def slice_def)
  with w t show ?thesis by (simp add: split_buf_def)
qed

theorem split_views_independent_witness:
  "split_buf [1, 2, 3] 2 = Some (\<lparr>view_start = 0, view_len = 2\<rparr>, \<lparr>view_start = 2, view_len = 1\<rparr>) \<and>
   deref (deref_write \<lparr>view_start = 0, view_len = 2\<rparr> [8, 9] [1, 2, 3]) \<lparr>view_start = 2, view_len = 1\<rparr> = [3]"
  using split_views_independent [of "[1, 2, 3]" 2 _ _ "[8, 9]" "[0]"]
  by (simp add: split_buf_def deref_def slice_def)

text \<open>A plain stream yields the requested range exactly: buffers of at most 32 KiB, in
  order, none empty, each with its offset in the file.\<close>

theorem stream_read_exact:
  assumes "reads_file read_at file" "file_start \<le> start"
    "unat start + unat len \<le> unat file_start + unat file_len"
    "unat file_start + unat file_len \<le> length file" "length file < 2 ^ 63"
  shows "\<exists>bs. stream_read read_at start len file_start file_len = Some (map Ok bs) \<and>
    chain file (unat file_start) (unat start) bs \<and>
    concat (map fst bs) = slice (unat start) (unat start + unat len) file \<and>
    (\<forall>i < length bs. snd (bs ! i) = int (unat start + i * BUFFER_LEN) - int (unat file_start)) \<and>
    (\<forall>b \<in> set bs. fst b \<noteq> [] \<and> length (fst b) \<le> BUFFER_LEN)"
  using assms by (rule stream_read_covers)

lemma reads_file_slice: "reads_file (\<lambda>len pos. Ok (Some (slice pos (pos + len) file))) file"
  by (simp add: reads_file_def)

theorem stream_read_exact_witness:
  "\<exists>bs. stream_read (\<lambda>len pos. Ok (Some (slice pos (pos + len) (replicate 100 7)))) 20 10 16 64 = Some (map Ok bs) \<and>
    concat (map fst bs) = replicate 10 7"
  using stream_read_exact [OF reads_file_slice, of 16 20 10 64 "replicate 100 7"]
  by (auto simp: slice_def)

text \<open>C13: a stream with windows yields the requested range with up to 64 bytes of the file
  before it and after it, as one chain of consecutive buffers, whether it is read as one
  buffer or as several.\<close>

theorem stream_read_windows_exact:
  assumes "reads_file read_at file" "file_start \<le> start"
    "unat start + unat len \<le> unat file_start + unat file_len"
    "unat file_start + unat file_len \<le> length file" "length file < 2 ^ 63"
  shows "\<exists>hs ms ts. stream_read_windows read_at start len file_start file_len = Some (map Ok (hs @ ms @ ts)) \<and>
    windowed file (unat file_start) (unat start) (unat start + unat len) (unat file_start + unat file_len) hs ms ts"
  using assms by (rule windows_cover)

theorem stream_read_windows_exact_witness:
  "\<exists>hs ms ts. stream_read_windows (\<lambda>len pos. Ok (Some (slice pos (pos + len) (replicate 300 7)))) 80 10 72 90 =
      Some (map Ok (hs @ ms @ ts)) \<and> concat (map fst ms) = replicate 10 7"
  using stream_read_windows_exact [OF reads_file_slice, of 72 80 10 90 "replicate 300 7"]
  by (fastforce simp: windowed_def slice_def)

end
