(* ===== verification/Encryption.thy ===== *)
theory Encryption
  imports Unaligned Bhd5 Aligned
begin

text \<open>
  The encryption store and the decryption of file data
  (\<open>src/dvdbnd/filesystem/encryption.rs\<close>): the identifiers that index the store, the
  three-slot buffer that keeps the neighbours of the buffer being decrypted, the
  serialised key and range records, and the in-place AES-128-ECB decryption of the part of
  the encrypted ranges that a buffer holds. The block cipher (crate \<open>aes\<close>) is the parameter
  \<open>decrypt_block\<close>, a function of the key and a 16-byte block that returns 16 bytes.
\<close>

definition BLOCK_SIZE :: nat where "BLOCK_SIZE = 16"

datatype store_error =
    TooManyRanges
  | BadRange u64 u64
  | OobRange u64 u64 u64 u32

type_synonym encryption_id = u32

datatype decrypt_error = IdError encryption_id

section \<open>Identifiers\<close>

definition try_from_index :: "nat \<Rightarrow> encryption_id option" where
  "try_from_index index =
     (let n = index XOR U32_MAX in if n = 0 then None else if n < 2 ^ 32 then Some (of_nat n) else None)"

definition into_index :: "encryption_id \<Rightarrow> nat" where
  "into_index eid = unat (eid XOR - 1)"

lemma into_index_eq: "into_index eid = unat eid XOR U32_MAX"
proof -
  have "unat (eid XOR - 1) = unat eid XOR unat (- 1 :: u32)" by (rule unsigned_xor_eq)
  then show ?thesis
    unfolding into_index_def by (simp only: unsigned_minus_1_eq_mask mask_eq_exp_minus_1) simp
qed

lemma xor_U32_MAX_less: "n < 2 ^ 32 \<Longrightarrow> n XOR U32_MAX < 2 ^ 32" for n :: nat
proof -
  assume "n < 2 ^ 32"
  then have "take_bit 32 (n XOR U32_MAX) = n XOR U32_MAX"
    by (simp only: take_bit_xor take_bit_nat_eq_self) (simp add: take_bit_eq_mod)
  then show ?thesis by (metis take_bit_nat_less_exp)
qed

lemma xor_xor_U32_MAX [simp]: "(n XOR U32_MAX) XOR U32_MAX = n" for n :: nat
  by (simp add: xor.assoc)

lemma into_try_from_index:
  "try_from_index n = Some eid \<Longrightarrow> n < 2 ^ 32 \<and> into_index eid = n \<and> eid \<noteq> 0"
proof -
  assume a: "try_from_index n = Some eid"
  then have n: "n XOR U32_MAX < 2 ^ 32" "n XOR U32_MAX \<noteq> 0" and eid: "eid = of_nat (n XOR U32_MAX)"
    by (auto simp: try_from_index_def Let_def split: if_splits)
  have u: "unat eid = n XOR U32_MAX" using n(1) unfolding eid by (simp only: unat_of_nat) simp
  have "n < 2 ^ 32" using xor_U32_MAX_less [OF n(1)] by simp
  moreover have "eid \<noteq> 0" using u n(2) by (metis unsigned_0)
  ultimately show ?thesis using u by (simp add: into_index_eq)
qed

lemma try_from_index_None: "try_from_index n = None \<longleftrightarrow> n = U32_MAX \<or> 2 ^ 32 \<le> n"
proof -
  have "n XOR U32_MAX = 0 \<longleftrightarrow> n = U32_MAX" by (metis xor_self_eq xor_xor_U32_MAX xor.left_neutral)
  moreover have "n XOR U32_MAX < 2 ^ 32 \<longleftrightarrow> n < 2 ^ 32"
    using xor_U32_MAX_less [of n] xor_U32_MAX_less [of "n XOR U32_MAX"] by auto
  ultimately show ?thesis by (auto simp: try_from_index_def Let_def)
qed

section \<open>The window buffer\<close>

datatype pos = P0 | P1 | P2

fun pos_index :: "pos \<Rightarrow> nat" where
  "pos_index P0 = 0" | "pos_index P1 = 1" | "pos_index P2 = 2"

fun pos_next :: "pos \<Rightarrow> pos" where
  "pos_next P0 = P1" | "pos_next P1 = P2" | "pos_next P2 = P0"

fun pos_prev :: "pos \<Rightarrow> pos" where
  "pos_prev P0 = P2" | "pos_prev P1 = P0" | "pos_prev P2 = P1"

record ciphertext_buffer =
  inner :: "aligned_buf option list"
  cb_pos :: pos
  is_pushed :: bool

definition ciphertext_buffer_default :: ciphertext_buffer where
  "ciphertext_buffer_default = \<lparr>inner = [None, None, None], cb_pos = P1, is_pushed = False\<rparr>"

definition slot :: "ciphertext_buffer \<Rightarrow> pos \<Rightarrow> aligned_buf option" where
  "slot cb p = inner cb ! pos_index p"

definition do_push :: "aligned_buf option \<Rightarrow> ciphertext_buffer \<Rightarrow> ciphertext_buffer" where
  "do_push buf cb =
     (let p = pos_next (cb_pos cb)
      in cb\<lparr>cb_pos := p, inner := (inner cb)[pos_index p := buf], is_pushed := True\<rparr>)"

definition cb_push :: "aligned_buf \<Rightarrow> ciphertext_buffer \<Rightarrow> ciphertext_buffer" where
  "cb_push buf cb = do_push (Some buf) cb"

definition cb_finish :: "ciphertext_buffer \<Rightarrow> ciphertext_buffer" where
  "cb_finish cb = do_push None cb"

definition cb_is_empty :: "ciphertext_buffer \<Rightarrow> bool" where
  "cb_is_empty cb \<longleftrightarrow> \<not> is_pushed cb"

definition has_predecessor :: "ciphertext_buffer \<Rightarrow> bool" where
  "has_predecessor cb \<longleftrightarrow> slot cb (pos_prev (cb_pos cb)) \<noteq> None"

text \<open>The position \<open>curr\<close> reads and writes; an empty slot there is a panic (\<open>None\<close>).\<close>

definition curr_pos :: "ciphertext_buffer \<Rightarrow> pos" where
  "curr_pos cb = (if has_predecessor cb then pos_prev (cb_pos cb) else cb_pos cb)"

definition cb_curr :: "ciphertext_buffer \<Rightarrow> aligned_buf option" where
  "cb_curr cb = slot cb (curr_pos cb)"

definition set_curr :: "aligned_buf \<Rightarrow> ciphertext_buffer \<Rightarrow> ciphertext_buffer" where
  "set_curr buf cb = cb\<lparr>inner := (inner cb)[pos_index (curr_pos cb) := Some buf]\<rparr>"

definition cb_prev :: "ciphertext_buffer \<Rightarrow> bytes" where
  "cb_prev cb =
     (if \<not> has_predecessor cb then []
      else case slot cb (pos_prev (pos_prev (cb_pos cb))) of None \<Rightarrow> [] | Some (buf, _) \<Rightarrow> buf)"

definition cb_next :: "ciphertext_buffer \<Rightarrow> bytes" where
  "cb_next cb =
     (if \<not> has_predecessor cb then []
      else case slot cb (cb_pos cb) of None \<Rightarrow> [] | Some (buf, _) \<Rightarrow> buf)"

record ciphertext =
  body :: bytes
  head :: bytes
  tail :: bytes
  ct_file_offset :: u32

definition from_buffer :: "ciphertext_buffer \<Rightarrow> ciphertext option" where
  "from_buffer cb =
     (let prev = cb_prev cb;
          nxt = cb_next cb;
          left = BLOCK_SIZE - length prev;
          right = length prev - BLOCK_SIZE;
          hd = replicate left 0 @ drop right prev;
          len = min (length nxt) BLOCK_SIZE;
          tl = take len nxt @ replicate (BLOCK_SIZE - len) 0
      in case cb_curr cb of
           None \<Rightarrow> None
         | Some (bd, off) \<Rightarrow>
             if 0 \<le> off \<and> off < 2 ^ 32
             then Some \<lparr>body = bd, head = hd, tail = tl, ct_file_offset = of_int off\<rparr>
             else None)"

text \<open>The abstract window: the last three buffers pushed, the latest last.\<close>

type_synonym window = "aligned_buf option \<times> aligned_buf option \<times> aligned_buf option"

fun shift :: "aligned_buf option \<Rightarrow> window \<Rightarrow> window" where
  "shift x (a, b, c) = (b, c, x)"

definition window_of :: "ciphertext_buffer \<Rightarrow> window" where
  "window_of cb = (slot cb (pos_next (cb_pos cb)), slot cb (pos_prev (cb_pos cb)), slot cb (cb_pos cb))"

definition cb_inv :: "ciphertext_buffer \<Rightarrow> bool" where
  "cb_inv cb \<longleftrightarrow> length (inner cb) = 3"

lemma pos_prev_prev [simp]: "pos_prev (pos_prev p) = pos_next p"
  by (cases p) simp_all

lemma pos_index_less [simp]: "pos_index p < 3"
  by (cases p) simp_all

lemma pos_index_inj [simp]: "pos_index p = pos_index q \<longleftrightarrow> p = q"
  by (cases p; cases q) simp_all

lemma pos_next_neq [simp]: "pos_next p \<noteq> p" "pos_prev p \<noteq> p" "pos_next p \<noteq> pos_prev p"
  "p \<noteq> pos_prev p" "p \<noteq> pos_next p" "pos_prev p \<noteq> pos_next p"
  by (cases p; simp)+

lemma pos_next_prev [simp]: "pos_next (pos_prev p) = p" "pos_prev (pos_next p) = p"
  "pos_next (pos_next p) = pos_prev p"
  by (cases p; simp)+

lemma default_inv [wf_intros]: "cb_inv ciphertext_buffer_default"
  by (simp add: cb_inv_def ciphertext_buffer_default_def)

lemma do_push_inv [wf_intros]: "cb_inv cb \<Longrightarrow> cb_inv (do_push x cb)"
  by (simp add: cb_inv_def do_push_def Let_def)

lemma set_curr_inv [wf_intros]: "cb_inv cb \<Longrightarrow> cb_inv (set_curr x cb)"
  by (simp add: cb_inv_def set_curr_def)

lemma window_of_default: "window_of ciphertext_buffer_default = (None, None, None)"
  by (simp add: window_of_def slot_def ciphertext_buffer_default_def)

lemma window_of_push: "cb_inv cb \<Longrightarrow> window_of (do_push x cb) = shift x (window_of cb)"
  by (simp add: window_of_def slot_def do_push_def Let_def cb_inv_def nth_list_update)

text \<open>The views of the buffer in terms of the window.\<close>

lemma window_views:
  assumes "window_of cb = (a, b, c)"
  shows "has_predecessor cb \<longleftrightarrow> b \<noteq> None"
    and "cb_curr cb = (if b \<noteq> None then b else c)"
    and "b \<noteq> None \<Longrightarrow> cb_prev cb = (case a of None \<Rightarrow> [] | Some (buf, _) \<Rightarrow> buf)"
    and "b \<noteq> None \<Longrightarrow> cb_next cb = (case c of None \<Rightarrow> [] | Some (buf, _) \<Rightarrow> buf)"
  using assms
  by (auto simp: window_of_def has_predecessor_def cb_curr_def curr_pos_def cb_prev_def cb_next_def)

lemma window_of_set_curr:
  assumes "cb_inv cb" "window_of cb = (a, b, c)"
  shows "window_of (set_curr x cb) = (if b \<noteq> None then (a, Some x, c) else (a, b, Some x))"
  using assms
  by (auto simp: window_of_def set_curr_def curr_pos_def has_predecessor_def slot_def cb_inv_def
      nth_list_update)

section \<open>The encryption store\<close>

record srange =
  rng_start :: u32
  rng_blocks :: u32

text \<open>\<open>end_offset\<close>; the arithmetic wraps.\<close>

definition rng_end :: "srange \<Rightarrow> u32" where
  "rng_end r = rng_start r + rng_blocks r * of_nat BLOCK_SIZE"

definition srange_bytes :: "srange \<Rightarrow> bytes" where
  "srange_bytes r = u32_new (rng_start r) @ u32_new (rng_blocks r)"

definition decode_srange :: "bytes \<Rightarrow> srange option" where
  "decode_srange bs = Some \<lparr>rng_start = u32_get (field bs 0 4), rng_blocks = u32_get (field bs 4 4)\<rparr>"

text \<open>The tag \<open>Aes128EcbNone\<close>, the key and the 24-bit range count.\<close>

definition header_bytes :: "bytes \<Rightarrow> bytes \<Rightarrow> bytes" where
  "header_bytes k cnt = 0 # k @ cnt"

definition HEADER_LEN :: nat where "HEADER_LEN = 20"

definition saturating_sub :: "'w::len word \<Rightarrow> 'w word \<Rightarrow> 'w word" where
  "saturating_sub a b = (if b \<le> a then a - b else 0)"

fun store_ranges :: "u64 \<Rightarrow> u64 \<Rightarrow> encryption_range list \<Rightarrow> (store_error, srange list) outcome" where
  "store_ranges off fsize [] = Ok []"
| "store_ranges off fsize (r # rs) =
     (let start = start_offset r;
          end = end_offset r;
          len = end - start
      in if len = 0 then store_ranges off fsize rs
         else if end < start \<or> unat len mod BLOCK_SIZE \<noteq> 0 then Err (BadRange start end)
         else if saturating_sub fsize len < start then Err (OobRange start end off (ucast fsize))
         else obind (store_ranges off fsize rs) (\<lambda>out.
                Ok (\<lparr>rng_start = ucast start, rng_blocks = ucast len div of_nat BLOCK_SIZE\<rparr> # out)))"

definition store_encryption ::
  "file_entry \<Rightarrow> encryption \<Rightarrow> bytes \<Rightarrow> (store_error, encryption_id \<times> bytes) outcome" where
  "store_encryption e enc out =
     obind (store_ranges (file_offset e) (ucast (file_size e)) (ranges enc)) (\<lambda>rs.
       let rs = sort_key rng_end rs
       in if U32_MAX < length rs then Err TooManyRanges
          else case u24_try_from (of_nat (length rs)) of
                 None \<Rightarrow> Err TooManyRanges
               | Some cnt \<Rightarrow>
                   (case try_from_index (length out) of
                      None \<Rightarrow> Err TooManyRanges
                    | Some index \<Rightarrow>
                        Ok (index, out @ header_bytes (key enc) cnt @ concat (map srange_bytes rs))))"

section \<open>Decryption\<close>

text \<open>The in-place loop over complete blocks, and the final partial block, completed from the
  tail.\<close>

definition decrypt_blocks :: "(bytes \<Rightarrow> bytes) \<Rightarrow> bytes \<Rightarrow> bytes \<Rightarrow> bytes" where
  "decrypt_blocks decrypt_block tb bytes =
     (let (blocks, rest) = as_chunks BLOCK_SIZE bytes
      in concat (map decrypt_block blocks) @
         (if rest = [] then []
          else let mid = length rest;
                   right = BLOCK_SIZE - mid;
                   block = rest @ take right tb
               in take mid (decrypt_block block)))"

text \<open>
  The branch for a range whose block started in the previous buffer: the block is put together
  from the head, the body and the tail; \<open>left\<close> bytes of it lie before the body. Returned are
  the changed body and the position the rest of the range is decrypted from, which the code
  computes as \<open>file_offset + left_len\<close>.
\<close>

definition decrypt_straddling ::
  "(bytes \<Rightarrow> bytes) \<Rightarrow> u32 \<Rightarrow> bytes \<Rightarrow> bytes \<Rightarrow> u32 \<Rightarrow> bytes \<Rightarrow> bytes \<times> nat" where
  "decrypt_straddling decrypt_block fo hb tb so bytes =
     (let left = unat (fo - so) mod BLOCK_SIZE;
          left_len = BLOCK_SIZE - left;
          mid_len = min left_len (length bytes);
          right = left + mid_len;
          right_len = BLOCK_SIZE - right;
          block = decrypt_block (drop left_len hb @ take mid_len bytes @ take right_len tb)
      in (take mid_len (drop left block) @ drop mid_len bytes, unat fo + left_len))"

fun decrypt_ranges ::
  "(bytes \<Rightarrow> bytes) \<Rightarrow> u32 \<Rightarrow> bytes \<Rightarrow> bytes \<Rightarrow> srange list \<Rightarrow> bytes \<Rightarrow> bytes" where
  "decrypt_ranges decrypt_block fo hb tb [] bytes = bytes"
| "decrypt_ranges decrypt_block fo hb tb (r # rs) bytes =
     (let len = length bytes;
          so = rng_start r
      in if fo + of_nat len \<le> so then bytes
         else
           let so =
                 (if so \<le> fo
                  then so + ((fo - so) AND - of_nat BLOCK_SIZE)
                  else so);
               (bytes, start) =
                 (if so < fo
                  then decrypt_straddling decrypt_block fo hb tb so bytes
                  else (bytes, unat (so - fo)));
               end = min len (unat (rng_end r - fo))
           in if end \<le> start then decrypt_ranges decrypt_block fo hb tb rs bytes
              else decrypt_ranges decrypt_block fo hb tb rs
                     (take start bytes @ decrypt_blocks decrypt_block tb (slice start end bytes) @ drop end bytes))"

text \<open>\<open>Aes128::decrypt\<close>: the ranges are sorted by their ends, so \<open>partition_point\<close> skips the
  ones that end before the buffer.\<close>

definition aes_decrypt ::
  "(bytes \<Rightarrow> bytes \<Rightarrow> bytes) \<Rightarrow> bytes \<Rightarrow> nat \<Rightarrow> ciphertext \<Rightarrow> bytes \<Rightarrow> bytes option" where
  "aes_decrypt decrypt_block k cnt ct data =
     map_option
       (\<lambda>rs. decrypt_ranges (decrypt_block k) (ct_file_offset ct) (head ct) (tail ct)
               (dropWhile (\<lambda>r. rng_end r \<le> ct_file_offset ct) rs) (body ct))
       (ref_elems decode_srange 8 data cnt)"

text \<open>\<open>EncryptionStore::decrypt\<close>; the result is the new content of the body.\<close>

definition store_decrypt ::
  "(bytes \<Rightarrow> bytes \<Rightarrow> bytes) \<Rightarrow> bytes \<Rightarrow> encryption_id \<Rightarrow> ciphertext \<Rightarrow> (decrypt_error, bytes) outcome" where
  "store_decrypt decrypt_block store eid ct =
     (case get_from store (into_index eid) of
        None \<Rightarrow> Err (IdError eid)
      | Some store \<Rightarrow>
          if length store < HEADER_LEN \<or> store ! 0 \<noteq> 0 then Err (IdError eid)
          else case aes_decrypt decrypt_block (field store 1 16) (unat (u24_get (field store 17 3)))
                      ct (drop HEADER_LEN store) of
                 None \<Rightarrow> Err (IdError eid)
               | Some bytes \<Rightarrow> Ok bytes)"

section \<open>Blocks of a region\<close>

text \<open>What the block cipher promises.\<close>

definition block_ok :: "(bytes \<Rightarrow> bytes) \<Rightarrow> bool" where
  "block_ok f \<longleftrightarrow> (\<forall>b. length b = 16 \<longrightarrow> length (f b) = 16)"

lemma block_okD: "block_ok f \<Longrightarrow> length b = 16 \<Longrightarrow> length (f b) = 16"
  by (simp add: block_ok_def)

lemma length_decrypt_blocks:
  assumes "block_ok f" "length tb = 16"
  shows "length (decrypt_blocks f tb bytes) = length bytes"
proof -
  have chunks: "length (concat (map f cs)) = 16 * length cs" if "\<forall>c \<in> set cs. length c = 16" for cs
    using that block_okD [OF assms(1)] by (induction cs) auto
  have "length (snd (as_chunks 16 bytes)) < 16 \<and> (\<forall>c \<in> set (fst (as_chunks 16 bytes)). length c = 16)"
    using as_chunks_length [of 16 bytes] by simp
  moreover have "16 * length cs = length (concat cs)" if "\<forall>c \<in> set cs. length c = 16" for cs :: "bytes list"
    using that by (induction cs) auto
  moreover have "length bytes = length (concat (fst (as_chunks 16 bytes))) + length (snd (as_chunks 16 bytes))"
    using concat_as_chunks [of 16 bytes] by (metis length_append)
  ultimately show ?thesis
    using chunks assms block_okD [OF assms(1)]
    by (auto simp: decrypt_blocks_def BLOCK_SIZE_def case_prod_beta Let_def)
qed

text \<open>Each byte comes from its block; the last block is completed from the tail.\<close>

lemma nth_decrypt_blocks:
  assumes "block_ok f" "length tb = 16" "j < length bytes"
  shows "decrypt_blocks f tb bytes ! j =
    f (take 16 (drop (16 * (j div 16)) bytes @ take (16 - (length bytes - 16 * (j div 16))) tb)) ! (j mod 16)"
  using assms(3)
proof (induction bytes arbitrary: j rule: as_chunks_induct [where n = 16])
  case (short xs)
  then show ?case
    using assms(2) by (auto simp: decrypt_blocks_def BLOCK_SIZE_def as_chunks_short Let_def)
next
  case (step c xs)
  have dec: "decrypt_blocks f tb (c @ xs) = f c @ decrypt_blocks f tb xs"
    using step.hyps by (simp add: decrypt_blocks_def BLOCK_SIZE_def as_chunks_step case_prod_beta Let_def)
  show ?case
  proof (cases "j < 16")
    case True
    then show ?thesis using step.hyps block_okD [OF assms(1) step.hyps] by (simp add: dec nth_append)
  next
    case False
    then have j: "j div 16 = Suc ((j - 16) div 16)" "j mod 16 = (j - 16) mod 16"
      by (simp_all add: le_div_geq le_mod_geq)
    have "decrypt_blocks f tb (c @ xs) ! j = decrypt_blocks f tb xs ! (j - 16)"
      using False block_okD [OF assms(1) step.hyps] by (simp add: dec nth_append)
    then show ?thesis using step False j by simp
  qed
qed simp

section \<open>One range\<close>

definition rng_stop :: "srange \<Rightarrow> nat" where
  "rng_stop r = unat (rng_start r) + 16 * unat (rng_blocks r)"

definition in_range :: "srange \<Rightarrow> nat \<Rightarrow> bool" where
  "in_range r p \<longleftrightarrow> unat (rng_start r) \<le> p \<and> p < rng_stop r"

lemma unat_rng_end: "rng_stop r < 2 ^ 32 \<Longrightarrow> unat (rng_end r) = rng_stop r"
proof -
  assume a: "rng_stop r < 2 ^ 32"
  have "rng_end r = of_nat (rng_stop r)"
    by (simp add: rng_end_def rng_stop_def BLOCK_SIZE_def)
  then show ?thesis using a by (simp only: unat_of_nat) simp
qed

lemma unat_floor16: "unat (w AND - of_nat BLOCK_SIZE :: u32) = unat w - unat w mod 16"
proof -
  have "- of_nat BLOCK_SIZE = (NOT (mask 4) :: u32)"
    using minus_exp_eq_not_mask [of 4, where 'a = u32] by (simp add: BLOCK_SIZE_def)
  moreover have "w AND NOT (mask 4) = w - take_bit 4 w"
    by (subst disjunctive_diff_eq_and_not) (auto simp: take_bit_eq_mask and.assoc and.left_commute bit_eq_iff bit_simps)
  moreover have low: "unat (take_bit 4 w) = unat w mod 16"
  proof -
    have "unat (take_bit 4 w) = take_bit 4 (unat w)" by (rule unsigned_take_bit_eq)
    then show ?thesis by (simp add: take_bit_eq_mod)
  qed
  moreover have "unat (w - take_bit 4 w) = unat w - unat (take_bit 4 w)"
  proof -
    have "unat (take_bit 4 w) \<le> unat w" by (simp only: low)
    then show ?thesis by (simp only: unat_sub_if' if_True)
  qed
  ultimately show ?thesis by simp
qed

text \<open>Where the part of a range that lies in the body begins and ends.\<close>

definition part_start :: "nat \<Rightarrow> srange \<Rightarrow> nat" where
  "part_start fo r = unat (rng_start r) - fo"

definition part_end :: "nat \<Rightarrow> nat \<Rightarrow> srange \<Rightarrow> nat" where
  "part_end fo len r = min len (rng_stop r - fo)"

definition aligned_at :: "nat \<Rightarrow> srange \<Rightarrow> bool" where
  "aligned_at fo r \<longleftrightarrow> (unat (rng_start r) < fo \<longrightarrow> fo < rng_stop r \<longrightarrow> (fo - unat (rng_start r)) mod 16 = 0)"

definition decrypt_part ::
  "(bytes \<Rightarrow> bytes) \<Rightarrow> nat \<Rightarrow> bytes \<Rightarrow> srange \<Rightarrow> bytes \<Rightarrow> bytes" where
  "decrypt_part f fo tb r bytes =
     take (part_start fo r) bytes @
     decrypt_blocks f tb (slice (part_start fo r) (part_end fo (length bytes) r) bytes) @
     drop (part_end fo (length bytes) r) bytes"

lemma decrypt_ranges_step:
  assumes "rng_stop r < 2 ^ 32" "unat fo + length bytes < 2 ^ 32" "unat fo < rng_stop r"
    and "aligned_at (unat fo) r" "unat (rng_start r) < unat fo + length bytes"
    and "0 < rng_blocks r" "bytes \<noteq> []"
  shows "decrypt_ranges f fo hb tb (r # rs) bytes =
    decrypt_ranges f fo hb tb rs (decrypt_part f (unat fo) tb r bytes)"
proof -
  let ?len = "length bytes"
  have len: "unat (fo + of_nat ?len) = unat fo + ?len"
    using assms(2) by (simp add: unat_plus_if' unat_of_nat)
  have no_break: "\<not> fo + of_nat ?len \<le> rng_start r" using assms(5) len by (simp add: word_le_nat_alt)
  have e: "min ?len (unat (rng_end r - fo)) = part_end (unat fo) ?len r"
    using unat_rng_end [OF assms(1)] assms(3)
    by (simp add: part_end_def unat_sub_if' )
  have stop: "unat (rng_start r) < rng_stop r" using assms(6) by (simp add: rng_stop_def word_gt_0 unat_gt_0)
  have ne: "\<not> part_end (unat fo) ?len r \<le> part_start (unat fo) r"
  proof -
    have "0 < length bytes" using assms(7) by simp
    then have "part_start (unat fo) r < length bytes" "part_start (unat fo) r < rng_stop r - unat fo"
      using assms(3,5) stop unfolding part_start_def by linarith+
    then show ?thesis by (simp add: part_end_def)
  qed
  show ?thesis
  proof (cases "rng_start r \<le> fo")
    case True
    have "unat (fo - rng_start r) mod 16 = 0"
      using True assms(3,4) by (cases "rng_start r = fo")
        (auto simp: aligned_at_def word_le_nat_alt unat_sub_if' word_unat_eq_iff)
    then have "unat ((fo - rng_start r) AND - of_nat BLOCK_SIZE) = unat (fo - rng_start r)"
      by (simp add: unat_floor16)
    then have so: "rng_start r + ((fo - rng_start r) AND - of_nat BLOCK_SIZE) = fo"
      by (metis add_diff_cancel_right' add.commute diff_add_cancel word_unat_eq_iff)
    have z: "part_start (unat fo) r = 0" using True by (simp add: part_start_def word_le_nat_alt)
    show ?thesis
      using no_break ne True unfolding decrypt_ranges.simps Let_def so e
      by (simp add: decrypt_part_def z)
  next
    case False
    then have z: "unat (rng_start r - fo) = part_start (unat fo) r"
      by (simp add: part_start_def word_le_nat_alt unat_sub_if')
    show ?thesis
      using no_break ne False linorder_not_less [of "rng_start r" fo]
      unfolding decrypt_ranges.simps Let_def e decrypt_part_def
      by (auto simp: z)
  qed
qed

lemma length_decrypt_part:
  assumes "block_ok f" "length tb = 16"
    and "part_start fo r \<le> part_end fo (length bytes) r"
  shows "length (decrypt_part f fo tb r bytes) = length bytes"
proof -
  have "part_end fo (length bytes) r \<le> length bytes" by (simp add: part_end_def)
  then show ?thesis
    using assms by (simp add: decrypt_part_def length_decrypt_blocks length_slice)
qed

lemma in_range_part:
  assumes "i < len"
  shows "in_range r (fo + i) \<longleftrightarrow> part_start fo r \<le> i \<and> i < part_end fo len r"
  using assms by (auto simp: in_range_def part_start_def part_end_def)

lemma nth_decrypt_part:
  assumes "block_ok f" "length tb = 16"
    and "part_start fo r \<le> part_end fo (length bytes) r" "i < length bytes"
  shows "decrypt_part f fo tb r bytes ! i =
    (if in_range r (fo + i)
     then decrypt_blocks f tb (slice (part_start fo r) (part_end fo (length bytes) r) bytes) ! (i - part_start fo r)
     else bytes ! i)"
proof -
  let ?a = "part_start fo r" and ?e = "part_end fo (length bytes) r"
  have e: "?e \<le> length bytes" by (simp add: part_end_def)
  have len: "length (decrypt_blocks f tb (slice ?a ?e bytes)) = ?e - ?a"
    using assms(1,2) e by (simp add: length_decrypt_blocks length_slice)
  show ?thesis
    unfolding in_range_part [OF assms(4)]
    using assms(3,4) e by (auto simp: decrypt_part_def nth_append len min_def)
qed

text \<open>The slice a range occupies does not change when another range is decrypted.\<close>

lemma slice_decrypt_part:
  assumes "block_ok f" "length tb = 16"
    and "part_start fo r \<le> part_end fo (length bytes) r"
    and "rng_stop r \<le> unat (rng_start r')"
  shows "slice (part_start fo r') (part_end fo (length bytes) r') (decrypt_part f fo tb r bytes) =
    slice (part_start fo r') (part_end fo (length bytes) r') bytes"
proof (rule nth_equalityI)
  let ?a = "part_start fo r'" and ?e = "part_end fo (length bytes) r'"
  have e: "?e \<le> length bytes" by (simp add: part_end_def)
  note len = length_decrypt_part [OF assms(1-3)]
  show "length (slice ?a ?e (decrypt_part f fo tb r bytes)) = length (slice ?a ?e bytes)"
    using e len by (simp add: length_slice)
  fix j assume "j < length (slice ?a ?e (decrypt_part f fo tb r bytes))"
  then have j: "?a + j < ?e" using e len by (simp add: length_slice)
  then have "in_range r' (fo + (?a + j))" using in_range_part [of "?a + j" "length bytes" r' fo] e by simp
  then have "\<not> in_range r (fo + (?a + j))" using assms(4) by (auto simp: in_range_def)
  moreover have "?a + j < length bytes" using j e by simp
  ultimately have "decrypt_part f fo tb r bytes ! (?a + j) = bytes ! (?a + j)"
    using nth_decrypt_part [OF assms(1-3)] by simp
  then show "slice ?a ?e (decrypt_part f fo tb r bytes) ! j = slice ?a ?e bytes ! j"
    using j e len by (simp add: slice_def)
qed

section \<open>All ranges\<close>

definition disjoint_ranges :: "srange list \<Rightarrow> bool" where
  "disjoint_ranges rs \<longleftrightarrow> sorted_wrt (\<lambda>a b. rng_stop a \<le> unat (rng_start b)) rs"

lemma decrypt_ranges_nth:
  assumes f: "block_ok f" and tb: "length tb = 16"
    and "disjoint_ranges rs"
    and "\<forall>r \<in> set rs. rng_stop r < 2 ^ 32 \<and> unat fo < rng_stop r \<and> aligned_at (unat fo) r \<and> 0 < rng_blocks r"
    and "unat fo + length bytes < 2 ^ 32" "bytes \<noteq> []"
  shows "length (decrypt_ranges f fo hb tb rs bytes) = length bytes \<and>
    (\<forall>i < length bytes. decrypt_ranges f fo hb tb rs bytes ! i =
      (case find (\<lambda>r. in_range r (unat fo + i)) rs of
         None \<Rightarrow> bytes ! i
       | Some r \<Rightarrow> decrypt_blocks f tb
           (slice (part_start (unat fo) r) (part_end (unat fo) (length bytes) r) bytes) ! (i - part_start (unat fo) r)))"
  using assms(3-6)
proof (induction rs arbitrary: bytes)
  case (Cons r rs)
  let ?len = "length bytes"
  have r: "rng_stop r < 2 ^ 32" "unat fo < rng_stop r" "aligned_at (unat fo) r" "0 < rng_blocks r"
    using Cons.prems(2) by simp_all
  have later: "rng_stop r \<le> unat (rng_start r')" if "r' \<in> set rs" for r'
    using Cons.prems(1) that by (simp add: disjoint_ranges_def)
  have stop: "unat (rng_start r) < rng_stop r" using r(4) by (simp add: rng_stop_def unat_gt_0)
  show ?case
  proof (cases "unat (rng_start r) < unat fo + ?len")
    case False
    have "\<not> in_range r' (unat fo + i)" if "i < ?len" "r' \<in> set (r # rs)" for i r'
      using False that later stop by (fastforce simp: in_range_def)
    then have none: "find (\<lambda>r. in_range r (unat fo + i)) (r # rs) = None" if "i < ?len" for i
      using that unfolding find_None_iff by blast
    have "fo + of_nat ?len \<le> rng_start r"
      using False Cons.prems(3) by (simp add: word_le_nat_alt unat_plus_if' unat_of_nat)
    then have "decrypt_ranges f fo hb tb (r # rs) bytes = bytes" by simp
    then show ?thesis using none by (simp del: find.simps decrypt_ranges.simps)
  next
    case True
    let ?bytes = "decrypt_part f (unat fo) tb r bytes"
    have step: "decrypt_ranges f fo hb tb (r # rs) bytes = decrypt_ranges f fo hb tb rs ?bytes"
      using True r Cons.prems(3,4) by (intro decrypt_ranges_step) simp_all
    have part: "part_start (unat fo) r \<le> part_end (unat fo) ?len r"
      using True r(2) stop unfolding part_start_def part_end_def by simp linarith
    have len: "length ?bytes = ?len" by (rule length_decrypt_part [OF f tb part])
    have dis: "disjoint_ranges rs" using Cons.prems(1) by (simp add: disjoint_ranges_def)
    have IH: "length (decrypt_ranges f fo hb tb rs ?bytes) = ?len \<and>
      (\<forall>i < ?len. decrypt_ranges f fo hb tb rs ?bytes ! i =
        (case find (\<lambda>r. in_range r (unat fo + i)) rs of
           None \<Rightarrow> ?bytes ! i
         | Some r \<Rightarrow> decrypt_blocks f tb
             (slice (part_start (unat fo) r) (part_end (unat fo) ?len r) ?bytes) ! (i - part_start (unat fo) r)))"
    proof -
      have "?bytes \<noteq> []" using len Cons.prems(4) by (metis length_0_conv)
      then show ?thesis using Cons.IH [OF dis, of ?bytes] Cons.prems(2,3) unfolding len by simp
    qed
    show ?thesis
      unfolding step
    proof (intro conjI allI impI)
      show "length (decrypt_ranges f fo hb tb rs ?bytes) = ?len" using IH by blast
      fix i assume i: "i < ?len"
      note nth = nth_decrypt_part [OF f tb part i]
      show "decrypt_ranges f fo hb tb rs ?bytes ! i =
        (case find (\<lambda>r. in_range r (unat fo + i)) (r # rs) of
           None \<Rightarrow> bytes ! i
         | Some r \<Rightarrow> decrypt_blocks f tb
             (slice (part_start (unat fo) r) (part_end (unat fo) ?len r) bytes) ! (i - part_start (unat fo) r))"
      proof (cases "find (\<lambda>r. in_range r (unat fo + i)) rs")
        case None
        then show ?thesis using IH i nth by simp
      next
        case (Some r')
        then have r': "r' \<in> set rs" "in_range r' (unat fo + i)" by (auto simp: find_Some_iff)
        then have "\<not> in_range r (unat fo + i)" using later by (fastforce simp: in_range_def)
        then show ?thesis
          using IH i Some slice_decrypt_part [OF f tb part later [OF r'(1)]] by simp
      qed
    qed
  qed
qed simp

section \<open>The decrypted file\<close>

text \<open>
  The reference: the whole file with every block of every range decrypted, the blocks counted
  from the start of their range.
\<close>

definition plain_byte :: "(bytes \<Rightarrow> bytes) \<Rightarrow> bytes \<Rightarrow> nat \<Rightarrow> nat \<Rightarrow> u8" where
  "plain_byte f full start p =
     (let b = start + 16 * ((p - start) div 16) in f (slice b (b + 16) full) ! (p - b))"

definition decrypted :: "(bytes \<Rightarrow> bytes) \<Rightarrow> srange list \<Rightarrow> bytes \<Rightarrow> bytes" where
  "decrypted f rs full =
     map (\<lambda>p. case find (\<lambda>r. in_range r p) rs of
                None \<Rightarrow> full ! p
              | Some r \<Rightarrow> plain_byte f full (unat (rng_start r)) p) [0..<length full]"

definition ranges_ok :: "srange list \<Rightarrow> nat \<Rightarrow> bool" where
  "ranges_ok rs bound \<longleftrightarrow> bound < 2 ^ 32 \<and> disjoint_ranges rs \<and>
     (\<forall>r \<in> set rs. rng_stop r \<le> bound \<and> 0 < rng_blocks r)"

lemma length_decrypted [simp]: "length (decrypted f rs full) = length full"
  by (simp add: decrypted_def)

lemma plain_byte_rebase:
  assumes "s \<le> a" "a \<le> p" "(a - s) mod 16 = 0"
  shows "plain_byte f full s p = plain_byte f full a p"
proof -
  obtain q where q: "a = s + 16 * q" using assms(1,3) by (metis le_add_diff_inverse mod_0_imp_dvd dvdE)
  have "p - s = 16 * q + (p - a)" using assms(2) q by simp
  then have "(p - s) div 16 = q + (p - a) div 16" by simp
  then show ?thesis by (simp add: plain_byte_def q Let_def algebra_simps)
qed

text \<open>The blocks of the part of a range in the body are the blocks of the file.\<close>

text \<open>A block of a region that ends with the window is completed by the bytes that follow the window.\<close>

lemma block_of_region:
  assumes "length tb = 16" "region = slice (fo + a) (fo + e) full" "length region = e - a" "a \<le> e" "e \<le> len"
    and b: "b = fo + a + k" "b + 16 \<le> length full" "b < fo + e"
    and "b + 16 \<le> fo + e \<or> e = len \<and> (\<forall>k < 16. fo + len + k < length full \<longrightarrow> tb ! k = full ! (fo + len + k))"
  shows "take 16 (drop k region @ take (16 - (length region - k)) tb) = slice b (b + 16) full"
proof (cases "b + 16 \<le> fo + e")
  case True
  then have "k + 16 \<le> length region" unfolding assms(3) b(1) using assms(4) by simp
  moreover have "take 16 (drop k region) = slice b (b + 16) full"
    unfolding assms(2) using True by (simp add: slice_def b(1) drop_take min_def add.commute add.left_commute)
  ultimately show ?thesis by simp
next
  case False
  then have t: "e = len" "\<forall>k < 16. fo + len + k < length full \<longrightarrow> tb ! k = full ! (fo + len + k)" using assms(9) by blast+
  have d: "drop k region = slice b (fo + len) full"
    unfolding assms(2) t(1) using b by (simp add: slice_def drop_take add.commute add.left_commute)
  have l: "length region - k = fo + len - b" unfolding assms(3) by (simp add: t(1) b(1))
  have "take (16 - (fo + len - b)) tb = slice (fo + len) (b + 16) full"
  proof (rule nth_equalityI)
    show "length (take (16 - (fo + len - b)) tb) = length (slice (fo + len) (b + 16) full)"
      using False t(1) b(2,3) assms(1) by (simp add: length_slice)
    fix x assume "x < length (take (16 - (fo + len - b)) tb)"
    then show "take (16 - (fo + len - b)) tb ! x = slice (fo + len) (b + 16) full ! x"
      using t b(2,3) False assms(1) by (simp add: slice_def)
  qed
  then have "drop k region @ take (16 - (length region - k)) tb = slice b (b + 16) full"
    unfolding d l using slice_append [of b "fo + len" "b + 16" full] b(3) False t(1) by simp
  then show ?thesis using b(2) by (simp add: length_slice)
qed

text \<open>A block that starts inside a window whose end is on the grid of the range ends inside it.\<close>

lemma aligned_block_end:
  assumes "aligned_at (fo + len) r" "fo + len < rng_stop r" "unat (rng_start r) < fo + len"
    and "b = unat (rng_start r) + 16 * m" "b < fo + len"
  shows "b + 16 \<le> fo + len"
proof -
  obtain q where q: "fo + len = unat (rng_start r) + 16 * q"
    using assms(1-3) by (auto simp: aligned_at_def) (metis le_add_diff_inverse less_imp_le mod_0_imp_dvd dvdE assms(3))
  then have "m < q" using assms(4,5) by simp
  then show ?thesis unfolding q assms(4) by simp
qed

lemma part_plain:
  assumes f: "block_ok f" and tb: "length tb = 16"
    and r: "rng_stop r \<le> length full" "aligned_at fo r" "in_range r (fo + i)"
    and body: "fo + len \<le> length full" "i < n" "n \<le> len"
    and tail: "n + 15 \<le> len \<or> (\<forall>k < 16. fo + len + k < length full \<longrightarrow> tb ! k = full ! (fo + len + k)) \<or>
      aligned_at (fo + len) r"
  shows "decrypt_blocks f tb (slice (part_start fo r) (part_end fo len r) (slice fo (fo + len) full))
      ! (i - part_start fo r) = plain_byte f full (unat (rng_start r)) (fo + i)"
proof -
  let ?s = "unat (rng_start r)" and ?a = "part_start fo r" and ?e = "part_end fo len r"
  let ?region = "slice ?a ?e (slice fo (fo + len) full)"
  define j where "j = i - ?a"
  define k where "k = 16 * (j div 16)"
  define b where "b = fo + ?a + k"
  have i: "i < len" "?a \<le> i" "i < ?e" "?e \<le> len"
    using body in_range_part [of i len r fo] r(3) by (auto simp: part_end_def)
  have region: "?region = slice (fo + ?a) (fo + ?e) full"
    using i body(1) by (simp add: slice_def part_end_def drop_take min_def add.commute)
  have lr: "length ?region = ?e - ?a" using body(1) by (simp add: region length_slice part_end_def)
  have base: "(fo + ?a - ?s) mod 16 = 0" "?s \<le> fo + ?a"
    using r(2,3) i by (cases "unat (rng_start r) < fo"; auto simp: aligned_at_def part_start_def in_range_def)+
  obtain q where q: "fo + ?a = ?s + 16 * q" using base by (metis le_add_diff_inverse mod_0_imp_dvd dvdE)
  have bm: "b = ?s + 16 * (q + j div 16)" by (simp add: b_def k_def q)
  have bi: "b \<le> fo + i" "b < fo + ?e" using i by (simp_all add: b_def k_def j_def)
  have blk: "b + 16 \<le> rng_stop r"
  proof -
    have "q + j div 16 < unat (rng_blocks r)" using bi(1) r(3) by (simp add: bm in_range_def rng_stop_def)
    then have "16 * (q + j div 16) + 16 \<le> 16 * unat (rng_blocks r)" by simp
    then show ?thesis by (simp add: bm rng_stop_def)
  qed
  have next_bytes: "b + 16 \<le> fo + ?e \<or> ?e = len \<and> (\<forall>k < 16. fo + len + k < length full \<longrightarrow> tb ! k = full ! (fo + len + k))"
  proof (cases "b + 16 \<le> fo + ?e")
    case False
    then have e: "?e = len" using blk by (auto simp: part_end_def min_def split: if_splits)
    have "\<not> n + 15 \<le> len" using False e bi(1) body by simp
    moreover have "\<not> aligned_at (fo + len) r"
      using aligned_block_end [OF _ _ _ bm] False e blk base(2) i bi(2) by fastforce
    ultimately show ?thesis using tail e by blast
  qed simp
  have "decrypt_blocks f tb ?region ! j = f (slice b (b + 16) full) ! (j mod 16)"
    using nth_decrypt_blocks [OF f tb, of j ?region] i r(1) blk bi(2)
      block_of_region [OF tb region lr _ i(4) b_def _ _ next_bytes] by (simp add: k_def lr j_def)
  also have "\<dots> = plain_byte f full (fo + ?a) (fo + i)"
  proof -
    have "fo + i - (fo + ?a) = j" by (simp add: j_def)
    moreover have "fo + i - b = j - 16 * (j div 16)" by (simp add: b_def k_def j_def)
    then have "fo + i - b = j mod 16" by (simp only: minus_mult_div_eq_mod)
    ultimately show ?thesis by (simp add: plain_byte_def Let_def b_def k_def)
  qed
  also have "\<dots> = plain_byte f full ?s (fo + i)"
    using plain_byte_rebase [OF base(2) _ base(1), of "fo + i"] i by simp
  finally show ?thesis by (simp add: j_def)
qed

lemma disjoint_stops:
  "disjoint_ranges rs \<Longrightarrow> \<forall>r \<in> set rs. 0 < rng_blocks r \<Longrightarrow> sorted_wrt (\<lambda>a b. rng_stop a < rng_stop b) rs"
proof -
  assume d: "disjoint_ranges rs" and b: "\<forall>r \<in> set rs. 0 < rng_blocks r"
  have "unat (rng_start r) < rng_stop r" if "r \<in> set rs" for r
    using b that by (auto simp: rng_stop_def unat_gt_0)
  then show ?thesis
    using d unfolding disjoint_ranges_def by (elim sorted_wrt_mono_rel [rotated]) (metis le_less_trans)
qed

lemma dropWhile_ended:
  assumes "ranges_ok rs bound" "fo < 2 ^ 32"
  defines "rs' \<equiv> dropWhile (\<lambda>r. rng_end r \<le> of_nat fo) rs"
  shows "disjoint_ranges rs' \<and> set rs' \<subseteq> set rs \<and> (\<forall>r \<in> set rs'. fo < rng_stop r) \<and>
    (\<forall>i. find (\<lambda>r. in_range r (fo + i)) rs' = find (\<lambda>r. in_range r (fo + i)) rs)"
proof -
  have e: "rng_end r \<le> of_nat fo \<longleftrightarrow> rng_stop r \<le> fo" if "r \<in> set rs" for r
    using that assms(1,2) unat_rng_end [of r] by (auto simp: ranges_ok_def word_le_nat_alt unat_of_nat)
  have rs': "rs' = dropWhile (\<lambda>r. rng_stop r \<le> fo) rs"
    unfolding rs'_def using e by (intro dropWhile_cong) auto
  have "sorted_wrt (\<lambda>a b. rng_stop a < rng_stop b) rs" using assms(1) by (intro disjoint_stops) (auto simp: ranges_ok_def)
  moreover have "disjoint_ranges rs" using assms(1) by (simp add: ranges_ok_def)
  ultimately show ?thesis
    unfolding rs' by (induction rs) (auto simp: disjoint_ranges_def in_range_def)
qed

lemma decrypt_window:
  assumes f: "block_ok f" and tb: "length tb = 16" and ok: "ranges_ok rs (length full)"
    and aligned: "\<forall>r \<in> set rs. aligned_at fo r"
    and body: "fo + len \<le> length full" "0 < len" "n \<le> len"
    and tail: "n + 15 \<le> len \<or> (\<forall>k < 16. fo + len + k < length full \<longrightarrow> tb ! k = full ! (fo + len + k)) \<or>
      (\<forall>r \<in> set rs. aligned_at (fo + len) r)"
    and out_def: "out = decrypt_ranges f (of_nat fo) hb tb
    (dropWhile (\<lambda>r. rng_end r \<le> of_nat fo) rs) (slice fo (fo + len) full)"
  shows "length out = len \<and> take n out = slice fo (fo + n) (decrypted f rs full)"
proof -
  have small: "length full < 2 ^ 32" using ok by (simp add: ranges_ok_def)
  then have u: "unat (of_nat fo :: u32) = fo" using body by (simp add: unat_of_nat)
  let ?rs = "dropWhile (\<lambda>r. rng_end r \<le> of_nat fo) rs" and ?body = "slice fo (fo + len) full"
  have lb: "length ?body = len" using body by (simp add: length_slice)
  have rs: "disjoint_ranges ?rs" "set ?rs \<subseteq> set rs" "\<forall>r \<in> set ?rs. fo < rng_stop r"
    "\<And>i. find (\<lambda>r. in_range r (fo + i)) ?rs = find (\<lambda>r. in_range r (fo + i)) rs"
    using dropWhile_ended [OF ok, of fo] body small by auto
  have "\<forall>r \<in> set ?rs. rng_stop r < 2 ^ 32 \<and> fo < rng_stop r \<and> aligned_at fo r \<and> 0 < rng_blocks r"
    using rs(2,3) ok aligned small by (fastforce simp: ranges_ok_def)
  then have out: "length out = len"
    "i < len \<Longrightarrow> out ! i = (case find (\<lambda>r. in_range r (fo + i)) ?rs of
         None \<Rightarrow> ?body ! i
       | Some r \<Rightarrow> decrypt_blocks f tb (slice (part_start fo r) (part_end fo len r) ?body) ! (i - part_start fo r))"
    for i
  proof -
    have "?body \<noteq> []" using lb body(2) by auto
    then show "length out = len"
      "i < len \<Longrightarrow> out ! i = (case find (\<lambda>r. in_range r (fo + i)) ?rs of
         None \<Rightarrow> ?body ! i
       | Some r \<Rightarrow> decrypt_blocks f tb (slice (part_start fo r) (part_end fo len r) ?body) ! (i - part_start fo r))"
      for i
      using decrypt_ranges_nth [OF f tb rs(1), of "of_nat fo" ?body hb]
        \<open>\<forall>r \<in> set ?rs. rng_stop r < 2 ^ 32 \<and> fo < rng_stop r \<and> aligned_at fo r \<and> 0 < rng_blocks r\<close>
        body small unfolding u out_def lb by simp_all
  qed
  have "take n out = slice fo (fo + n) (decrypted f rs full)"
  proof (rule nth_equalityI)
    show "length (take n out) = length (slice fo (fo + n) (decrypted f rs full))"
      using body out(1) by (simp add: length_slice)
    fix i assume "i < length (take n out)"
    then have i: "i < n" by simp
    then have "slice fo (fo + n) (decrypted f rs full) ! i =
        (case find (\<lambda>r. in_range r (fo + i)) rs of
           None \<Rightarrow> full ! (fo + i) | Some r \<Rightarrow> plain_byte f full (unat (rng_start r)) (fo + i))"
      using body by (simp add: slice_def decrypted_def split: option.split)
    also have "\<dots> = out ! i"
    proof (cases "find (\<lambda>r. in_range r (fo + i)) rs")
      case None
      then show ?thesis using out(2) [of i] i body rs(4) [of i] by (simp add: slice_def)
    next
      case (Some r)
      then have r: "r \<in> set rs" "in_range r (fo + i)" by (auto simp: find_Some_iff)
      then have "rng_stop r \<le> length full" "aligned_at fo r" using ok aligned by (auto simp: ranges_ok_def)
      moreover have "n + 15 \<le> len \<or> (\<forall>k < 16. fo + len + k < length full \<longrightarrow> tb ! k = full ! (fo + len + k)) \<or>
        aligned_at (fo + len) r" using tail r(1) by blast
      ultimately have "decrypt_blocks f tb (slice (part_start fo r) (part_end fo len r) (slice fo (fo + len) full))
        ! (i - part_start fo r) = plain_byte f full (unat (rng_start r)) (fo + i)"
        using part_plain [OF f tb _ _ r(2) body(1) i body(3)] by blast
      then show ?thesis
        using Some out(2) [of i] i body rs(4) [of i] by simp
    qed
    finally show "take n out ! i = slice fo (fo + n) (decrypted f rs full) ! i" using i by simp
  qed
  then show ?thesis using out(1) by simp
qed

section \<open>A buffer that starts inside a block\<close>

lemma nth_slice_of: "e \<le> length xs \<Longrightarrow> a + j < e \<Longrightarrow> slice a e xs ! j = xs ! (a + j)"
  by (simp add: slice_def)

text \<open>The part of a range whose first block lies partly before the buffer, as the code decrypts it.\<close>

definition cut_part :: "(bytes \<Rightarrow> bytes) \<Rightarrow> nat \<Rightarrow> bytes \<Rightarrow> bytes \<Rightarrow> srange \<Rightarrow> bytes \<Rightarrow> bytes" where
  "cut_part f fo hb tb r bytes =
     (let left = (fo - unat (rng_start r)) mod 16;
          m = min (16 - left) (length bytes);
          bytes1 = take m (drop left (f (drop (16 - left) hb @ take m bytes @ take (16 - (left + m)) tb))) @ drop m bytes;
          resume = fo + (16 - left);
          e = part_end fo (length bytes) r
      in if e \<le> resume then bytes1 else take resume bytes1 @ decrypt_blocks f tb (slice resume e bytes1) @ drop e bytes1)"

lemma not_aligned:
  "\<not> aligned_at fo r \<longleftrightarrow> unat (rng_start r) < fo \<and> fo < rng_stop r \<and> 0 < (fo - unat (rng_start r)) mod 16"
  by (auto simp: aligned_at_def)

lemma cut_start:
  assumes "\<not> aligned_at (unat fo) r"
  defines "so \<equiv> rng_start r + ((fo - rng_start r) AND - of_nat BLOCK_SIZE)"
  shows "so < fo" "unat (fo - so) = (unat fo - unat (rng_start r)) mod 16"
proof -
  let ?d = "unat fo - unat (rng_start r)"
  have lt: "unat (rng_start r) < unat fo" "0 < ?d mod 16" using assms(1) by (auto simp: not_aligned)
  have d: "unat (fo - rng_start r) = ?d" using lt(1) by (simp add: unat_sub_if')
  have floor: "unat ((fo - rng_start r) AND - of_nat BLOCK_SIZE) = ?d - ?d mod 16" by (simp only: unat_floor16 d)
  have "unat fo < 2 ^ 32" using unsigned_less [of fo, where 'a = nat] by simp
  then have "unat (rng_start r) + (?d - ?d mod 16) < 2 ^ 32" using lt(1) by simp
  then have "unat so = unat (rng_start r) + (?d - ?d mod 16)" using floor by (simp add: so_def unat_plus_if')
  then have so: "unat so = unat fo - ?d mod 16" using lt(1) by simp
  have le: "?d mod 16 \<le> unat fo" by (meson diff_le_self le_trans mod_less_eq_dividend)
  show "so < fo" using so lt le by (simp add: word_less_nat_alt)
  have "unat (fo - so) = unat fo - unat so" using so by (simp add: unat_sub_if')
  then show "unat (fo - so) = ?d mod 16" using so le by simp
qed

lemma decrypt_ranges_cut:
  assumes "rng_stop r < 2 ^ 32" "unat fo + length bytes < 2 ^ 32" "\<not> aligned_at (unat fo) r"
    and "block_ok f" "length hb = 16" "length tb = 16"
  shows "decrypt_ranges f fo hb tb (r # rs) bytes = decrypt_ranges f fo hb tb rs (cut_part f (unat fo) hb tb r bytes)"
proof -
  let ?len = "length bytes" and ?left = "(unat fo - unat (rng_start r)) mod 16"
  let ?so = "rng_start r + ((fo - rng_start r) AND - of_nat BLOCK_SIZE)"
  have lt: "unat (rng_start r) < unat fo" "unat fo < rng_stop r" using assms(3) by (auto simp: not_aligned)
  note so = cut_start [OF assms(3)]
  have no_break: "\<not> fo + of_nat ?len \<le> rng_start r"
    using lt(1) assms(2) by (simp add: word_le_nat_alt unat_plus_if' unat_of_nat)
  have le: "rng_start r \<le> fo" using lt(1) by (simp add: word_le_nat_alt)
  have lm: "unat (fo - ?so) mod BLOCK_SIZE = ?left" unfolding so(2) by (simp add: BLOCK_SIZE_def)
  define m where "m = min (16 - ?left) ?len"
  define bytes1 where "bytes1 = take m (drop ?left (f (drop (16 - ?left) hb @ take m bytes @ take (16 - (?left + m)) tb))) @ drop m bytes"
  have st: "decrypt_straddling f fo hb tb ?so bytes = (bytes1, unat fo + (16 - ?left))"
    by (simp only: decrypt_straddling_def Let_def lm) (simp add: BLOCK_SIZE_def bytes1_def m_def)
  have len: "length bytes1 = ?len"
  proof -
    have "?left < 16" by simp
    then have parts: "length (drop (16 - ?left) hb) = ?left" "length (take m bytes) = m" "?left + m \<le> 16" "m \<le> ?len"
      unfolding length_drop length_take assms(5) m_def by linarith+
    then have "length (drop (16 - ?left) hb @ take m bytes @ take (16 - (?left + m)) tb) = 16"
      unfolding length_append length_take [of "16 - (?left + m)" tb] assms(6) by linarith
    note block_okD [OF assms(4) this]
    moreover have "m \<le> 16 - ?left" using parts(3) by linarith
    ultimately show ?thesis using parts(4) by (simp add: bytes1_def)
  qed
  have e: "min (length bytes1) (unat (rng_end r - fo)) = part_end (unat fo) ?len r"
    using unat_rng_end [OF assms(1)] lt(2) by (simp add: part_end_def unat_sub_if' len)
  show ?thesis
    unfolding decrypt_ranges.simps Let_def if_not_P [OF no_break] if_P [OF le] if_P [OF so(1)] st prod.case
      cut_part_def m_def [symmetric] bytes1_def [symmetric]
    by (simp add: e [unfolded len] len)
qed

text \<open>The bytes of a part that begins inside a block.\<close>

lemma cut_block:
  assumes r: "rng_stop r \<le> length full" "\<not> aligned_at fo r" and f: "block_ok f"
    and hb: "length hb = 16" "\<forall>j < 16. 16 \<le> fo + j \<longrightarrow> hb ! j = full ! (fo + j - 16)" and tb: "length tb = 16"
    and body: "fo + len \<le> length full" "n \<le> len" "0 < n"
    and tail: "n + 15 \<le> len \<or> (\<forall>k < 16. fo + len + k < length full \<longrightarrow> tb ! k = full ! (fo + len + k)) \<or> aligned_at (fo + len) r"
  defines "left \<equiv> (fo - unat (rng_start r)) mod 16" and "m \<equiv> min (16 - (fo - unat (rng_start r)) mod 16) len"
  shows "drop (16 - left) hb @ take m (slice fo (fo + len) full) @ take (16 - (left + m)) tb = slice (fo - left) (fo - left + 16) full"
    and "fo - left + 16 \<le> rng_stop r" "left \<le> fo - unat (rng_start r)"
proof -
  let ?s = "unat (rng_start r)"
  have lt: "?s < fo" "fo < rng_stop r" "0 < left" "left < 16" using r(2) by (auto simp: not_aligned left_def)
  show le: "left \<le> fo - ?s" by (simp add: left_def)
  obtain q where q: "fo - left = ?s + 16 * q"
  proof (rule that [of "(fo - ?s) div 16"])
    have "fo - ?s = left + 16 * ((fo - ?s) div 16)" by (simp add: left_def)
    then show "fo - left = ?s + 16 * ((fo - ?s) div 16)" using lt(1) le by linarith
  qed
  have "q < unat (rng_blocks r)"
  proof -
    have "?s + 16 * q < ?s + 16 * unat (rng_blocks r)" using q lt(2) by (simp add: rng_stop_def)
    then show ?thesis by simp
  qed
  then have "16 * q + 16 \<le> 16 * unat (rng_blocks r)" by simp
  then show stop: "fo - left + 16 \<le> rng_stop r" unfolding q rng_stop_def by simp
  have fl: "left \<le> fo" using le by simp
  have m: "m = min (16 - left) len" by (simp add: m_def left_def)
  have tb': "tb ! k = full ! (fo + len + k)" if "m = len" "left + len + k < 16" for k
  proof -
    have "\<not> aligned_at (fo + len) r"
    proof -
      have "fo + len - ?s = 16 * q + (left + len)" using q fl lt(1) by linarith
      then have "(fo + len - ?s) mod 16 = left + len" using that(2) by simp
      then show ?thesis using that(2) stop lt fl by (simp add: not_aligned)
    qed
    moreover have "\<not> n + 15 \<le> len" using that(2) body(3) by simp
    moreover have "fo + len + k < length full" using stop r(1) that(2) fl by linarith
    ultimately show ?thesis using tail that(2) by simp
  qed
  let ?block = "drop (16 - left) hb @ take m (slice fo (fo + len) full) @ take (16 - (left + m)) tb"
  have ls: "length (slice fo (fo + len) full) = len" using body(1) by (simp add: length_slice)
  have parts: "length (drop (16 - left) hb) = left" "length (take m (slice fo (fo + len) full)) = m" "left + m \<le> 16"
    using lt(4) by (simp_all add: hb(1) ls m)
  show "?block = slice (fo - left) (fo - left + 16) full"
  proof (rule nth_equalityI)
    show l: "length ?block = length (slice (fo - left) (fo - left + 16) full)"
      using parts stop r(1) tb by (simp add: length_slice)
    fix j assume "j < length ?block"
    then have j: "j < 16" using parts tb by simp
    have R: "slice (fo - left) (fo - left + 16) full ! j = full ! (fo - left + j)"
      using j stop r(1) by (simp add: slice_def)
    consider "j < left" | "left \<le> j" "j < left + m" | "left + m \<le> j" by linarith
    then show "?block ! j = slice (fo - left) (fo - left + 16) full ! j"
    proof cases
      case 1
      then have "?block ! j = hb ! (16 - left + j)" using parts hb(1) by (simp add: nth_append)
      also have "\<dots> = full ! (fo + (16 - left + j) - 16)"
        by (rule hb(2) [rule_format]) (use 1 fl lt(4) in linarith)+
      also have "fo + (16 - left + j) - 16 = fo - left + j" using 1 fl lt(4) by simp
      finally show ?thesis using R by simp
    next
      case 2
      then have "j - left < m" by linarith
      then have "?block ! j = slice fo (fo + len) full ! (j - left)" using parts 2 by (simp add: nth_append)
      also have "\<dots> = full ! (fo + (j - left))" using 2 m body(1) by (simp add: slice_def)
      also have "fo + (j - left) = fo - left + j" using 2 fl by simp
      finally show ?thesis using R by simp
    next
      case 3
      then have ml: "m = len" using j m by (auto simp: min_def split: if_splits)
      have "\<not> j - left < m" "\<not> j < left" using 3 by linarith+
      then have "?block ! j = tb ! (j - left - m)" using parts 3 j by (simp add: nth_append)
      also have "\<dots> = full ! (fo + len + (j - left - m))" by (rule tb' [OF ml]) (use 3 j ml in simp)
      also have "fo + len + (j - left - m) = fo - left + j" using 3 fl ml by simp
      finally show ?thesis using R by simp
    qed
  qed
qed

lemma decrypt_cut:
  assumes r: "rng_stop r \<le> length full" "\<not> aligned_at fo r" and f: "block_ok f"
    and hb: "length hb = 16" "\<forall>j < 16. 16 \<le> fo + j \<longrightarrow> hb ! j = full ! (fo + j - 16)" and tb: "length tb = 16"
    and body: "fo + len \<le> length full" "n \<le> len"
    and tail: "n + 15 \<le> len \<or> (\<forall>k < 16. fo + len + k < length full \<longrightarrow> tb ! k = full ! (fo + len + k)) \<or> aligned_at (fo + len) r"
  defines "resume \<equiv> fo + (16 - (fo - unat (rng_start r)) mod 16)"
    and "out \<equiv> cut_part f fo hb tb r (slice fo (fo + len) full)"
  shows "length out = len"
    and "i < len \<Longrightarrow> \<not> in_range r (fo + i) \<Longrightarrow> out ! i = full ! (fo + i)"
    and "i < n \<Longrightarrow> in_range r (fo + i) \<Longrightarrow> out ! i =
      (if i < 16 - (fo - unat (rng_start r)) mod 16 then plain_byte f full (unat (rng_start r)) (fo + i)
       else if i < resume then full ! (fo + i)
       else decrypt_blocks f tb (slice resume (part_end fo len r) (slice fo (fo + len) full)) ! (i - resume))"
proof -
  let ?s = "unat (rng_start r)" and ?body = "slice fo (fo + len) full" and ?e = "part_end fo len r"
  define left where "left = (fo - ?s) mod 16"
  define m where "m = min (16 - left) len"
  define b where "b = f (drop (16 - left) hb @ take m ?body @ take (16 - (left + m)) tb)"
  define bytes1 where "bytes1 = take m (drop left b) @ drop m ?body"
  have ls: "length ?body = len" using body(1) by (simp add: length_slice)
  have lt: "?s < fo" "fo < rng_stop r" "0 < left" "left < 16" using r(2) by (auto simp: not_aligned left_def)
  have lm: "left + m \<le> 16" "m \<le> len" using lt(4) by (simp_all add: m_def)
  have out: "out = (if ?e \<le> resume then bytes1 else take resume bytes1 @ decrypt_blocks f tb (slice resume ?e bytes1) @ drop ?e bytes1)"
    by (simp only: out_def cut_part_def Let_def ls left_def [symmetric] m_def [symmetric] b_def [symmetric] bytes1_def [symmetric]
        resume_def)
  have "length (drop (16 - left) hb @ take m ?body @ take (16 - (left + m)) tb) = 16"
    using lm lt(4) by (simp add: hb(1) tb ls)
  note lb = block_okD [OF f this, folded b_def]
  have l1: "length bytes1 = len" using lm by (simp add: bytes1_def lb ls)
  have el: "?e \<le> len" by (simp add: part_end_def)
  have ld: "length (decrypt_blocks f tb (slice resume ?e bytes1)) = ?e - resume"
    using f tb el by (simp add: length_decrypt_blocks length_slice l1)
  show "length out = len" using el by (simp add: out l1 ld)
  have in_r: "in_range r (fo + i) \<longleftrightarrow> i < ?e" if "i < len" for i
    using that lt(1) by (auto simp: in_range_def part_end_def)
  have ml: "m \<le> 16 - left" "16 - left \<le> resume" by (simp_all add: m_def resume_def left_def)
  have stop: "fo - left + 16 \<le> rng_stop r" "left \<le> fo - ?s"
  proof -
    show le: "left \<le> fo - ?s" by (simp add: left_def)
    show "fo - left + 16 \<le> rng_stop r"
    proof -
      have d: "fo - ?s = left + 16 * ((fo - ?s) div 16)" by (simp add: left_def)
      then have "16 * ((fo - ?s) div 16) < 16 * unat (rng_blocks r)" using lt(1,2) by (simp add: rng_stop_def)
      then have "16 * ((fo - ?s) div 16) + 16 \<le> 16 * unat (rng_blocks r)" by simp
      then show ?thesis using d lt(1) by (simp add: rng_stop_def)
    qed
  qed
  have me: "m \<le> ?e" using stop lt(1) ml(1) lm(2) by (simp add: part_end_def)
  have outer: "out ! i = bytes1 ! i" if "i < len" "i < resume \<or> ?e \<le> i" for i
    using that el by (auto simp: out nth_append l1 ld min_def)
  have later: "bytes1 ! i = full ! (fo + i)" if "i < len" "m \<le> i" for i
  proof -
    have "length (take m (drop left b)) = m" using lb lm by simp
    then have "bytes1 ! i = drop m ?body ! (i - m)" using that by (simp only: bytes1_def nth_append) simp
    also have "\<dots> = ?body ! i" using that lm(2) by (simp add: ls)
    also have "\<dots> = full ! (fo + i)" using that(1) body(1) by (simp add: slice_def)
    finally show ?thesis .
  qed
  show "i < len \<Longrightarrow> \<not> in_range r (fo + i) \<Longrightarrow> out ! i = full ! (fo + i)"
    using in_r outer later me by simp
  show "out ! i =
      (if i < 16 - (fo - ?s) mod 16 then plain_byte f full ?s (fo + i)
       else if i < resume then full ! (fo + i)
       else decrypt_blocks f tb (slice resume ?e ?body) ! (i - resume))" if i: "i < n" "in_range r (fo + i)"
    unfolding left_def [symmetric]
  proof -
    have il: "i < len" "i < ?e" using i body(2) in_r by simp_all
    consider "i < 16 - left" | "16 - left \<le> i" "i < resume" | "resume \<le> i" using ml(2) by linarith
    then show "out ! i = (if i < 16 - left then plain_byte f full ?s (fo + i)
       else if i < resume then full ! (fo + i)
       else decrypt_blocks f tb (slice resume ?e ?body) ! (i - resume))"
    proof cases
      case 1
      then have im: "i < m" using il by (simp add: m_def)
      have "drop (16 - left) hb @ take m ?body @ take (16 - (left + m)) tb = slice (fo - left) (fo - left + 16) full"
        using cut_block(1) [OF r f hb tb body _ tail] i(1) by (simp add: left_def m_def)
      then have "out ! i = f (slice (fo - left) (fo - left + 16) full) ! (left + i)"
        using outer [OF il(1)] 1 ml(2) im lb lm by (simp add: bytes1_def nth_append b_def)
      also have "\<dots> = plain_byte f full ?s (fo + i)"
      proof -
        have d: "fo - ?s = left + 16 * ((fo - ?s) div 16)" by (simp add: left_def)
        then have "fo + i - ?s = 16 * ((fo - ?s) div 16) + (left + i)" using lt(1) by simp
        moreover have "left + i < 16" using 1 by simp
        ultimately have "(fo + i - ?s) div 16 = (fo - ?s) div 16" by simp
        moreover have "?s + 16 * ((fo - ?s) div 16) = fo - left" using d lt(1) by linarith
        ultimately show ?thesis using stop(2) lt(1) by (simp add: plain_byte_def Let_def add.commute)
      qed
      finally show ?thesis using 1 by simp
    next
      case 2
      then show ?thesis using outer [OF il(1)] later [OF il(1)] ml by simp
    next
      case 3
      then have e: "\<not> ?e \<le> resume" using il by simp
      have "slice resume ?e bytes1 = slice resume ?e ?body"
      proof (rule nth_equalityI)
        show "length (slice resume ?e bytes1) = length (slice resume ?e ?body)" using el by (simp add: length_slice l1 ls)
        fix j assume "j < length (slice resume ?e bytes1)"
        then have j: "resume + j < ?e" using el by (simp add: length_slice l1)
        then have "bytes1 ! (resume + j) = ?body ! (resume + j)"
          using later [of "resume + j"] el ml body(1) by (simp add: slice_def)
        then show "slice resume ?e bytes1 ! j = slice resume ?e ?body ! j" using j el by (simp add: nth_slice_of l1 ls)
      qed
      moreover have "i - resume < ?e - resume" using 3 il by linarith
      ultimately have "out ! i = decrypt_blocks f tb (slice resume ?e ?body) ! (i - resume)"
        using e 3 il ld el by (simp add: out nth_append l1 min_def)
      then show ?thesis using 3 ml by simp
    qed
  qed
qed

text \<open>What a buffer at file offset \<open>fo\<close> is decrypted to, byte by byte.\<close>

definition window_byte :: "(bytes \<Rightarrow> bytes) \<Rightarrow> srange list \<Rightarrow> bytes \<Rightarrow> bytes \<Rightarrow> nat \<Rightarrow> nat \<Rightarrow> nat \<Rightarrow> u8" where
  "window_byte f rs full tb fo len i =
     (case find (\<lambda>r. \<not> aligned_at fo r) rs of
        None \<Rightarrow> decrypted f rs full ! (fo + i)
      | Some r \<Rightarrow>
          let left_len = 16 - (fo - unat (rng_start r)) mod 16;
              resume = fo + left_len
          in if \<not> in_range r (fo + i) \<or> i < left_len then decrypted f rs full ! (fo + i)
             else if i < resume then full ! (fo + i)
             else decrypt_blocks f tb (slice resume (part_end fo len r) (slice fo (fo + len) full)) ! (i - resume))"

lemma decrypted_in_range:
  assumes "disjoint_ranges rs" "r \<in> set rs" "in_range r p" "p < length full"
  shows "decrypted f rs full ! p = plain_byte f full (unat (rng_start r)) p"
proof -
  have "find (\<lambda>r. in_range r p) rs = Some r"
    using assms(1-3)
  proof (induction rs)
    case (Cons q qs)
    have "r = q" if "in_range q p"
    proof (rule ccontr)
      assume "r \<noteq> q"
      then have "r \<in> set qs" using Cons.prems(2) by simp
      then have "rng_stop q \<le> unat (rng_start r)" using Cons.prems(1) by (simp add: disjoint_ranges_def)
      then show False using that Cons.prems(3) by (simp add: in_range_def)
    qed
    then show ?case using Cons by (auto simp: disjoint_ranges_def)
  qed simp
  then show ?thesis using assms(4) by (simp add: decrypted_def)
qed

lemma decrypted_elsewhere:
  assumes "\<forall>r \<in> set rs. \<not> in_range r p" "p < length full"
  shows "decrypted f rs full ! p = full ! p"
proof -
  have "find (\<lambda>r. in_range r p) rs = None" using assms(1) by (simp add: find_None_iff)
  then show ?thesis using assms(2) by (simp add: decrypted_def)
qed

text \<open>The range that a buffer cuts is the first one that has not ended.\<close>

lemma cut_first:
  assumes "ranges_ok rs bound" "r \<in> set rs" "\<not> aligned_at fo r" "fo < 2 ^ 32"
  obtains rest where "dropWhile (\<lambda>r. rng_end r \<le> of_nat fo) rs = r # rest" "disjoint_ranges (r # rest)" "set rest \<subseteq> set rs"
    "\<forall>i. \<forall>q \<in> set rs. in_range q (fo + i) \<longrightarrow> q = r \<or> q \<in> set rest"
proof -
  let ?rs = "dropWhile (\<lambda>r. rng_end r \<le> of_nat fo) rs"
  have lt: "unat (rng_start r) < fo" "fo < rng_stop r" using assms(3) by (auto simp: not_aligned)
  have e: "rng_end q \<le> of_nat fo \<longleftrightarrow> rng_stop q \<le> fo" if "q \<in> set rs" for q
    using that assms(1,4) unat_rng_end [of q] by (auto simp: ranges_ok_def word_le_nat_alt unat_of_nat)
  have d: "disjoint_ranges ?rs" "set ?rs \<subseteq> set rs" "\<forall>q \<in> set ?rs. fo < rng_stop q"
    using dropWhile_ended [OF assms(1,4)] by auto
  have keep: "q \<in> set ?rs" if "q \<in> set rs" "fo < rng_stop q" for q
  proof -
    have "\<forall>x \<in> set (takeWhile (\<lambda>r. rng_end r \<le> of_nat fo) rs). rng_stop x \<le> fo"
      using e by (meson set_takeWhileD)
    then have "q \<notin> set (takeWhile (\<lambda>r. rng_end r \<le> of_nat fo) rs)" using that(2) by auto
    then show ?thesis using that(1) by (metis Un_iff set_append takeWhile_dropWhile_id)
  qed
  obtain h rest where h: "?rs = h # rest" using keep [OF assms(2) lt(2)] by (cases ?rs) auto
  have "h = r"
  proof (rule ccontr)
    assume "h \<noteq> r"
    then have "r \<in> set rest" using keep [OF assms(2) lt(2)] h by simp
    then have "rng_stop h \<le> unat (rng_start r)" using d(1) by (simp add: h disjoint_ranges_def)
    then show False using d(3) h lt(1) by auto
  qed
  moreover have "q = h \<or> q \<in> set rest" if "q \<in> set rs" "in_range q (fo + i)" for i q
  proof -
    have "fo < rng_stop q" using that(2) by (simp add: in_range_def)
    then show ?thesis using keep [OF that(1)] h by simp
  qed
  ultimately show ?thesis using that [of rest] h d(1,2) by auto
qed

lemma decrypt_window_cut:
  assumes f: "block_ok f" and ok: "ranges_ok rs (length full)" and r: "find (\<lambda>r. \<not> aligned_at fo r) rs = Some r"
    and hb: "length hb = 16" "\<forall>j < 16. 16 \<le> fo + j \<longrightarrow> hb ! j = full ! (fo + j - 16)" and tb: "length tb = 16"
    and body: "fo + len \<le> length full" "0 < len" "n \<le> len"
    and tail: "n + 15 \<le> len \<or> (\<forall>k < 16. fo + len + k < length full \<longrightarrow> tb ! k = full ! (fo + len + k)) \<or>
      (\<forall>r \<in> set rs. aligned_at (fo + len) r)"
    and out_def: "out = decrypt_ranges f (of_nat fo) hb tb
    (dropWhile (\<lambda>r. rng_end r \<le> of_nat fo) rs) (slice fo (fo + len) full)"
  shows "length out = len \<and> (\<forall>i < n. out ! i = window_byte f rs full tb fo len i)"
proof -
  have small: "length full < 2 ^ 32" using ok by (simp add: ranges_ok_def)
  then have u: "unat (of_nat fo :: u32) = fo" "fo < 2 ^ 32" using body by (simp_all add: unat_of_nat)
  have mem: "r \<in> set rs" "\<not> aligned_at fo r" using r by (auto simp: find_Some_iff)
  obtain rest where rest: "dropWhile (\<lambda>r. rng_end r \<le> of_nat fo) rs = r # rest" "disjoint_ranges (r # rest)" "set rest \<subseteq> set rs"
    "\<forall>i. \<forall>q \<in> set rs. in_range q (fo + i) \<longrightarrow> q = r \<or> q \<in> set rest"
    by (rule cut_first [OF ok mem u(2)])
  let ?body = "slice fo (fo + len) full"
  define cut where "cut = cut_part f fo hb tb r ?body"
  have ls: "length ?body = len" using body by (simp add: length_slice)
  have stops: "rng_stop r \<le> length full" using ok mem(1) by (simp add: ranges_ok_def)
  have tail': "n + 15 \<le> len \<or> (\<forall>k < 16. fo + len + k < length full \<longrightarrow> tb ! k = full ! (fo + len + k)) \<or> aligned_at (fo + len) q"
    if "q \<in> set rs" for q using tail that by blast
  note C = decrypt_cut [OF stops mem(2) f hb tb body(1,3) tail' [OF mem(1)], folded cut_def]
  have out: "out = decrypt_ranges f (of_nat fo) hb tb rest cut"
    unfolding out_def rest(1) cut_def using decrypt_ranges_cut [of r "of_nat fo" ?body f hb tb rest] stops small body mem(2) f hb(1) tb u
    by (simp add: ls)
  have lt: "unat (rng_start r) < fo" "fo < rng_stop r" using mem(2) by (auto simp: not_aligned)
  have later: "rng_stop r \<le> unat (rng_start q)" "rng_stop q \<le> length full" "0 < rng_blocks q" "aligned_at fo q" "fo < rng_stop q"
    if "q \<in> set rest" for q
  proof -
    show s: "rng_stop r \<le> unat (rng_start q)" using rest(2) that by (simp add: disjoint_ranges_def)
    show "rng_stop q \<le> length full" "0 < rng_blocks q" using ok rest(3) that by (auto simp: ranges_ok_def)
    show "aligned_at fo q" using s lt by (simp add: aligned_at_def)
    show "fo < rng_stop q" using s lt by (simp add: rng_stop_def)
  qed
  have "disjoint_ranges rest" using rest(2) by (simp add: disjoint_ranges_def)
  moreover have "\<forall>q \<in> set rest. rng_stop q < 2 ^ 32 \<and> unat (of_nat fo :: u32) < rng_stop q \<and> aligned_at (unat (of_nat fo :: u32)) q \<and> 0 < rng_blocks q"
    using later small u by fastforce
  moreover have "cut \<noteq> []" using C(1) body(2) by auto
  ultimately have R: "length out = len" "\<And>i. i < len \<Longrightarrow> out ! i = (case find (\<lambda>r. in_range r (fo + i)) rest of
         None \<Rightarrow> cut ! i
       | Some q \<Rightarrow> decrypt_blocks f tb (slice (part_start fo q) (part_end fo len q) cut) ! (i - part_start fo q))"
    using decrypt_ranges_nth [OF f tb, of rest "of_nat fo" cut hb] body small unfolding out u C(1) by auto
  have "out ! i = window_byte f rs full tb fo len i" if i: "i < n" for i
  proof (cases "find (\<lambda>r. in_range r (fo + i)) rest")
    case None
    then have none: "\<forall>q \<in> set rest. \<not> in_range q (fo + i)" by (simp add: find_None_iff)
    have o: "out ! i = cut ! i" using R(2) [of i] None i body(3) by simp
    show ?thesis
    proof (cases "in_range r (fo + i)")
      case True
      then have "decrypted f rs full ! (fo + i) = plain_byte f full (unat (rng_start r)) (fo + i)"
        using ok mem(1) i body by (intro decrypted_in_range) (simp_all add: ranges_ok_def)
      then show ?thesis using o C(3) [OF i True] True by (simp add: window_byte_def r Let_def)
    next
      case False
      then have "\<forall>q \<in> set rs. \<not> in_range q (fo + i)" using none rest(4) by blast
      then have "decrypted f rs full ! (fo + i) = full ! (fo + i)" using i body by (intro decrypted_elsewhere) simp_all
      then show ?thesis using o C(2) [of i] i body(3) False by (simp add: window_byte_def r Let_def)
    qed
  next
    case (Some q)
    then have q: "q \<in> set rest" "in_range q (fo + i)" by (auto simp: find_Some_iff)
    have nr: "\<not> in_range r (fo + i)" using q later(1) [OF q(1)] by (auto simp: in_range_def)
    have same: "slice (part_start fo q) (part_end fo len q) cut = slice (part_start fo q) (part_end fo len q) ?body"
    proof (rule nth_equalityI)
      show "length (slice (part_start fo q) (part_end fo len q) cut) = length (slice (part_start fo q) (part_end fo len q) ?body)"
        by (simp add: length_slice C(1) ls part_end_def)
      fix j assume "j < length (slice (part_start fo q) (part_end fo len q) cut)"
      then have j: "part_start fo q + j < part_end fo len q" "part_end fo len q \<le> len" by (auto simp: slice_def C(1) part_end_def)
      then have "\<not> in_range r (fo + (part_start fo q + j))" using later(1) [OF q(1)] lt(2) by (simp add: in_range_def part_start_def)
      then have "cut ! (part_start fo q + j) = ?body ! (part_start fo q + j)" using C(2) j body(1) by (simp add: slice_def)
      then show "slice (part_start fo q) (part_end fo len q) cut ! j = slice (part_start fo q) (part_end fo len q) ?body ! j"
        using j by (simp add: nth_slice_of C(1) ls)
    qed
    have "out ! i = plain_byte f full (unat (rng_start q)) (fo + i)"
      using R(2) [of i] Some i body(3) part_plain [OF f tb later(2,4) [OF q(1)] q(2) body(1) i body(3) tail'] q(1) rest(3)
      by (auto simp: same)
    also have "\<dots> = decrypted f rs full ! (fo + i)"
      using ok q rest(3) i body by (subst decrypted_in_range) (auto simp: ranges_ok_def)
    finally show ?thesis using nr by (simp add: window_byte_def r Let_def)
  qed
  then show ?thesis using R(1) by blast
qed

section \<open>Reading the store\<close>

lemma u32_get_new [simp]: "u32_get (u32_new v) = v"
proof -
  have "unat v < 4294967296" using unsigned_less [of v, where 'a = nat] by simp
  then show ?thesis by (simp add: u32_get_def u32_new_def uint_get_new)
qed

lemma length_u32_new [simp]: "length (u32_new v) = 4"
  by (simp add: u32_new_def uint_new_eq)

lemma u24_try_from_Some:
  assumes "u24_try_from v = Some bs"
  shows "length bs = 3 \<and> u24_get bs = v"
proof -
  have "\<forall>bs. uint_try_from 3 4 v = Some bs \<longrightarrow> uint_get 3 4 bs = v"
    by (rule uint_laws [where src = "[0, 0, 0]", THEN conjunct2, THEN conjunct2, THEN conjunct2]) simp_all
  moreover have some: "uint_try_from 3 4 v = Some bs" using assms by (simp only: u24_try_from_def)
  moreover have "bs = uint_new 3 4 v"
    using some unfolding uint_try_from_def by (metis option.distinct(1) option.inject)
  ultimately show ?thesis by (simp add: u24_get_def uint_new_eq)
qed

lemma decode_srange_bytes: "length (srange_bytes r) = 8 \<and> decode_srange (srange_bytes r) = Some r"
  by (simp add: srange_bytes_def decode_srange_def field_simps')

lemma ref_elems_srange_bytes:
  "ref_elems decode_srange 8 (concat (map srange_bytes rs) @ rest) (length rs) = Some rs"
  using decoded_at_concat [where xs = rs and enc = srange_bytes and sz = 8 and decode = decode_srange
      and pre = "[]" and post = rest] decode_srange_bytes
  by (simp add: ref_elems_Some decoded_at_def)

text \<open>What was stored under an identifier is read back under it, whatever was stored since.\<close>

lemma store_read_back:
  assumes "store_encryption e enc out = Ok (eid, out')" "length (key enc) = 16"
  shows "\<exists>rs bs. store_ranges (file_offset e) (ucast (file_size e)) (ranges enc) = Ok rs \<and>
    out' = out @ bs \<and> into_index eid = length out \<and>
    store_decrypt decrypt_block (out' @ later) eid ct =
      Ok (decrypt_ranges (decrypt_block (key enc)) (ct_file_offset ct) (head ct) (tail ct)
           (dropWhile (\<lambda>r. rng_end r \<le> ct_file_offset ct) (sort_key rng_end rs)) (body ct))"
proof -
  obtain rs cnt where rs: "store_ranges (file_offset e) (ucast (file_size e)) (ranges enc) = Ok rs"
    and small: "length rs \<le> U32_MAX" and cnt: "u24_try_from (of_nat (length rs)) = Some cnt"
    and eid: "try_from_index (length out) = Some eid"
    and out': "out' = out @ header_bytes (key enc) cnt @ concat (map srange_bytes (sort_key rng_end rs))"
    using assms(1) by (auto simp: store_encryption_def Let_def split: if_splits option.splits)
  note idx = into_try_from_index [OF eid]
  have n: "unat (u24_get cnt) = length (sort_key rng_end rs)"
    using u24_try_from_Some [OF cnt] small by (simp add: unat_of_nat)
  define rc where "rc = header_bytes (key enc) cnt @ concat (map srange_bytes (sort_key rng_end rs)) @ later"
  have got: "get_from (out' @ later) (into_index eid) = Some rc"
    using idx by (simp add: get_from_def out' rc_def)
  have hdr: "length rc \<ge> HEADER_LEN" "rc ! 0 = 0" "field rc 1 16 = key enc" "field rc 17 3 = cnt"
    "drop HEADER_LEN rc = concat (map srange_bytes (sort_key rng_end rs)) @ later"
    using assms(2) u24_try_from_Some [OF cnt] by (simp_all add: rc_def header_bytes_def HEADER_LEN_def field_def)
  have "aes_decrypt decrypt_block (field rc 1 16) (unat (u24_get (field rc 17 3))) ct (drop HEADER_LEN rc) =
      Some (decrypt_ranges (decrypt_block (key enc)) (ct_file_offset ct) (head ct) (tail ct)
           (dropWhile (\<lambda>r. rng_end r \<le> ct_file_offset ct) (sort_key rng_end rs)) (body ct))"
    unfolding hdr(3-5) aes_decrypt_def n using ref_elems_srange_bytes [of "sort_key rng_end rs" later] by simp
  then have "store_decrypt decrypt_block (out' @ later) eid ct =
      Ok (decrypt_ranges (decrypt_block (key enc)) (ct_file_offset ct) (head ct) (tail ct)
           (dropWhile (\<lambda>r. rng_end r \<le> ct_file_offset ct) (sort_key rng_end rs)) (body ct))"
    using hdr(1,2) by (simp add: store_decrypt_def got)
  then show ?thesis using rs idx out' by blast
qed

lemma ref_elems_append: "ref_elems decode sz bs n = Some xs \<Longrightarrow> ref_elems decode sz (bs @ later) n = Some xs"
proof -
  assume a: "ref_elems decode sz bs n = Some xs"
  have "slice (i * sz) (i * sz + sz) (bs @ later) = slice (i * sz) (i * sz + sz) bs"
    if "i < n" "n * sz \<le> length bs" for i
  proof -
    have "Suc i * sz \<le> n * sz" using that(1) by (intro mult_le_mono1) simp
    then have "i * sz + sz \<le> length bs" using that(2) by simp
    then show ?thesis by (simp add: slice_def)
  qed
  with a show ?thesis by (auto simp: ref_elems_Some)
qed

text \<open>Appending to the store does not change what an identifier decrypts.\<close>

lemma store_decrypt_append:
  assumes "store_decrypt decrypt_block store eid ct = Ok b"
  shows "store_decrypt decrypt_block (store @ later) eid ct = Ok b"
proof -
  let ?s = "drop (into_index eid) store"
  have s: "into_index eid \<le> length store" "HEADER_LEN \<le> length ?s" "?s ! 0 = 0"
    and b: "aes_decrypt decrypt_block (field ?s 1 16) (unat (u24_get (field ?s 17 3))) ct (drop HEADER_LEN ?s) = Some b"
    using assms by (auto simp: store_decrypt_def get_from_def split: if_splits option.splits)
  have l: "20 \<le> length ?s" using s(2) by (simp add: HEADER_LEN_def)
  have f: "field (?s @ later) 1 16 = field ?s 1 16" "field (?s @ later) 17 3 = field ?s 17 3"
    "(?s @ later) ! 0 = ?s ! 0" "drop HEADER_LEN (?s @ later) = drop HEADER_LEN ?s @ later"
  proof -
    have "into_index eid < length store" using l by simp
    then show "field (?s @ later) 1 16 = field ?s 1 16" "field (?s @ later) 17 3 = field ?s 17 3"
      "(?s @ later) ! 0 = ?s ! 0" "drop HEADER_LEN (?s @ later) = drop HEADER_LEN ?s @ later"
      using l by (simp_all add: field_append nth_append HEADER_LEN_def)
  qed
  have "aes_decrypt decrypt_block (field ?s 1 16) (unat (u24_get (field ?s 17 3))) ct (drop HEADER_LEN ?s @ later) = Some b"
    using b ref_elems_append by (fastforce simp: aes_decrypt_def)
  moreover have "get_from (store @ later) (into_index eid) = Some (?s @ later)"
    using s(1) by (simp add: get_from_def)
  ultimately show ?thesis using s f by (simp add: store_decrypt_def)
qed

section \<open>Accepted ranges\<close>

definition nonempty_range :: "encryption_range \<Rightarrow> bool" where
  "nonempty_range r \<longleftrightarrow> end_offset r \<noteq> start_offset r"

text \<open>A range the check lets through although it leaves the file.\<close>

definition escapes :: "nat \<Rightarrow> encryption_range \<Rightarrow> bool" where
  "escapes bound r \<longleftrightarrow> start_offset r = 0 \<and> bound < unat (end_offset r)"

lemma stored_range:
  assumes "\<not> end_offset r < start_offset r" "unat (end_offset r - start_offset r) mod BLOCK_SIZE = 0"
    and "\<not> saturating_sub fsize (end_offset r - start_offset r) < start_offset r"
    and "nonempty_range r" "\<not> escapes (unat fsize) r" "unat fsize < 2 ^ 32"
  defines "s \<equiv> \<lparr>rng_start = ucast (start_offset r),
    rng_blocks = ucast (end_offset r - start_offset r) div of_nat BLOCK_SIZE\<rparr>"
  shows "unat (rng_start s) = unat (start_offset r) \<and> rng_stop s = unat (end_offset r) \<and>
    rng_stop s \<le> unat fsize \<and> 0 < rng_blocks s"
proof -
  let ?a = "unat (start_offset r)" and ?b = "unat (end_offset r)"
  have ab: "?a \<le> ?b" using assms(1) by (simp add: word_less_nat_alt)
  then have len: "unat (end_offset r - start_offset r) = ?b - ?a" by (simp add: unat_sub_if')
  have b: "?b \<le> unat fsize"
    using assms(3,5) ab len
    by (auto simp: saturating_sub_def escapes_def word_le_nat_alt word_less_nat_alt unat_sub_if'
        word_unat_eq_iff split: if_splits)
  have small: "?a < 2 ^ 32" "?b - ?a < 2 ^ 32" using b ab assms(6) by simp_all
  have uc: "unat (ucast (start_offset r) :: u32) = ?a"
    "unat (ucast (end_offset r - start_offset r) :: u32) = ?b - ?a"
    using small by (simp_all add: unsigned_ucast_eq take_bit_nat_eq_self len)
  have blocks: "unat (rng_blocks s) = (?b - ?a) div 16"
    unfolding s_def by (simp add: unat_div uc BLOCK_SIZE_def)
  have dvd: "16 * ((?b - ?a) div 16) = ?b - ?a"
    using assms(2) len by (simp add: BLOCK_SIZE_def mod_0_imp_dvd)
  have "?a < ?b" using ab assms(4) by (simp add: nonempty_range_def word_unat_eq_iff)
  then have "0 < unat (rng_blocks s)" using dvd blocks by (metis neq0_conv mult_0_right zero_less_diff)
  moreover have "rng_stop s = ?b" using ab dvd uc(1) by (simp add: rng_stop_def blocks) (simp add: s_def)
  moreover have "unat (rng_start s) = ?a" using uc(1) by (simp add: s_def)
  ultimately show ?thesis using b by (simp add: word_less_nat_alt)
qed

lemma store_ranges_valid:
  assumes "store_ranges off fsize rs = Ok out" "unat fsize < 2 ^ 32"
    and "\<forall>r \<in> set rs. \<not> escapes (unat fsize) r"
  shows "map (\<lambda>s. (unat (rng_start s), rng_stop s)) out =
      map (\<lambda>r. (unat (start_offset r), unat (end_offset r))) (filter nonempty_range rs) \<and>
    (\<forall>s \<in> set out. rng_stop s \<le> unat fsize \<and> 0 < rng_blocks s)"
  using assms(1,3)
proof (induction rs arbitrary: out)
  case (Cons r rs)
  have esc: "\<not> escapes (unat fsize) r" using Cons.prems(2) by simp
  show ?case
  proof (cases "end_offset r - start_offset r = 0")
    case True
    then have "end_offset r = start_offset r" by simp
    then show ?thesis using Cons True by (simp add: nonempty_range_def)
  next
    case False
    then have ne: "nonempty_range r" by (auto simp: nonempty_range_def)
    let ?s = "\<lparr>rng_start = ucast (start_offset r),
      rng_blocks = ucast (end_offset r - start_offset r) div of_nat BLOCK_SIZE\<rparr>"
    obtain out1 where out: "out = ?s # out1" "store_ranges off fsize rs = Ok out1"
      and ok: "\<not> end_offset r < start_offset r" "unat (end_offset r - start_offset r) mod BLOCK_SIZE = 0"
        "\<not> saturating_sub fsize (end_offset r - start_offset r) < start_offset r"
      using Cons.prems(1) False by (auto simp: Let_def split: if_splits)
    have "\<forall>r \<in> set rs. \<not> escapes (unat fsize) r" using Cons.prems(2) by simp
    with Cons.IH [OF out(2)] stored_range [OF ok ne esc assms(2)] ne show ?thesis
      by (simp add: out(1) del: map_eq_conv)
  qed
qed simp

lemma sorted_disjoint:
  assumes "sorted (map rng_end rs)" "\<forall>s \<in> set rs. rng_stop s < 2 ^ 32 \<and> 0 < rng_blocks s"
    and "\<forall>i j. i < j \<longrightarrow> j < length rs \<longrightarrow>
      rng_stop (rs ! i) \<le> unat (rng_start (rs ! j)) \<or> rng_stop (rs ! j) \<le> unat (rng_start (rs ! i))"
  shows "disjoint_ranges rs"
  unfolding disjoint_ranges_def sorted_wrt_iff_nth_less
proof (intro allI impI)
  fix i j assume ij: "i < j" "j < length rs"
  then have "rng_end (rs ! i) \<le> rng_end (rs ! j)"
    using assms(1) by (simp add: sorted_iff_nth_mono)
  then have le: "rng_stop (rs ! i) \<le> rng_stop (rs ! j)"
    using ij assms(2) unat_rng_end by (simp add: word_le_nat_alt)
  have "unat (rng_start (rs ! i)) < rng_stop (rs ! i)"
    using ij assms(2) by (simp add: rng_stop_def word_less_nat_alt)
  then show "rng_stop (rs ! i) \<le> unat (rng_start (rs ! j))" using le assms(3) ij by (meson leD le_trans not_le)
qed

section \<open>The window buffer as a sliding window\<close>

definition last_block :: "bytes \<Rightarrow> bytes" where
  "last_block p = replicate (16 - length p) 0 @ drop (length p - 16) p"

definition first_block :: "bytes \<Rightarrow> bytes" where
  "first_block n = take 16 n @ replicate (16 - length n) 0"

definition buf_bytes :: "aligned_buf option \<Rightarrow> bytes" where
  "buf_bytes x = (case x of None \<Rightarrow> [] | Some (buf, _) \<Rightarrow> buf)"

lemma length_first_block [simp]: "length (first_block n) = 16"
  by (simp add: first_block_def)

lemma length_last_block [simp]: "length (last_block n) = 16"
  by (simp add: last_block_def)

lemma from_buffer_window:
  assumes "window_of cb = (a, Some (bd, off), c)" "0 \<le> off" "off < 2 ^ 32"
  shows "from_buffer cb = Some \<lparr>body = bd, head = last_block (buf_bytes a),
    tail = first_block (buf_bytes c), ct_file_offset = of_int off\<rparr>"
  using window_views [OF assms(1)] assms(2,3)
  by (simp add: from_buffer_def Let_def last_block_def first_block_def buf_bytes_def BLOCK_SIZE_def min_def)

lemma pushes_window:
  "cb_inv cb \<Longrightarrow> cb_inv (fold do_push xs cb) \<and> window_of (fold do_push xs cb) = fold shift xs (window_of cb)"
  by (induction xs arbitrary: cb) (simp_all add: do_push_inv window_of_push)

section \<open>Properties\<close>

text \<open>The three-slot buffer implements a sliding window: after any pushes, the current
  buffer is the last but one pushed, and the ciphertext built from it has the last block of its
  predecessor, zero-extended on the left, as head and the first block of its successor,
  zero-extended on the right, as tail.\<close>

theorem ciphertext_buffer_window:
  assumes "0 \<le> off" "off < 2 ^ 32"
  shows "let cb = fold do_push (xs @ [a, Some (bd, off), c]) ciphertext_buffer_default
    in cb_curr cb = Some (bd, off) \<and>
       from_buffer cb = Some \<lparr>body = bd, head = last_block (buf_bytes a), tail = first_block (buf_bytes c),
         ct_file_offset = of_int off\<rparr> \<and>
       window_of (set_curr x cb) = (a, Some x, c)"
proof -
  let ?cb = "fold do_push (xs @ [a, Some (bd, off), c]) ciphertext_buffer_default"
  obtain w where w: "fold shift xs (window_of ciphertext_buffer_default) = w" by blast
  obtain w1 w2 w3 where "w = (w1, w2, w3)" by (cases w)
  then have win: "window_of ?cb = (a, Some (bd, off), c)"
    using pushes_window [OF default_inv, of "xs @ [a, Some (bd, off), c]"] w by simp
  moreover have "cb_inv ?cb" using pushes_window [OF default_inv] by blast
  ultimately show ?thesis
    unfolding Let_def
    using window_views(2) [OF win] from_buffer_window [OF win assms] window_of_set_curr [of ?cb] by simp
qed

theorem ciphertext_buffer_window_witness:
  "from_buffer (fold do_push [Some ([1, 2], - 2), Some ([3, 4, 5], 0), None] ciphertext_buffer_default) =
    Some \<lparr>body = [3, 4, 5], head = replicate 14 0 @ [1, 2], tail = replicate 16 0, ct_file_offset = 0\<rparr>"
  using ciphertext_buffer_window [of 0 "[]" "Some ([1, 2], - 2)" "[3, 4, 5]" None, unfolded Let_def]
  by (simp add: last_block_def first_block_def buf_bytes_def)

text \<open>C7: decrypting a buffer in place, for every file offset, body length and list of disjoint ranges
  inside the file: each byte outside the ranges stays as it is, and each byte of a range becomes
  the byte of the file decrypted block by block from the start of that range, with one exception.
  When the buffer starts inside a block of a range, that block is completed from the head and
  decrypted, but the rest of this range is not decrypted up to the buffer position that is the file
  offset of the next block, and from there on it is decrypted in blocks counted from that position.
  So a buffer that cuts no block at its start is decrypted to the plaintext. The head holds the 16
  bytes before the buffer (needed when a block is cut) and, for the last bytes, the tail continues
  the file, or 15 more bytes were read, or no block crosses the end of the buffer.\<close>

theorem decrypt_correct:
  assumes "block_ok (decrypt_block k)" "ranges_ok rs (length full)" "fo + len \<le> length full" "0 < len" "n \<le> len"
    and "length (tail ct) = 16" "n + 15 \<le> len \<or> (\<forall>j < 16. fo + len + j < length full \<longrightarrow> tail ct ! j = full ! (fo + len + j)) \<or>
      (\<forall>r \<in> set rs. aligned_at (fo + len) r)"
    and "length (head ct) = 16" "(\<forall>r \<in> set rs. aligned_at fo r) \<or> (\<forall>j < 16. 16 \<le> fo + j \<longrightarrow> head ct ! j = full ! (fo + j - 16))"
    and "body ct = slice fo (fo + len) full" "ct_file_offset ct = of_nat fo"
  shows "\<exists>out. aes_decrypt decrypt_block k (length rs) ct (concat (map srange_bytes rs) @ later) = Some out \<and>
    length out = len \<and> (\<forall>i < n. out ! i = window_byte (decrypt_block k) rs full (tail ct) fo len i) \<and>
    ((\<forall>r \<in> set rs. aligned_at fo r) \<longrightarrow> take n out = slice fo (fo + n) (decrypted (decrypt_block k) rs full))"
proof -
  let ?f = "decrypt_block k"
  define out where "out = decrypt_ranges ?f (of_nat fo) (head ct) (tail ct) (dropWhile (\<lambda>r. rng_end r \<le> of_nat fo) rs) (slice fo (fo + len) full)"
  have run: "aes_decrypt decrypt_block k (length rs) ct (concat (map srange_bytes rs) @ later) = Some out"
    using ref_elems_srange_bytes [of rs later] by (simp add: aes_decrypt_def assms(10,11) out_def)
  have whole: "length out = len \<and> take n out = slice fo (fo + n) (decrypted ?f rs full)" if "\<forall>r \<in> set rs. aligned_at fo r"
    by (rule decrypt_window [OF assms(1,6,2) that assms(3-5,7) out_def])
  have "length out = len \<and> (\<forall>i < n. out ! i = window_byte ?f rs full (tail ct) fo len i)"
  proof (cases "find (\<lambda>r. \<not> aligned_at fo r) rs")
    case None
    then have al: "\<forall>r \<in> set rs. aligned_at fo r" by (simp add: find_None_iff)
    have "out ! i = decrypted ?f rs full ! (fo + i)" if "i < n" for i
    proof -
      have "out ! i = take n out ! i" using that by simp
      also have "\<dots> = slice fo (fo + n) (decrypted ?f rs full) ! i" using whole [OF al] by simp
      also have "\<dots> = decrypted ?f rs full ! (fo + i)" using that assms(3,5) by (simp add: nth_slice_of)
      finally show ?thesis .
    qed
    then show ?thesis using whole [OF al] None by (simp add: window_byte_def)
  next
    case (Some r)
    then have "\<not> (\<forall>r \<in> set rs. aligned_at fo r)" by (auto simp: find_Some_iff)
    then have "\<forall>j < 16. 16 \<le> fo + j \<longrightarrow> head ct ! j = full ! (fo + j - 16)" using assms(9) by blast
    from decrypt_window_cut [OF assms(1,2) Some assms(8) this assms(6,3-5,7) out_def] show ?thesis .
  qed
  then show ?thesis using run whole by blast
qed

text \<open>A buffer of 20 bytes from the middle of a block.\<close>

theorem decrypt_correct_witness:
  "\<exists>out. aes_decrypt (\<lambda>k. map (\<lambda>b. b + 1)) [] 1
      \<lparr>body = replicate 20 7, head = replicate 16 7, tail = replicate 16 7, ct_file_offset = 24\<rparr>
      (srange_bytes \<lparr>rng_start = 0, rng_blocks = 3\<rparr>) = Some out \<and> out ! 7 = 8 \<and> out ! 8 = 7"
proof -
  let ?r = "\<lparr>rng_start = 0, rng_blocks = 3\<rparr> :: srange" and ?full = "replicate 48 (7 :: u8)" and ?inc = "map (\<lambda>b. b + 1 :: u8)"
  let ?ct = "\<lparr>body = replicate 20 7, head = replicate 16 7, tail = replicate 16 7, ct_file_offset = 24\<rparr>"
  have "block_ok ?inc" by (simp add: block_ok_def)
  moreover have "ranges_ok [?r] (length ?full)" by (simp add: ranges_ok_def disjoint_ranges_def rng_stop_def)
  moreover have "body ?ct = slice 24 (24 + 20) ?full" by (simp add: slice_def)
  moreover have "\<forall>j < 16. 16 \<le> 24 + j \<longrightarrow> head ?ct ! j = ?full ! (24 + j - 16)" by simp
  moreover have "\<forall>j < 16. 24 + 20 + j < length ?full \<longrightarrow> tail ?ct ! j = ?full ! (24 + 20 + j)" by simp
  ultimately obtain out where out: "aes_decrypt (\<lambda>k. ?inc) [] 1 ?ct (srange_bytes ?r) = Some out"
    "\<forall>i < 20. out ! i = window_byte ?inc [?r] ?full (replicate 16 7) 24 20 i"
    using decrypt_correct [of "\<lambda>_. ?inc" "[]" "[?r]" ?full 24 20 20 ?ct "[]"] by auto
  have "out ! 7 = window_byte ?inc [?r] ?full (replicate 16 7) 24 20 7" "out ! 8 = window_byte ?inc [?r] ?full (replicate 16 7) 24 20 8"
    using out(2) by simp_all
  moreover have "window_byte ?inc [?r] ?full (replicate 16 7) 24 20 7 = 8"
    by (simp add: window_byte_def aligned_at_def rng_stop_def in_range_def decrypted_def plain_byte_def slice_def Let_def)
  moreover have "window_byte ?inc [?r] ?full (replicate 16 7) 24 20 8 = 7"
    by (simp add: window_byte_def aligned_at_def rng_stop_def in_range_def Let_def)
  ultimately show ?thesis using out(1) by auto
qed

text \<open>Storing an encryption record and decrypting under the returned identifier, after any
  further records were appended, decrypts with the stored key and the accepted ranges sorted by
  their ends; whatever already decrypted from the store decrypts the same afterwards.\<close>

theorem store_round_trip:
  assumes "store_encryption e enc out = Ok (eid, out')" "length (key enc) = 16"
  shows "into_index eid = length out \<and>
    (\<exists>rs. store_ranges (file_offset e) (ucast (file_size e)) (ranges enc) = Ok rs \<and>
      store_decrypt decrypt_block (out' @ later) eid ct =
        Ok (decrypt_ranges (decrypt_block (key enc)) (ct_file_offset ct) (head ct) (tail ct)
           (dropWhile (\<lambda>r. rng_end r \<le> ct_file_offset ct) (sort_key rng_end rs)) (body ct))) \<and>
    (store_decrypt decrypt_block out eid' ct = Ok b \<longrightarrow> store_decrypt decrypt_block out' eid' ct = Ok b)"
  using store_read_back [OF assms, of decrypt_block later ct]
    store_decrypt_append [of decrypt_block out eid' ct b] by metis

definition sample_encryption :: encryption where
  "sample_encryption = \<lparr>key = replicate 16 9, range_count = 1,
     ranges = [\<lparr>start_offset = 16, end_offset = 48\<rparr>]\<rparr>"

lemma sample_stored:
  "\<exists>eid out'. store_encryption (FileEntryDs 1 64 0) sample_encryption [] = Ok (eid, out')"
proof -
  have "u24_try_from 1 \<noteq> None"
    using uint_laws [where 'w = 32 and b = 3 and w = 4 and src = "[0, 0, 0]" and v = 1, THEN conjunct2,
        THEN conjunct2, THEN conjunct1]
    by (simp add: u24_try_from_def)
  moreover have "try_from_index 0 \<noteq> None" by (simp add: try_from_index_None)
  ultimately show ?thesis
    by (auto simp: store_encryption_def sample_encryption_def clamp_i32_def BLOCK_SIZE_def
        saturating_sub_def Let_def)
qed

theorem store_round_trip_witness:
  "\<exists>eid out'. store_encryption (FileEntryDs 1 64 0) sample_encryption [] = Ok (eid, out') \<and>
     into_index eid = 0"
  using sample_stored store_round_trip [of "FileEntryDs 1 64 0" sample_encryption "[]"]
  by (fastforce simp: sample_encryption_def)

text \<open>C27: unless a range starts at 0 and ends behind the file, what is stored are exactly the
  nonempty ranges of the record, all inside the file and free of wrap-around; if they are
  pairwise disjoint, sorting them by their ends gives what decryption relies on.\<close>

theorem stored_ranges_ok:
  assumes "store_encryption e enc out = Ok (eid, out')" "\<forall>r \<in> set (ranges enc). \<not> escapes (unat (file_size e)) r"
  shows "\<exists>rs. store_ranges (file_offset e) (ucast (file_size e)) (ranges enc) = Ok rs \<and>
    map (\<lambda>s. (unat (rng_start s), rng_stop s)) rs =
      map (\<lambda>r. (unat (start_offset r), unat (end_offset r))) (filter nonempty_range (ranges enc)) \<and>
    (\<forall>s \<in> set rs. rng_stop s \<le> unat (file_size e) \<and> 0 < rng_blocks s) \<and>
    ((\<forall>i j. i < j \<longrightarrow> j < length rs \<longrightarrow>
        rng_stop (sort_key rng_end rs ! i) \<le> unat (rng_start (sort_key rng_end rs ! j)) \<or>
        rng_stop (sort_key rng_end rs ! j) \<le> unat (rng_start (sort_key rng_end rs ! i))) \<longrightarrow>
     ranges_ok (sort_key rng_end rs) (unat (file_size e)))"
proof -
  obtain rs where rs: "store_ranges (file_offset e) (ucast (file_size e)) (ranges enc) = Ok rs"
    using assms(1) by (auto simp: store_encryption_def)
  have small: "unat (file_size e) < 2 ^ 32" using unsigned_less [of "file_size e", where 'a = nat] by simp
  note valid = store_ranges_valid [OF rs, unfolded unat_ucast_u32, OF small assms(2)]
  have "ranges_ok (sort_key rng_end rs) (unat (file_size e))"
    if "\<forall>i j. i < j \<longrightarrow> j < length rs \<longrightarrow>
        rng_stop (sort_key rng_end rs ! i) \<le> unat (rng_start (sort_key rng_end rs ! j)) \<or>
        rng_stop (sort_key rng_end rs ! j) \<le> unat (rng_start (sort_key rng_end rs ! i))"
  proof -
    have "\<forall>s \<in> set (sort_key rng_end rs). rng_stop s < 2 ^ 32 \<and> 0 < rng_blocks s"
      using valid small by (auto intro: le_less_trans)
    with that have "disjoint_ranges (sort_key rng_end rs)" by (intro sorted_disjoint) simp_all
    then show ?thesis using valid small by (simp add: ranges_ok_def)
  qed
  then show ?thesis using rs valid by blast
qed

theorem stored_ranges_ok_witness:
  "\<exists>rs. store_ranges 0 64 (ranges sample_encryption) = Ok rs \<and>
     map (\<lambda>s. (unat (rng_start s), rng_stop s)) rs = [(16, 48)]"
proof -
  obtain eid out' where "store_encryption (FileEntryDs 1 64 0) sample_encryption [] = Ok (eid, out')"
    using sample_stored by blast
  moreover have "\<forall>r \<in> set (ranges sample_encryption). \<not> escapes (unat (file_size (FileEntryDs 1 64 0))) r"
    by (simp add: sample_encryption_def escapes_def)
  ultimately obtain rs where
    rs: "store_ranges 0 (ucast (clamp_i32 64)) (ranges sample_encryption) = Ok rs"
    "map (\<lambda>s. (unat (rng_start s), rng_stop s)) rs =
      map (\<lambda>r. (unat (start_offset r), unat (end_offset r))) (filter nonempty_range (ranges sample_encryption))"
    using stored_ranges_ok [of "FileEntryDs 1 64 0" sample_encryption "[]" eid out'] by auto
  have "ucast (clamp_i32 64) = (64 :: u64)" by (simp add: clamp_i32_def)
  with rs show ?thesis
    by (intro exI [of _ rs]) (simp del: store_ranges.simps add: sample_encryption_def nonempty_range_def)
qed

text \<open>A range that starts at 0 is never found out of bounds: any multiple of the block
  size is accepted as its end, whatever the size of the file, and its length is truncated to
  32 bits.\<close>

theorem zero_range_unchecked:
  assumes "0 < unat stop" "unat stop mod 16 = 0"
  shows "store_ranges off fsize [\<lparr>start_offset = 0, end_offset = stop\<rparr>] =
    Ok [\<lparr>rng_start = 0, rng_blocks = ucast stop div 16\<rparr>]"
  using assms by (auto simp: Let_def BLOCK_SIZE_def saturating_sub_def word_less_nat_alt)

theorem zero_range_unchecked_witness:
  "store_ranges 0 5 [\<lparr>start_offset = 0, end_offset = 0x100000010\<rparr>] =
    Ok [\<lparr>rng_start = 0, rng_blocks = 1\<rparr>]"
  using zero_range_unchecked [of "0x100000010" 0 5] by simp

end
