(* ===== verification/DvdbndFs.thy ===== *)
theory DvdbndFs
  imports Hash RofsLookup Encryption
begin

text \<open>
  The filesystem of a set of archives (\<open>src/dvdbnd/filesystem.rs\<close>, the dictionary of
  \<open>src/dvdbnd/dict.rs\<close>): the entries of every header are given the path the dictionary
  has for their hash, or one made from the hash, their encryption records go to the store
  of the archive, the files of an archive make a tree, and the trees are merged and frozen.
  The parallel reduction combines the trees in any order and any grouping: it is a relation.
  Cached trees are an argument; what is written to the cache is in \<open>Start\<close>.
\<close>

section \<open>Archives and files\<close>

type_synonym src_id = bytes

text \<open>The 12 leading bytes of a 128-bit hash of the header file.\<close>

definition src_id_of :: "128 word \<Rightarrow> src_id" where
  "src_id_of value = take 12 (nat_be 16 (unat value))"

text \<open>The hasher keeps the last eight bytes it is given.\<close>

definition src_id_hasher_write :: "bytes \<Rightarrow> u64 \<Rightarrow> u64 option" where
  "src_id_hasher_write bs state = (if length bs < 8 then None else Some (of_nat (be_nat (take 8 bs))))"

record dvdbnd_file =
  data_offset :: u64
  f_len :: u32
  f_unpadded_len :: u32
  file_src_id :: src_id
  file_encryption_id :: "encryption_id option"

definition unpadded_len :: "dvdbnd_file \<Rightarrow> u32" where
  "unpadded_len f = (if f_unpadded_len f = 0 then f_len f else f_unpadded_len f)"

section \<open>The dictionary\<close>

type_synonym dictionary = "(string \<times> string) list"

text \<open>\<open>str::lines\<close>: split behind every line feed, then drop it and a carriage return before it.\<close>

fun split_inclusive :: "string \<Rightarrow> string list" where
  "split_inclusive [] = []"
| "split_inclusive (c # s) =
     (if c = CHR 0x0A then [c] # split_inclusive s
      else case split_inclusive s of [] \<Rightarrow> [[c]] | l # ls \<Rightarrow> (c # l) # ls)"

definition trim_line :: "string \<Rightarrow> string" where
  "trim_line line =
     (case strip_suffix [CHR 0x0A] line of
        None \<Rightarrow> line
      | Some line \<Rightarrow> (case strip_suffix [CHR 0x0D] line of None \<Rightarrow> line | Some line \<Rightarrow> line))"

definition str_lines :: "string \<Rightarrow> string list" where
  "str_lines s = map trim_line (split_inclusive s)"

definition hash_path_iter :: "dictionary \<Rightarrow> string \<Rightarrow> (string \<Rightarrow> 'h option) \<Rightarrow> ('h \<times> string) list" where
  "hash_path_iter by_bnd bnd_name f =
     (case map_of by_bnd (to_ascii_lowercase bnd_name) of
        None \<Rightarrow> []
      | Some contents \<Rightarrow> List.map_filter (\<lambda>path. map_option (\<lambda>h. (h, path)) (f path)) (str_lines contents))"

text \<open>Collected into a hash map: of two paths with one hash the later one stays.\<close>

definition hash_paths32 :: "dictionary \<Rightarrow> string \<Rightarrow> u32 \<Rightarrow> string option" where
  "hash_paths32 dict bnd_name = map_of (rev (hash_path_iter dict bnd_name hash_path32))"

definition hash_paths64 :: "dictionary \<Rightarrow> string \<Rightarrow> u64 \<Rightarrow> string option" where
  "hash_paths64 dict bnd_name = map_of (rev (hash_path_iter dict bnd_name hash_path64))"

section \<open>Names from hashes\<close>

definition hex_digit :: "nat \<Rightarrow> char" where
  "hex_digit n = ''0123456789abcdef'' ! n"

fun hex :: "nat \<Rightarrow> string" where
  "hex n = (if n < 16 then [hex_digit n] else hex (n div 16) @ [hex_digit (n mod 16)])"

declare hex.simps [simp del]

definition pad :: "char \<Rightarrow> nat \<Rightarrow> string \<Rightarrow> string" where
  "pad c w s = replicate (w - length s) c @ s"

definition hash_name :: "string \<Rightarrow> u64 \<Rightarrow> string" where
  "hash_name name h =
     (if unat h \<le> U32_MAX
      then ''.'' @ name @ ''/'' @ pad CHR ''0'' 2 (hex (unat (drop_bit 24 h))) @ ''/'' @ pad CHR ''0'' 8 (hex (unat h))
      else ''.'' @ name @ ''/'' @ pad CHR ''0'' 2 (hex (unat (drop_bit 56 h))) @ ''/'' @ pad CHR '' '' 16 (hex (unat h)))"

definition entry_hashes :: "entry_layout \<Rightarrow> dictionary option \<Rightarrow> string \<Rightarrow> u64 \<Rightarrow> string option" where
  "entry_hashes layout dict name h =
     (case dict of
        None \<Rightarrow> None
      | Some dict \<Rightarrow> if U64_HASH layout then hash_paths64 dict name h else hash_paths32 dict name (ucast h))"

definition entry_path :: "entry_layout \<Rightarrow> dictionary option \<Rightarrow> string \<Rightarrow> u64 \<Rightarrow> string" where
  "entry_path layout dict name h =
     (case entry_hashes layout dict name h of Some path \<Rightarrow> path | None \<Rightarrow> hash_name name h)"

section \<open>One archive\<close>

fun process_entries ::
  "(u64 \<Rightarrow> string) \<Rightarrow> src_id \<Rightarrow> (file_entry \<times> encryption option) list \<Rightarrow> bytes \<Rightarrow>
     (store_error, (string \<times> dvdbnd_file) list \<times> bytes) outcome" where
  "process_entries path_of src [] store = Ok ([], store)"
| "process_entries path_of src ((e, enc) # rest) store =
     obind (case enc of
              Some enc \<Rightarrow> obind (store_encryption e enc store) (\<lambda>(eid, store). Ok (Some eid, store))
            | None \<Rightarrow> Ok (None, store)) (\<lambda>(eid, store).
       let f = \<lparr>data_offset = file_offset e, f_len = file_size e,
                f_unpadded_len = (case unpadded_file_size e of Some n \<Rightarrow> n | None \<Rightarrow> 0),
                file_src_id = src, file_encryption_id = eid\<rparr>
       in obind (process_entries path_of src rest store) (\<lambda>(files, store).
            Ok ((path_of (path_hash e), f) # files, store)))"

definition process_files ::
  "dictionary option \<Rightarrow> entry_layout \<Rightarrow> file_entry list list \<Rightarrow> string \<Rightarrow> src_id \<Rightarrow> encryption option list \<Rightarrow>
     (store_error, (string \<times> dvdbnd_file) list \<times> bytes \<times> src_id) outcome" where
  "process_files dict layout entries name src encryption =
     obind (process_entries (entry_path layout dict name) src (zip (concat entries) encryption) [])
       (\<lambda>(files, store). Ok (files, store, src))"

text \<open>\<open>Path::file_name\<close> and \<open>Path::file_prefix\<close>: the part before the first dot that does not
  start the name.\<close>

definition path_file_name :: "string \<Rightarrow> string option" where
  "path_file_name path =
     (case rev (filter (\<lambda>c. c \<noteq> [] \<and> c \<noteq> ''.'') (split_on ''/'' path)) of
        [] \<Rightarrow> None
      | c # _ \<Rightarrow> if c = ''..'' then None else Some c)"

definition path_file_prefix :: "string \<Rightarrow> string option" where
  "path_file_prefix path =
     map_option (\<lambda>name. case name of [] \<Rightarrow> [] | c # rest \<Rightarrow> c # takeWhile (\<lambda>c. c \<noteq> CHR ''.'') rest)
       (path_file_name path)"

definition process_bhd ::
  "dictionary option \<Rightarrow> bhd_file \<Rightarrow> string \<Rightarrow> src_id \<Rightarrow>
     (store_error, (string \<times> dvdbnd_file) list \<times> bytes \<times> src_id) outcome" where
  "process_bhd dict bhd path src =
     (let name = (case path_file_prefix path of Some name \<Rightarrow> name | None \<Rightarrow> []);
          enc = file_encryption bhd
      in case file_buckets bhd of
           BDarkSouls e \<Rightarrow> process_files dict LayoutDs e name src enc
         | BDarkSouls2 e \<Rightarrow> process_files dict LayoutDs2 e name src enc
         | BDarkSouls3 e \<Rightarrow> process_files dict LayoutDs3 e name src enc
         | BEldenRing e \<Rightarrow> process_files dict LayoutEr e name src enc)"

section \<open>All archives\<close>

record builder =
  bhds :: "(string \<times> bhd5_file \<times> src_id) list"
  dict :: "dictionary option"
  cached :: "(src_id \<times> dvdbnd_file rofs_object \<times> bytes) list"

record dvdbnd_rofs =
  inner_fs :: "dvdbnd_file rofs"
  encryption_stores :: "(src_id \<times> bytes) list"

text \<open>\<open>HashMap::extend\<close>: a later value replaces an earlier one with the same key.\<close>

definition map_extend :: "('k \<times> 'v) list \<Rightarrow> ('k \<times> 'v) list \<Rightarrow> ('k \<times> 'v) list" where
  "map_extend m kvs = fold (\<lambda>(k, v). AList.update k v) kvs m"

definition builder_default :: builder where
  "builder_default = \<lparr>bhds = [], dict = None, cached = []\<rparr>"

definition with_dict :: "dictionary option \<Rightarrow> builder \<Rightarrow> builder" where
  "with_dict d b = b\<lparr>dict := d\<rparr>"

definition with_bhds :: "(string \<times> bhd5_file \<times> src_id) list \<Rightarrow> builder \<Rightarrow> builder" where
  "with_bhds xs b = b\<lparr>bhds := map_extend (bhds b) xs\<rparr>"

definition with_cached :: "(src_id \<times> dvdbnd_file rofs_object \<times> bytes) list \<Rightarrow> builder \<Rightarrow> builder" where
  "with_cached xs b = b\<lparr>cached := xs\<rparr>"

text \<open>Building the tree of an archive only panics; that error type is not the one of the store.\<close>

definition lift_panic :: "('e, 'a) outcome \<Rightarrow> ('f, 'a) outcome" where
  "lift_panic r = (case r of Ok x \<Rightarrow> Ok x | _ \<Rightarrow> Panic)"

definition archive_object ::
  "(string \<times> dvdbnd_file) list \<times> bytes \<times> src_id \<Rightarrow> (store_error, src_id \<times> dvdbnd_file rofs_object) outcome" where
  "archive_object = (\<lambda>(files, store, src).
     obind (lift_panic (rofs_new DvdbndConfig_SEPARATORS files)) (\<lambda>obj. Ok (src, obj)))"

definition finish_objects ::
  "builder \<Rightarrow> (store_error, (src_id \<times> dvdbnd_file rofs_object) list \<times> (src_id \<times> bytes) list) outcome" where
  "finish_objects b =
     obind (collect (\<lambda>(name, bhd, src). case bhd of
                Bhd5_LE k \<Rightarrow> process_bhd (dict b) k name src
              | Bhd5_BE k \<Rightarrow> process_bhd (dict b) k name src) (bhds b)) (\<lambda>files.
     obind (collect archive_object files) (\<lambda>objs.
       Ok (map_extend (map_extend [] (map (\<lambda>(src, obj, store). (src, obj)) (cached b))) objs,
           map_extend (map_extend [] (map (\<lambda>(src, obj, store). (src, store)) (cached b)))
             (map (\<lambda>(files, store, src). (src, store)) files))))"

text \<open>The parallel \<open>reduce\<close> with the identity \<open>default\<close>: any grouping, identities anywhere.\<close>

inductive reduces :: "'a rofs_object list \<Rightarrow> 'a rofs_object \<Rightarrow> bool" where
  identity: "reduces [] rofs_object_default"
| single: "reduces [x] x"
| join: "reduces xs a \<Longrightarrow> reduces ys b \<Longrightarrow> rofs_merge a b = Ok c \<Longrightarrow> reduces (xs @ ys) c"

text \<open>\<open>finish\<close>: the maps are iterated in any order.\<close>

inductive finish :: "(nat \<Rightarrow> nat list) \<Rightarrow> builder \<Rightarrow> dvdbnd_rofs \<Rightarrow> bool" where
  "finish_objects b = Ok (objs, stores) \<Longrightarrow> mset xs = mset (map snd objs) \<Longrightarrow> reduces xs obj \<Longrightarrow>
     into_rofs layout obj = Ok fs \<Longrightarrow> finish layout b \<lparr>inner_fs = fs, encryption_stores = stores\<rparr>"

inductive_cases finishE: "finish layout b r"

text \<open>The store of an archive; indexing the map with an unknown archive panics.\<close>

definition encryption_store :: "dvdbnd_rofs \<Rightarrow> src_id \<Rightarrow> bytes option" where
  "encryption_store fs src = map_of (encryption_stores fs) src"

section \<open>What an archive contributes\<close>

text \<open>The path and the file made from an entry and its encryption record, and what the
  identifier decrypts with in a store.\<close>

definition decrypts_with ::
  "bytes \<Rightarrow> encryption_id \<Rightarrow> file_entry \<Rightarrow> encryption \<Rightarrow> (bytes \<Rightarrow> bytes \<Rightarrow> bytes) \<Rightarrow> ciphertext \<Rightarrow> bool" where
  "decrypts_with store eid e enc decrypt_block ct \<longleftrightarrow>
     (\<exists>rs. store_ranges (file_offset e) (ucast (file_size e)) (ranges enc) = Ok rs \<and>
        store_decrypt decrypt_block store eid ct =
          Ok (decrypt_ranges (decrypt_block (key enc)) (ct_file_offset ct) (head ct) (tail ct)
             (dropWhile (\<lambda>r. rng_end r \<le> ct_file_offset ct) (sort_key rng_end rs)) (body ct)))"

definition file_of ::
  "(u64 \<Rightarrow> string) \<Rightarrow> src_id \<Rightarrow> bytes \<Rightarrow> file_entry \<times> encryption option \<Rightarrow> string \<times> dvdbnd_file \<Rightarrow> bool" where
  "file_of path_of src store x y \<longleftrightarrow>
     fst y = path_of (path_hash (fst x)) \<and> data_offset (snd y) = file_offset (fst x) \<and>
     f_len (snd y) = file_size (fst x) \<and> file_src_id (snd y) = src \<and>
     unpadded_len (snd y) =
       (case unpadded_file_size (fst x) of None \<Rightarrow> file_size (fst x)
        | Some n \<Rightarrow> if n = 0 then file_size (fst x) else n) \<and>
     (file_encryption_id (snd y) = None \<longleftrightarrow> snd x = None) \<and>
     (\<forall>eid enc decrypt_block ct. file_encryption_id (snd y) = Some eid \<longrightarrow> snd x = Some enc \<longrightarrow>
        decrypts_with store eid (fst x) enc decrypt_block ct)"

lemma decrypts_with_later:
  "decrypts_with store eid e enc decrypt_block ct \<Longrightarrow> decrypts_with (store @ later) eid e enc decrypt_block ct"
  unfolding decrypts_with_def using store_decrypt_append by blast

lemma decrypts_with_stored:
  assumes "store_encryption e enc store = Ok (eid, store')" "length (key enc) = 16"
  shows "decrypts_with store' eid e enc decrypt_block ct \<and> (\<exists>bs. store' = store @ bs)"
  using store_read_back [OF assms, of decrypt_block "[]" ct] unfolding decrypts_with_def by auto

lemma process_entries_files:
  assumes "process_entries path_of src xs store = Ok (files, store')"
    and "\<forall>x \<in> set xs. \<forall>enc. snd x = Some enc \<longrightarrow> length (key enc) = 16"
  shows "(\<exists>bs. store' = store @ bs) \<and> list_all2 (file_of path_of src store') xs files"
  using assms
proof (induction xs arbitrary: store files)
  case (Cons x xs)
  obtain e enc where x: "x = (e, enc)" by (cases x)
  obtain eid store1 files' where
    s1: "(case enc of Some enc \<Rightarrow> obind (store_encryption e enc store) (\<lambda>(eid, store). Ok (Some eid, store))
          | None \<Rightarrow> Ok (None, store)) = Ok (eid, store1)"
    and rest: "process_entries path_of src xs store1 = Ok (files', store')"
    and files: "files = (path_of (path_hash e), \<lparr>data_offset = file_offset e, f_len = file_size e,
      f_unpadded_len = (case unpadded_file_size e of Some n \<Rightarrow> n | None \<Rightarrow> 0),
      file_src_id = src, file_encryption_id = eid\<rparr>) # files'"
    using Cons.prems(1) unfolding x process_entries.simps Let_def obind_eq_Ok by auto
  obtain bs where IH: "store' = store1 @ bs" "list_all2 (file_of path_of src store') xs files'"
    using Cons.IH [OF rest] Cons.prems(2) by auto
  have new: "\<exists>bs. store1 = store @ bs" and eid: "eid = None \<longleftrightarrow> enc = None"
    "eid = Some i \<Longrightarrow> enc = Some r \<Longrightarrow> decrypts_with store1 i e r d ct" for i r d ct
    using s1 Cons.prems(2) decrypts_with_stored [of e _ store _ store1]
    by (auto simp: x split: option.splits)
  have "file_of path_of src store' x (hd files)"
    unfolding file_of_def files IH(1) using eid decrypts_with_later
    by (auto simp: x unpadded_len_def split: option.split)
  then show ?case using IH new by (auto simp: files)
qed simp

section \<open>Merging all trees\<close>

lemma free_merge:
  "branch_inv Q R b \<Longrightarrow> free a cs \<Longrightarrow> free b cs \<Longrightarrow> free (merge_branch a b) cs"
proof (induction cs arbitrary: a b)
  case (Cons c cs)
  have m: "map_of (merge_branch a b) c =
       (case map_of a c of
          None \<Rightarrow> map_of b c
        | Some (Branch x) \<Rightarrow>
            (case map_of b c of Some (Branch y) \<Rightarrow> Some (Branch (merge_branch x y)) | _ \<Rightarrow> Some (Branch x))
        | Some (Leaf d) \<Rightarrow> Some (Leaf d))"
    using Cons.prems by (intro merge_branch_map_of) (simp add: branch_inv_def)
  have sub: "free (merge_branch x y) cs" if "map_of b c = Some (Branch y)" "free x cs" "free y cs" for x y
    using branch_inv_map_of [OF Cons.prems(1) that(1)] that(2,3) by (intro Cons.IH) simp_all
  show ?case
    using Cons.prems(2,3) sub by (auto simp: m split: option.splits tree_node.splits)
qed simp

lemma free_adjust: "free (adjust_files off b) cs \<longleftrightarrow> free b cs"
proof (induction b cs rule: free.induct)
  case (2 b c cs)
  have m: "map_of (adjust_files off b) c = map_option (adjust_node off) (map_of b c)"
    by (induction b) (auto simp: adjust_files_def)
  show ?case using 2 by (auto simp: m split: option.splits tree_node.splits)
qed simp

lemma object_free_merge:
  assumes "object_inv S a" "object_inv S b" "rofs_merge a b = Ok m" "object_free a cs" "object_free b cs"
  shows "object_free m cs"
proof (cases "obj_root a = [] \<or> obj_root b = []")
  case False
  with assms obtain x y where x: "obj_root a = [([], Branch x)]" "obj_root b = [([], Branch y)]"
    and inv: "branch_inv (name_ok S) (\<lambda>d. d < length (obj_files b)) y"
    by (auto simp: object_inv_def)
  let ?off = "length (obj_files a) mod 2 ^ 32"
  from assms(3) x have m: "obj_root m = [([], Branch (merge_branch x (adjust_files ?off y)))]"
    by (auto simp: rofs_merge_def Let_def assert_u32_def adjust_files_def split: if_splits)
  have "branch_inv (name_ok S) (\<lambda>_. True) (adjust_files ?off y)"
    using inv by (rule adjust_files_inv) simp
  then show ?thesis
    using assms(4,5) x m by (simp add: object_free_def free_merge free_adjust)
qed (use assms in \<open>auto simp: rofs_merge_def split: if_splits\<close>)

lemma object_free_lookup: "object_free a cs \<Longrightarrow> object_lookup a cs = None"
  by (simp add: object_free_def object_lookup_def file_at_def free_find_leaf del: free.simps find_leaf_Cons)

text \<open>Whatever the order and the grouping: every file of the result is a file of some tree, and
  a path that only one tree occupies keeps its file.\<close>

lemma reduces_keeps:
  assumes "reduces xs m" "\<forall>x \<in> set xs. object_inv S x"
  shows "object_inv S m \<and>
    (\<forall>f. object_lookup m cs = Some f \<longrightarrow> (\<exists>x \<in> set xs. object_lookup x cs = Some f)) \<and>
    ((\<forall>x \<in> set xs. object_free x cs) \<longrightarrow> object_free m cs) \<and>
    (\<forall>ys x zs. xs = ys @ x # zs \<longrightarrow> (\<forall>y \<in> set (ys @ zs). object_free y cs) \<longrightarrow>
       object_lookup m cs = object_lookup x cs)"
  using assms
proof (induction rule: reduces.induct)
  case identity
  then show ?case by (simp add: object_inv_def rofs_object_default_def object_lookup_def file_at_def object_free_def)
next
  case (single x)
  then show ?case by (auto simp: Cons_eq_append_conv)
next
  case (join xs a ys b c)
  have IHa: "object_inv S a" "\<And>f. object_lookup a cs = Some f \<Longrightarrow> \<exists>x \<in> set xs. object_lookup x cs = Some f"
    "(\<forall>x \<in> set xs. object_free x cs) \<Longrightarrow> object_free a cs"
    "\<And>us x zs. xs = us @ x # zs \<Longrightarrow> (\<forall>y \<in> set (us @ zs). object_free y cs) \<Longrightarrow> object_lookup a cs = object_lookup x cs"
    using join.IH(1) join.prems by auto
  have IHb: "object_inv S b" "\<And>f. object_lookup b cs = Some f \<Longrightarrow> \<exists>x \<in> set ys. object_lookup x cs = Some f"
    "(\<forall>x \<in> set ys. object_free x cs) \<Longrightarrow> object_free b cs"
    "\<And>us x zs. ys = us @ x # zs \<Longrightarrow> (\<forall>y \<in> set (us @ zs). object_free y cs) \<Longrightarrow> object_lookup b cs = object_lookup x cs"
    using join.IH(2) join.prems by auto
  note inv = rofs_merge_inv [OF IHa(1) IHb(1) join.hyps(3)]
  note look = rofs_merge_lookup [OF IHa(1) IHb(1) join.hyps(3), of cs]
  show ?case
  proof (intro conjI allI impI inv)
    fix f assume "object_lookup c cs = Some f"
    then show "\<exists>x \<in> set (xs @ ys). object_lookup x cs = Some f"
      using look IHa(2) IHb(2) by (auto split: if_splits)
  next
    assume "\<forall>x \<in> set (xs @ ys). object_free x cs"
    then show "object_free c cs"
      using object_free_merge [OF IHa(1) IHb(1) join.hyps(3)] IHa(3) IHb(3) by simp
  next
    fix us x zs assume split: "xs @ ys = us @ x # zs" and free: "\<forall>y \<in> set (us @ zs). object_free y cs"
    then consider ws where "us = xs @ ws" "ys = ws @ x # zs" | ws where "xs = us @ x # ws" "zs = ws @ ys"
      by (auto simp: append_eq_append_conv2 append_eq_Cons_conv Cons_eq_append_conv)
    then show "object_lookup c cs = object_lookup x cs"
    proof cases
      case 1
      then show ?thesis using look IHa(3) IHb(4) free by simp
    next
      case 2
      then have "object_lookup a cs = object_lookup x cs" "object_free b cs"
        using IHa(4) [OF 2(1)] IHb(3) free by (simp_all add: ball_Un 2)
      then show ?thesis using look object_free_lookup by (metis)
    qed
  qed
qed

text \<open>The maps keyed by archive.\<close>

lemma map_extend_simps [simp]:
  "map_extend m [] = m" "map_extend m ((k, v) # kvs) = map_extend (AList.update k v m) kvs"
  by (simp_all add: map_extend_def)

lemma map_of_map_extend:
  "map_of (map_extend m kvs) k = (case map_of (rev kvs) k of Some v \<Rightarrow> Some v | None \<Rightarrow> map_of m k)"
proof (induction kvs arbitrary: m)
  case (Cons x kvs)
  then show ?case by (cases x) (auto simp: map_add_def split: option.split)
qed simp

lemma distinct_map_extend: "distinct (map fst m) \<Longrightarrow> distinct (map fst (map_extend m kvs))"
proof (induction kvs arbitrary: m)
  case (Cons x kvs)
  then show ?case by (cases x) (simp add: distinct_fst_update)
qed simp

lemma set_map_extend: "set (map_extend m kvs) \<subseteq> set m \<union> set kvs"
proof (induction kvs arbitrary: m)
  case (Cons x kvs)
  obtain k v where x: "x = (k, v)" by (cases x)
  have "set (AList.update k v m) \<subseteq> insert (k, v) (set m)"
    by (induction m) auto
  then show ?case using Cons [of "AList.update k v m"] by (auto simp: x)
qed simp

lemma archive_object_Ok:
  "archive_object (files, store, src) = Ok x \<longleftrightarrow>
     (\<exists>obj. x = (src, obj) \<and> rofs_new DvdbndConfig_SEPARATORS files = Ok obj)"
  by (auto simp: archive_object_def lift_panic_def split: outcome.splits)

text \<open>The archive behind either byte order.\<close>

definition bhd_of :: "bhd5_file \<Rightarrow> bhd_file" where
  "bhd_of bhd = (case bhd of Bhd5_LE k \<Rightarrow> k | Bhd5_BE k \<Rightarrow> k)"

lemma process_bhd_src: "process_bhd d k name src = Ok (files, store, src') \<Longrightarrow> src' = src"
  by (auto simp: process_bhd_def process_files_def Let_def split: buckets.splits)

lemma map_of_distinct_rev: "distinct (map fst xs) \<Longrightarrow> (k, v) \<in> set xs \<Longrightarrow> map_of (rev xs) k = Some v"
  by (simp add: map_of_eq_Some_iff rev_map [symmetric])

lemma list_all2_left: "list_all2 P xs ys \<Longrightarrow> x \<in> set xs \<Longrightarrow> \<exists>y \<in> set ys. P x y"
  by (induction rule: list_all2_induct) auto

lemma list_all2_right: "list_all2 P xs ys \<Longrightarrow> y \<in> set ys \<Longrightarrow> \<exists>x \<in> set xs. P x y"
  by (induction rule: list_all2_induct) auto

lemma finish_objects_Ok:
  assumes "finish_objects b = Ok (objs, stores)" "distinct (map (snd \<circ> snd) (bhds b))"
    and "(name, bhd, src) \<in> set (bhds b)" "process_bhd (dict b) (bhd_of bhd) name src = Ok (files, store, src)"
    and "\<forall>(src, obj, store) \<in> set (cached b). object_inv DvdbndConfig_SEPARATORS obj"
  shows "distinct (map fst objs) \<and> (\<forall>x \<in> set objs. object_inv DvdbndConfig_SEPARATORS (snd x)) \<and>
    map_of stores src = Some store \<and>
    (\<exists>obj. (src, obj) \<in> set objs \<and> rofs_new DvdbndConfig_SEPARATORS files = Ok obj)"
proof -
  let ?proc = "\<lambda>(name, bhd, src). case bhd of
                Bhd5_LE k \<Rightarrow> process_bhd (dict b) k name src
              | Bhd5_BE k \<Rightarrow> process_bhd (dict b) k name src"
  define m0 where "m0 = map_extend [] (map (\<lambda>(src, obj, store). (src, obj)) (cached b))"
  obtain fs1 os where fs1: "list_all2 (\<lambda>x y. ?proc x = Ok y) (bhds b) fs1"
    and os: "list_all2 (\<lambda>x y. archive_object x = Ok y) fs1 os"
    and objs: "objs = map_extend m0 os"
    and stores: "stores = map_extend (map_extend [] (map (\<lambda>(src, obj, store). (src, store)) (cached b)))
      (map (\<lambda>(files, store, src). (src, store)) fs1)"
    using assms(1) by (auto simp: finish_objects_def collect_Ok m0_def)
  have proc: "?proc (n, h, s) = process_bhd (dict b) (bhd_of h) n s" for n h s
    by (simp add: bhd_of_def split: bhd5_file.split)
  have "list_all2 (\<lambda>x y. snd (snd y) = snd (snd x)) (bhds b) fs1"
    using fs1 by (rule list_all2_mono) (auto split: bhd5_file.splits dest: process_bhd_src)
  then have keys: "map (snd \<circ> snd) fs1 = map (snd \<circ> snd) (bhds b)"
    by (simp add: list_all2_conv_all_nth list_eq_iff_nth_eq)
  have "list_all2 (\<lambda>x y. fst y = snd (snd x)) fs1 os"
    using os by (rule list_all2_mono) (auto simp: archive_object_Ok)
  then have okeys: "map fst os = map (snd \<circ> snd) fs1"
    by (simp add: list_all2_conv_all_nth list_eq_iff_nth_eq)
  obtain y where y: "y \<in> set fs1" "?proc (name, bhd, src) = Ok y"
    using list_all2_left [OF fs1 assms(3)] by blast
  then have y': "(files, store, src) \<in> set fs1" using assms(4) by (simp only: proc) simp
  have skeys: "map fst (map (\<lambda>(files, store, src). (src, store)) fs1) = map (snd \<circ> snd) fs1" by auto
  have "map_of (rev (map (\<lambda>(files, store, src). (src, store)) fs1)) src = Some store"
  proof (rule map_of_distinct_rev)
    show "distinct (map fst (map (\<lambda>(files, store, src). (src, store)) fs1))"
      unfolding skeys keys by (rule assms(2))
    show "(src, store) \<in> set (map (\<lambda>(files, store, src). (src, store)) fs1)" using y' by force
  qed
  then have st: "map_of stores src = Some store" by (simp add: stores map_of_map_extend)
  obtain o1 where o1: "o1 \<in> set os" "archive_object (files, store, src) = Ok o1"
    using list_all2_left [OF os y'] by blast
  then obtain obj where obj: "(src, obj) \<in> set os" "rofs_new DvdbndConfig_SEPARATORS files = Ok obj"
    by (auto simp: archive_object_Ok)
  have "map_of (rev os) src = Some obj"
    using obj(1) okeys keys assms(2) by (intro map_of_distinct_rev) simp_all
  then have "map_of objs src = Some obj" by (simp add: objs map_of_map_extend)
  then have in_objs: "(src, obj) \<in> set objs" by (rule map_of_SomeD)
  have new: "object_inv DvdbndConfig_SEPARATORS (snd x)" if "x \<in> set os" for x
  proof -
    obtain z where "archive_object z = Ok x" using list_all2_right [OF os \<open>x \<in> set os\<close>] by blast
    then show ?thesis by (cases z) (auto simp: archive_object_Ok intro: rofs_new_inv)
  qed
  have old: "object_inv DvdbndConfig_SEPARATORS (snd x)" if "x \<in> set m0" for x
  proof -
    have "x \<in> set (map (\<lambda>(src, obj, store). (src, obj)) (cached b))"
      using that set_map_extend [of "[]" "map (\<lambda>(src, obj, store). (src, obj)) (cached b)"] by (auto simp: m0_def)
    then show ?thesis using assms(5) by fastforce
  qed
  have "distinct (map fst objs)" unfolding objs m0_def by (intro distinct_map_extend) simp
  moreover have "\<forall>x \<in> set objs. object_inv DvdbndConfig_SEPARATORS (snd x)"
    using set_map_extend [of m0 os] new old unfolding objs by blast
  ultimately show ?thesis using st in_objs obj(2) by blast
qed

lemma lookup_finds_file:
  assumes "valid_seps S" "eytzinger_ok layout esearch" "object_inv S obj"
    and "small_tree (Branch (obj_root obj))" "into_rofs layout obj = Ok fs"
    and "object_lookup obj (stored_path S path) = Some f"
  shows "\<exists>ino e. lookup S esearch fs path = Ok ino \<and> rofs_entry fs ino = Ok e \<and> kind e = EFile f"
proof -
  obtain d where d: "find_leaf (obj_root obj) ([] # stored_path S path) = Some d" "f = obj_files obj ! d"
    using assms(6) by (auto simp: object_lookup_def file_at_def simp del: find_leaf_Cons)
  then have node: "find_node (obj_root obj) ([] # stored_path S path) = Some (Leaf d)"
    by (auto simp: find_leaf_def split: option.splits tree_node.splits)
  have "obj_root obj \<noteq> []" using d(1) by auto
  from lookup_refines [OF assms(1-3) this assms(4,5), of path] show ?thesis
    unfolding node option.case using d(2) by auto
qed

lemma archive_file_served:
  assumes "eytzinger_ok layout esearch"
    and "finish_objects b = Ok (objs, stores)" "mset xs = mset (map snd objs)" "reduces xs m"
    and "into_rofs layout m = Ok fs" "small_tree (Branch (obj_root m))"
    and "\<forall>(src, obj, store) \<in> set (cached b). object_inv DvdbndConfig_SEPARATORS obj"
    and "distinct (map (snd \<circ> snd) (bhds b))" "(name, bhd, src) \<in> set (bhds b)"
    and "process_bhd (dict b) (bhd_of bhd) name src = Ok (files, store, src)"
    and "i < length files" "unshadowed DvdbndConfig_SEPARATORS files i"
    and "\<forall>(src', obj) \<in> set objs. src' \<noteq> src \<longrightarrow>
      object_free obj (stored_path DvdbndConfig_SEPARATORS (fst (files ! i)))"
  shows "finish layout b \<lparr>inner_fs = fs, encryption_stores = stores\<rparr> \<and>
    encryption_store \<lparr>inner_fs = fs, encryption_stores = stores\<rparr> src = Some store \<and>
    (\<exists>ino e. lookup DvdbndConfig_SEPARATORS esearch fs (fst (files ! i)) = Ok ino \<and>
       rofs_entry fs ino = Ok e \<and> kind e = EFile (snd (files ! i)))"
proof (intro conjI)
  let ?S = "DvdbndConfig_SEPARATORS" and ?cs = "stored_path DvdbndConfig_SEPARATORS (fst (files ! i))"
  show "finish layout b \<lparr>inner_fs = fs, encryption_stores = stores\<rparr>"
    using assms(2-5) by (rule finish.intros)
  note ok = finish_objects_Ok [OF assms(2,8,9,10,7)]
  then show "encryption_store \<lparr>inner_fs = fs, encryption_stores = stores\<rparr> src = Some store"
    by (simp add: encryption_store_def)
  obtain obj where obj: "(src, obj) \<in> set objs" "rofs_new ?S files = Ok obj" using ok by blast
  have look: "object_lookup obj ?cs = Some (snd (files ! i))"
    using rofs_new_complete [OF valid_seps_configs(2) obj(2) assms(11,12)] .
  obtain ps qs where split: "objs = ps @ (src, obj) # qs" using obj(1) by (auto dest: split_list)
  have "obj \<in> set xs" using obj(1) assms(3) by (metis image_eqI mset_eq_setD set_map snd_conv)
  then obtain us zs where xs: "xs = us @ obj # zs" by (auto dest: split_list)
  have "mset (us @ zs) = mset (map snd (ps @ qs))" using assms(3) by (simp add: split xs)
  then have "set (us @ zs) = snd ` set (ps @ qs)" by (metis mset_eq_setD set_map)
  moreover have "fst x \<noteq> src" if "x \<in> set (ps @ qs)" for x using ok that by (auto simp: split)
  ultimately have free: "\<forall>y \<in> set (us @ zs). object_free y ?cs"
    using assms(13) by (fastforce simp: split)
  have "set xs = snd ` set objs" using assms(3) by (metis mset_eq_setD set_map)
  then have inv: "\<forall>x \<in> set xs. object_inv ?S x" using ok by auto
  note red = reduces_keeps [OF assms(4) inv, of ?cs]
  have "object_lookup m ?cs = Some (snd (files ! i))" using red xs free look by metis
  then show "\<exists>ino e. lookup ?S esearch fs (fst (files ! i)) = Ok ino \<and>
      rofs_entry fs ino = Ok e \<and> kind e = EFile (snd (files ! i))"
    using red assms(1,5,6) by (intro lookup_finds_file [OF valid_seps_configs(2)]) auto
qed

section \<open>Properties\<close>

text \<open>C14: processing an archive makes one file per pair of entry and encryption record, in order,
  with the offset, the sizes and the path of its entry; the identifier it gives a file decrypts
  with that file's key and ranges in the finished store of the archive.\<close>

theorem process_files_correct:
  assumes "process_files d layout entries name src encryption = Ok (files, store, src')"
    and "\<forall>enc. Some enc \<in> set encryption \<longrightarrow> length (key enc) = 16"
  shows "src' = src \<and> length files = min (length (concat entries)) (length encryption) \<and>
    (\<forall>i < length files.
       file_of (entry_path layout d name) src store (concat entries ! i, encryption ! i) (files ! i))"
proof -
  have p: "process_entries (entry_path layout d name) src (zip (concat entries) encryption) [] = Ok (files, store)"
    "src' = src"
    using assms(1) by (auto simp: process_files_def)
  have "\<forall>x \<in> set (zip (concat entries) encryption). \<forall>enc. snd x = Some enc \<longrightarrow> length (key enc) = 16"
    using assms(2) by (metis in_set_zipE prod.collapse)
  then have "list_all2 (file_of (entry_path layout d name) src store) (zip (concat entries) encryption) files"
    using process_entries_files [OF p(1)] by blast
  then have l: "length files = length (zip (concat entries) encryption)"
    and "\<forall>i < length files. file_of (entry_path layout d name) src store (zip (concat entries) encryption ! i) (files ! i)"
    by (auto dest: list_all2_lengthD list_all2_nthD2)
  then show ?thesis using p(2) by simp
qed

theorem process_files_correct_witness:
  "\<exists>files store. process_files None LayoutDs [[FileEntryDs 1 64 0], [FileEntryDs 2 32 64]] ''data'' []
      [Some sample_encryption, None] = Ok (files, store, []) \<and> length files = 2 \<and>
    f_len (snd (files ! 1)) = 32 \<and>
    (\<exists>eid. file_encryption_id (snd (files ! 0)) = Some eid)"
proof -
  obtain eid store where "store_encryption (FileEntryDs 1 64 0) sample_encryption [] = Ok (eid, store)"
    using sample_stored by blast
  then obtain files where p: "process_files None LayoutDs [[FileEntryDs 1 64 0], [FileEntryDs 2 32 64]] ''data'' []
      [Some sample_encryption, None] = Ok (files, store, [])"
    by (simp add: process_files_def Let_def)
  have k: "\<forall>enc. Some enc \<in> set [Some sample_encryption, None] \<longrightarrow> length (key enc) = 16"
    by (simp add: sample_encryption_def)
  note c = process_files_correct [OF p k]
  have "clamp_i32 32 = 32" by (simp add: clamp_i32_def)
  then show ?thesis using p c by (auto simp: file_of_def numeral_2_eq_2)
qed

text \<open>In the filesystem built from a set of archives, in whatever order and grouping their
  trees are merged, a lookup of the path of a file finds the entry of that file, when no other
  archive uses that path and no earlier file of its archive shadows it; and the store kept for
  the archive is the one its files were processed with.\<close>

theorem archive_file_found:
  assumes "eytzinger_ok layout esearch"
    and "finish_objects b = Ok (objs, stores)" "mset xs = mset (map snd objs)" "reduces xs m"
    and "into_rofs layout m = Ok fs" "small_tree (Branch (obj_root m))"
    and "\<forall>(src, obj, store) \<in> set (cached b). object_inv DvdbndConfig_SEPARATORS obj"
    and "distinct (map (snd \<circ> snd) (bhds b))" "(name, bhd, src) \<in> set (bhds b)"
    and "process_bhd (dict b) (bhd_of bhd) name src = Ok (files, store, src)"
    and "i < length files" "unshadowed DvdbndConfig_SEPARATORS files i"
    and "\<forall>(src', obj) \<in> set objs. src' \<noteq> src \<longrightarrow>
      object_free obj (stored_path DvdbndConfig_SEPARATORS (fst (files ! i)))"
  shows "finish layout b \<lparr>inner_fs = fs, encryption_stores = stores\<rparr> \<and>
    encryption_store \<lparr>inner_fs = fs, encryption_stores = stores\<rparr> src = Some store \<and>
    (\<exists>ino e. lookup DvdbndConfig_SEPARATORS esearch fs (fst (files ! i)) = Ok ino \<and>
       rofs_entry fs ino = Ok e \<and> kind e = EFile (snd (files ! i)))"
  using assms by (rule archive_file_served)

definition sample_builder :: builder where
  "sample_builder = with_bhds [(''data.bhd'', Bhd5_LE \<lparr>file_format = DarkSouls,
     file_buckets = BDarkSouls [[FileEntryDs 65 10 100]], file_encryption = [None], salt = None\<rparr>, [7])] builder_default"

definition sample_file :: dvdbnd_file where
  "sample_file = \<lparr>data_offset = 100, f_len = 10, f_unpadded_len = 0, file_src_id = [7], file_encryption_id = None\<rparr>"

lemma sample_processed_at:
  "process_bhd None \<lparr>file_format = fmt, file_buckets = BDarkSouls [[FileEntryDs 65 10 100]],
     file_encryption = [None], salt = s\<rparr> ''data.bhd'' src =
   Ok ([(''.data/00/00000041'', sample_file\<lparr>file_src_id := src\<rparr>)], [], src)"
proof -
  have p: "path_file_prefix ''data.bhd'' = Some ''data''" by code_simp
  have h: "hex 0 = ''0''" "hex 65 = ''41''" by (simp_all add: hex.simps hex_digit_def)
  have c: "clamp_i32 10 = 10" by (simp add: clamp_i32_def)
  have u: "unat (65 :: u64) = 65" "drop_bit 24 (65 :: u64) = 0" by simp_all
  have z: "replicate 6 CHR ''0'' = ''000000''" by code_simp
  have n: "entry_path LayoutDs None ''data'' 65 = ''.data/00/00000041''"
    unfolding entry_path_def entry_hashes_def hash_name_def pad_def option.case u h by (simp add: h z)
  show ?thesis
    by (simp add: process_bhd_def p process_files_def sample_file_def c n)
qed

lemma sample_processed:
  "process_bhd None \<lparr>file_format = DarkSouls, file_buckets = BDarkSouls [[FileEntryDs 65 10 100]],
     file_encryption = [None], salt = None\<rparr> ''data.bhd'' [7] = Ok ([(''.data/00/00000041'', sample_file)], [], [7])"
  unfolding sample_processed_at by (simp add: sample_file_def)

lemma sample_object_built:
  "rofs_new DvdbndConfig_SEPARATORS [(''.data/00/00000041'', f)] =
     Ok \<lparr>obj_root = [([], Branch [(''.data'', Branch [(''00'', Branch [(''00000041'', Leaf 0)])])])],
         obj_files = [f]\<rparr>"
proof -
  have "insert_paths DvdbndConfig_SEPARATORS
      [(snd (cow_to_ascii_lowercase (normalize_path DvdbndConfig_SEPARATORS ''.data/00/00000041'')), 0)] [] =
    Ok [(''.data'', Branch [(''00'', Branch [(''00000041'', Leaf 0)])])]" by code_simp
  then show ?thesis by (simp add: rofs_new_Ok normal_paths_def)
qed

theorem archive_file_found_witness:
  "\<exists>fs r ino e. finish sorted_layout sample_builder r \<and> inner_fs r = fs \<and>
     lookup DvdbndConfig_SEPARATORS linear_search fs ''.data/00/00000041'' = Ok ino \<and>
     rofs_entry fs ino = Ok e \<and> kind e = EFile sample_file"
proof -
  let ?S = DvdbndConfig_SEPARATORS
  let ?bhd = "Bhd5_LE \<lparr>file_format = DarkSouls, file_buckets = BDarkSouls [[FileEntryDs 65 10 100]],
     file_encryption = [None], salt = None\<rparr>"
  let ?obj = "\<lparr>obj_root = [([], Branch [(''.data'', Branch [(''00'', Branch [(''00000041'', Leaf 0)])])])],
         obj_files = [sample_file]\<rparr>"
  let ?files = "[(''.data/00/00000041'', sample_file)]"
  have b: "bhds sample_builder = [(''data.bhd'', ?bhd, [7])]" "dict sample_builder = None" "cached sample_builder = []"
    by (simp_all add: sample_builder_def with_bhds_def builder_default_def)
  have fin: "finish_objects sample_builder = Ok ([([7], ?obj)], [([7], [])])"
    by (simp add: finish_objects_def b sample_processed archive_object_def lift_panic_def sample_object_built)
  obtain fs where fs: "into_rofs sorted_layout ?obj = Ok fs"
    using into_rofs_succeeds [of ?obj sorted_layout] by auto
  have sp: "stored_path ?S ''.data/00/00000041'' = [''.data'', ''00'', ''00000041'']" by code_simp
  have un: "unshadowed ?S ?files 0" by (simp add: unshadowed_def sp)
  have "process_bhd (dict sample_builder) (bhd_of ?bhd) ''data.bhd'' [7] = Ok (?files, [], [7])"
    by (simp add: b bhd_of_def sample_processed)
  with archive_file_found [OF eytzinger_ok_sorted fin _ reduces.single fs, of "''data.bhd''" ?bhd "[7]" ?files "[]" 0] un
  show ?thesis by (auto simp: b)
qed

end
