(* ===== verification/Mount.thy ===== *)
theory Mount
  imports DvdbndFs
begin

text \<open>
  Reading a file of a mounted filesystem (\<open>src/dvdbnd/mount.rs\<close>): the entry of the inode,
  the request clamped to the file, the data archive opened once per thread, and the plain or
  the decrypting loop over the stream of buffers, which hands the pieces of the file to a
  callback. The callback threads a state \<open>'s\<close>; the archive is the managed read of an opened
  file. The asynchronous functions are modelled by the order of their steps.
\<close>

datatype mount_error = MRofs rofs_error | MIo io_error | MDecrypt decrypt_error | MCallback nat

type_synonym 's callback = "bytes \<Rightarrow> u32 \<Rightarrow> 's \<Rightarrow> (mount_error, 's) outcome"

record mount =
  m_fs :: dvdbnd_rofs
  m_bdts :: "(src_id \<times> string) list"

text \<open>\<open>BdtTls::open\<close>: the thread-local map keeps the opened archives; an archive without a
  path panics.\<close>

type_synonym bdt_map = "(string \<times> managed_read) list"

definition bdt_open ::
  "(string \<Rightarrow> managed_read io_result) \<Rightarrow> (src_id \<times> string) list \<Rightarrow> dvdbnd_file \<Rightarrow> bdt_map \<Rightarrow>
     (managed_read \<times> bdt_map) io_result" where
  "bdt_open open_file bdts file mp =
     (case map_of bdts (file_src_id file) of
        None \<Rightarrow> Panic
      | Some path \<Rightarrow>
          (case map_of mp path of
             Some f \<Rightarrow> Ok (f, mp)
           | None \<Rightarrow> obind (open_file path) (\<lambda>f. Ok (f, AList.update path f mp))))"

text \<open>The errors of the parts become errors of the mount.\<close>

definition map_err :: "('e \<Rightarrow> 'f) \<Rightarrow> ('e, 'a) outcome \<Rightarrow> ('f, 'a) outcome" where
  "map_err g r = (case r of Ok x \<Rightarrow> Ok x | Err e \<Rightarrow> Err (g e) | Panic \<Rightarrow> Panic)"

text \<open>The closure of \<open>read_file\<close>: buffers at a negative offset are skipped, a buffer is cut at
  the end of the request, and an empty rest is not handed on.\<close>

definition clamp_piece :: "u32 \<Rightarrow> 's callback \<Rightarrow> bytes \<Rightarrow> int \<Rightarrow> 's \<Rightarrow> (mount_error, 's) outcome" where
  "clamp_piece end f buffer off s =
     (if off < 0 \<or> 2 ^ 32 \<le> off then Ok s
      else let offset = of_int off;
               buffer_end = offset + of_nat (length buffer);
               end = saturating_sub (min buffer_end end) offset
           in if length buffer < unat end then Panic
              else let buffer = take (unat end) buffer
                   in if buffer \<noteq> [] then f buffer offset s else Ok s)"

text \<open>The plain loop.\<close>

fun read_loop :: "(bytes \<Rightarrow> int \<Rightarrow> 's \<Rightarrow> (mount_error, 's) outcome) \<Rightarrow> aligned_buf io_result list \<Rightarrow> 's \<Rightarrow>
     (mount_error, 's) outcome" where
  "read_loop f [] s = Ok s"
| "read_loop f (item # items) s =
     obind (map_err MIo item) (\<lambda>(buffer, off). obind (f buffer off s) (read_loop f items))"

text \<open>The part of the decrypting loop behind the push: the current buffer is skipped when it
  lies outside the request, shortened when it was read too far, decrypted in place and handed
  to the closure.\<close>

definition decrypt_curr ::
  "(ciphertext \<Rightarrow> (decrypt_error, bytes) outcome) \<Rightarrow> u32 \<Rightarrow> u32 \<Rightarrow>
     (bytes \<Rightarrow> int \<Rightarrow> 's \<Rightarrow> (mount_error, 's) outcome) \<Rightarrow> ciphertext_buffer \<Rightarrow> 's \<Rightarrow>
     (mount_error, ciphertext_buffer \<times> 's) outcome" where
  "decrypt_curr decrypt start end f cb s =
     (case cb_curr cb of
        None \<Rightarrow> Panic
      | Some (buffer, off) \<Rightarrow>
          if off < int (unat start) \<or> int (unat end) \<le> off then Ok (cb, s)
          else
            let buffer_len = of_nat (length buffer) :: u32;
                buffer_end = of_int off + buffer_len;
                buffer =
                  (if end \<le> buffer_end
                   then take (unat (saturating_sub buffer_len (buffer_end - end)) + BLOCK_SIZE - 1) buffer
                   else buffer);
                cb = set_curr (buffer, off) cb
            in case from_buffer cb of
                 None \<Rightarrow> Panic
               | Some ct \<Rightarrow>
                   obind (map_err MDecrypt (decrypt ct)) (\<lambda>buffer.
                     let cb = set_curr (buffer, off) cb
                     in obind (f buffer off s) (\<lambda>s. Ok (cb, s))))"

fun decrypt_loop ::
  "(ciphertext \<Rightarrow> (decrypt_error, bytes) outcome) \<Rightarrow> u32 \<Rightarrow> u32 \<Rightarrow>
     (bytes \<Rightarrow> int \<Rightarrow> 's \<Rightarrow> (mount_error, 's) outcome) \<Rightarrow> aligned_buf io_result list \<Rightarrow> ciphertext_buffer \<Rightarrow> 's \<Rightarrow>
     (mount_error, 's) outcome" where
  "decrypt_loop decrypt start end f [] cb s =
     obind (decrypt_curr decrypt start end f (cb_finish cb) s) (\<lambda>(cb, s). Ok s)"
| "decrypt_loop decrypt start end f (item # items) cb s =
     obind (map_err MIo item) (\<lambda>buf.
       let is_first = cb_is_empty cb;
           cb = cb_push buf cb
       in if is_first then decrypt_loop decrypt start end f items cb s
          else obind (decrypt_curr decrypt start end f cb s) (\<lambda>(cb, s).
                 decrypt_loop decrypt start end f items cb s))"

definition read_and_decrypt_file ::
  "(bytes \<Rightarrow> bytes \<Rightarrow> bytes) \<Rightarrow> mount \<Rightarrow> dvdbnd_file \<Rightarrow> managed_read \<Rightarrow> u64 \<Rightarrow> u32 \<Rightarrow> encryption_id \<Rightarrow>
     (bytes \<Rightarrow> int \<Rightarrow> 's \<Rightarrow> (mount_error, 's) outcome) \<Rightarrow> 's \<Rightarrow> (mount_error, 's) outcome" where
  "read_and_decrypt_file decrypt_block m file bdt data_start len eid f s =
     (let start = ucast (data_start - data_offset file) :: u32;
          end = start + len
      in case encryption_store (m_fs m) (file_src_id file) of
           None \<Rightarrow> Panic
         | Some store \<Rightarrow>
             (case stream_read_windows bdt data_start len (data_offset file) (f_len file) of
                None \<Rightarrow> Panic
              | Some stream \<Rightarrow>
                  decrypt_loop (store_decrypt decrypt_block store eid) start end f stream
                    ciphertext_buffer_default s))"

definition file_entry_of :: "mount \<Rightarrow> u64 \<Rightarrow> (mount_error, dvdbnd_file) outcome" where
  "file_entry_of m ino =
     (case rofs_entry (inner_fs (m_fs m)) ino of
        Ok e \<Rightarrow> (case kind e of EFile file \<Rightarrow> Ok file | _ \<Rightarrow> Err (MRofs IsDir))
      | Err e \<Rightarrow> Err (MRofs e)
      | Panic \<Rightarrow> Panic)"

definition read_file ::
  "(bytes \<Rightarrow> bytes \<Rightarrow> bytes) \<Rightarrow> (string \<Rightarrow> managed_read io_result) \<Rightarrow> mount \<Rightarrow> u64 \<Rightarrow> u64 \<Rightarrow> u32 \<Rightarrow>
     's callback \<Rightarrow> bdt_map \<Rightarrow> 's \<Rightarrow> (mount_error, 's) outcome" where
  "read_file decrypt_block open_file m ino offset len f mp s =
     obind (file_entry_of m ino) (\<lambda>file.
       let file_len = unpadded_len file;
           offset = ucast (min offset (ucast file_len)) :: u32;
           len = min len (file_len - offset);
           data_start = data_offset file + ucast offset;
           end = offset + len;
           f = clamp_piece end f
       in obind (map_err MIo (bdt_open open_file (m_bdts m) file mp)) (\<lambda>(bdt, mp).
            case file_encryption_id file of
              Some eid \<Rightarrow> read_and_decrypt_file decrypt_block m file bdt data_start len eid f s
            | None \<Rightarrow>
                (case stream_read bdt data_start len (data_offset file) (f_len file) of
                   None \<Rightarrow> Panic
                 | Some stream \<Rightarrow> read_loop f stream s)))"

section \<open>Pieces of a file\<close>

text \<open>What the callback sees: a list of pieces with their offsets, handed over in order.\<close>

fun deliver :: "'s callback \<Rightarrow> (bytes \<times> u32) list \<Rightarrow> 's \<Rightarrow> (mount_error, 's) outcome" where
  "deliver f [] s = Ok s"
| "deliver f ((b, off) # ps) s = obind (f b off s) (deliver f ps)"

fun consecutive :: "bytes \<Rightarrow> nat \<Rightarrow> (bytes \<times> u32) list \<Rightarrow> bool" where
  "consecutive plain pos [] \<longleftrightarrow> True"
| "consecutive plain pos ((b, off) # ps) \<longleftrightarrow>
     b \<noteq> [] \<and> unat off = pos \<and> pos + length b \<le> length plain \<and> b = slice pos (pos + length b) plain \<and>
     consecutive plain (pos + length b) ps"

lemma obind_assoc: "obind (obind m f) g = obind m (\<lambda>x. obind (f x) g)"
  by (cases m) simp_all

lemma obind_Ok_right [simp]: "obind m Ok = m"
  by (cases m) simp_all

lemma deliver_Nil [simp]: "deliver g [] = Ok"
  by (rule ext) simp

lemma deliver_Cons: "deliver g (p # ps) s = obind (deliver g [p] s) (deliver g ps)"
  by (cases p) simp

text \<open>The piece of the plaintext a buffer stands for.\<close>

definition piece_of :: "bytes \<Rightarrow> aligned_buf \<Rightarrow> bytes \<times> u32" where
  "piece_of plain b = (slice (nat (snd b)) (nat (snd b) + length (fst b)) plain, of_int (snd b))"

lemma chain_pieces:
  assumes "chain data base P bs" "base \<le> P" "P - base + length (concat (map fst bs)) \<le> length plain"
    and "length plain < 2 ^ 32" "\<forall>b \<in> set bs. fst b \<noteq> []"
  shows "consecutive plain (P - base) (map (piece_of plain) bs) \<and>
    concat (map fst (map (piece_of plain) bs)) =
      slice (P - base) (P - base + length (concat (map fst bs))) plain"
  using assms
proof (induction bs arbitrary: P)
  case (Cons b bs)
  obtain bd off where b: "b = (bd, off)" by (cases b)
  have off: "off = int (P - base)" and rest: "chain data base (P + length bd) bs"
    using Cons.prems(1,2) by (simp_all add: b)
  have pos: "P + length bd - base = P - base + length bd" using Cons.prems(2) by simp
  have fits: "P - base + length bd \<le> length plain" using Cons.prems(3) by (simp add: b)
  have u: "unat (of_int off :: u32) = P - base"
    using fits Cons.prems(4) by (simp add: off unat_of_nat)
  have pc: "piece_of plain b = (slice (P - base) (P - base + length bd) plain, of_int off)"
    by (simp add: piece_of_def b off)
  let ?Q = "P - base + length bd"
  have IH: "consecutive plain ?Q (map (piece_of plain) bs)"
    "concat (map fst (map (piece_of plain) bs)) = slice ?Q (?Q + length (concat (map fst bs))) plain"
    using Cons.IH [OF rest] Cons.prems(2-5) unfolding pos by (simp_all add: b add.assoc)
  have "0 < length bd" using Cons.prems(5) by (simp add: b)
  have l: "length (slice (P - base) ?Q plain) = length bd" using fits by (simp add: length_slice)
  then have "slice (P - base) ?Q plain \<noteq> []" using \<open>0 < length bd\<close> by auto
  then have "consecutive plain (P - base) (map (piece_of plain) (b # bs))"
    using fits u IH(1) l by (simp only: list.map pc consecutive.simps) simp
  moreover have "concat (map fst (map (piece_of plain) (b # bs))) =
      slice (P - base) (?Q + length (concat (map fst bs))) plain"
    using IH(2) slice_append [of "P - base" ?Q "?Q + length (concat (map fst bs))" plain]
    by (simp only: list.map concat.simps pc fst_conv, simp?)
  ultimately show ?case by (simp add: b add.assoc)
qed simp

lemma clamp_piece_inside:
  assumes "0 < length b" "pos + length b \<le> unat end"
  shows "clamp_piece end f b (int pos) s = f b (of_nat pos) s"
proof -
  have e: "unat end < 2 ^ 32" using unsigned_less [of "end", where 'a = nat] by simp
  have p: "pos < 2 ^ 32" "length b < 2 ^ 32" using assms(2) e by linarith+
  have u: "unat (of_nat pos + of_nat (length b) :: u32) = pos + length b"
    using assms(2) e by (simp add: unat_plus_if' unat_of_nat)
  have m: "min (of_nat pos + of_nat (length b)) end = (of_nat pos + of_nat (length b) :: u32)"
    using assms(2) u by (simp add: min_def word_le_nat_alt)
  have s: "unat (saturating_sub (of_nat pos + of_nat (length b)) (of_nat pos) :: u32) = length b"
  proof -
    have "of_nat pos \<le> (of_nat pos + of_nat (length b) :: u32)"
      using u p by (simp add: word_le_nat_alt unat_of_nat)
    then show ?thesis using p by (simp add: saturating_sub_def unat_of_nat)
  qed
  have neg: "\<not> (int pos < 0 \<or> 2 ^ 32 \<le> int pos)" using p(1) by simp
  show ?thesis unfolding clamp_piece_def Let_def if_not_P [OF neg] of_int_of_nat_eq m s
    using assms(1) by simp
qed

lemma read_loop_pieces:
  assumes "chain data base P bs" "base \<le> P" "P - base + length (concat (map fst bs)) \<le> unat end"
    and "\<forall>b \<in> set bs. fst b \<noteq> []" "plain = slice base (base + n) data" "base + n \<le> length data"
    and "P - base + length (concat (map fst bs)) \<le> n"
  shows "read_loop (clamp_piece end f) (map Ok bs) s = deliver f (map (piece_of plain) bs) s"
  using assms(1-4,7)
proof (induction bs arbitrary: P s)
  case (Cons b bs)
  obtain bd off where b: "b = (bd, off)" by (cases b)
  have off: "off = int (P - base)" and rest: "chain data base (P + length bd) bs"
    and bd: "bd = slice P (P + length bd) data" and fits: "P + length bd \<le> length data"
    using Cons.prems(1,2) by (simp_all add: b)
  have "slice (P - base) (P - base + length bd) plain = slice P (P + length bd) data"
    using assms(5,6) Cons.prems(2,5) by (simp add: b slice_def drop_take min_def)
  then have pc: "piece_of plain b = (bd, of_nat (P - base))"
    using bd by (simp add: piece_of_def b off)
  have "clamp_piece end f bd off s = f bd (of_nat (P - base)) s" for s
    unfolding off using Cons.prems(3,4) by (intro clamp_piece_inside) (simp_all add: b)
  moreover have "read_loop (clamp_piece end f) (map Ok bs) = deliver f (map (piece_of plain) bs)"
    using Cons.IH [OF rest] Cons.prems(2-5) by (intro ext) (simp add: b)
  ultimately show ?case by (simp add: b pc [unfolded b] map_err_def)
qed simp

section \<open>The decrypting loop\<close>

text \<open>What the store promises for an identifier: its key and its ranges decrypt every buffer.\<close>

definition decrypts :: "(ciphertext \<Rightarrow> (decrypt_error, bytes) outcome) \<Rightarrow> (bytes \<Rightarrow> bytes) \<Rightarrow> srange list \<Rightarrow> bool" where
  "decrypts decrypt f rs \<longleftrightarrow>
     (\<forall>ct. decrypt ct = Ok (decrypt_ranges f (ct_file_offset ct) (head ct) (tail ct)
        (dropWhile (\<lambda>r. rng_end r \<le> ct_file_offset ct) rs) (body ct)))"

definition in_request :: "nat \<Rightarrow> nat \<Rightarrow> aligned_buf \<Rightarrow> bool" where
  "in_request start stop b \<longleftrightarrow> int start \<le> snd b \<and> snd b < int stop"

text \<open>A buffer of the request can be decrypted with its successor at hand.\<close>

definition ready :: "nat \<Rightarrow> nat \<Rightarrow> srange list \<Rightarrow> bytes \<Rightarrow> aligned_buf \<Rightarrow> bytes \<Rightarrow> bool" where
  "ready start stop rs full b nxt \<longleftrightarrow> (in_request start stop b \<longrightarrow>
     (\<exists>pos. snd b = int pos \<and> 0 < length (fst b) \<and> pos + length (fst b) \<le> stop \<and>
        fst b = slice pos (pos + length (fst b)) full \<and> (\<forall>r \<in> set rs. aligned_at pos r) \<and>
        ((\<forall>j < 16. pos + length (fst b) + j < length full \<longrightarrow>
            first_block nxt ! j = full ! (pos + length (fst b) + j)) \<or>
         (\<forall>r \<in> set rs. aligned_at (pos + length (fst b)) r))))"

fun all_ready :: "nat \<Rightarrow> nat \<Rightarrow> srange list \<Rightarrow> bytes \<Rightarrow> aligned_buf list \<Rightarrow> bool" where
  "all_ready start stop rs full [] \<longleftrightarrow> True"
| "all_ready start stop rs full (b # bs) \<longleftrightarrow>
     ready start stop rs full b (case bs of [] \<Rightarrow> [] | n # _ \<Rightarrow> fst n) \<and> all_ready start stop rs full bs"

lemma set_curr_pushed [simp]: "is_pushed (set_curr b cb) = is_pushed cb"
  by (simp add: set_curr_def)

lemma decrypt_curr_outside:
  assumes "window_of cb = (a, Some b, c)" "\<not> in_request (unat start) (unat stop) b"
  shows "decrypt_curr decrypt start stop f cb s = Ok (cb, s)"
  using assms window_views(2) [OF assms(1)]
  by (cases b) (auto simp: decrypt_curr_def in_request_def)

lemma decrypt_curr_inside:
  assumes win: "window_of cb = (a, Some b, c)" and inv: "cb_inv cb"
    and req: "in_request (unat start) (unat stop) b"
    and rdy: "ready (unat start) (unat stop) rs full b (buf_bytes c)"
    and dec: "decrypts decrypt f rs" and f: "block_ok f" and ok: "ranges_ok rs (length full)"
    and stop: "unat stop \<le> length full"
  shows "\<exists>b'. decrypt_curr decrypt start stop (clamp_piece stop g) cb s =
      obind (deliver g [piece_of (decrypted f rs full) b] s) (\<lambda>s. Ok (set_curr b' (set_curr b cb), s))"
proof -
  obtain bd pos where b: "b = (bd, int pos)" and bd: "0 < length bd" "pos + length bd \<le> unat stop"
      "bd = slice pos (pos + length bd) full" "\<forall>r \<in> set rs. aligned_at pos r"
    and tl: "(\<forall>j < 16. pos + length bd + j < length full \<longrightarrow>
            first_block (buf_bytes c) ! j = full ! (pos + length bd + j)) \<or>
         (\<forall>r \<in> set rs. aligned_at (pos + length bd) r)"
    using rdy req by (cases b) (auto simp: ready_def)
  have st: "unat stop < 2 ^ 32" using unsigned_less [of stop, where 'a = nat] by simp
  have p: "pos < 2 ^ 32" "length bd < 2 ^ 32" using bd(1,2) st by linarith+
  have ub: "unat (of_nat pos + of_nat (length bd) :: u32) = pos + length bd"
    using bd(2) st by (simp add: unat_plus_if' unat_of_nat)
  have trunc: "take (unat (saturating_sub (of_nat (length bd)) (of_nat pos + of_nat (length bd) - stop)) + BLOCK_SIZE - 1) bd = bd"
    if "stop \<le> of_nat pos + of_nat (length bd)"
  proof -
    have "stop = of_nat pos + of_nat (length bd)"
      using that bd(2) ub by (simp add: word_le_nat_alt word_unat_eq_iff)
    then show ?thesis using p by (simp add: saturating_sub_def BLOCK_SIZE_def unat_of_nat)
  qed
  have curr: "cb_curr cb = Some (bd, int pos)" using window_views(2) [OF win] by (simp add: b)
  define ct where "ct = \<lparr>body = bd, head = last_block (buf_bytes a), tail = first_block (buf_bytes c),
    ct_file_offset = of_int (int pos) :: u32\<rparr>"
  have win': "window_of (set_curr (bd, int pos) cb) = (a, Some (bd, int pos), c)"
    using window_of_set_curr [OF inv win] by (simp add: b)
  have ct: "from_buffer (set_curr (bd, int pos) cb) = Some ct"
    unfolding ct_def by (rule from_buffer_window [OF win']) (use p in simp_all)
  define out where "out = decrypt_ranges f (of_nat pos) (last_block (buf_bytes a)) (first_block (buf_bytes c))
    (dropWhile (\<lambda>r. rng_end r \<le> of_nat pos) rs) bd"
  have dct: "decrypt ct = Ok out" using dec by (simp add: decrypts_def ct_def out_def)
  have "out = decrypt_ranges f (of_nat pos) (last_block (buf_bytes a)) (first_block (buf_bytes c))
    (dropWhile (\<lambda>r. rng_end r \<le> of_nat pos) rs) (slice pos (pos + length bd) full)"
    unfolding out_def by (subst bd(3) [symmetric]) (rule refl)
  moreover have "length bd + 15 \<le> length bd \<or>
      (\<forall>j < 16. pos + length bd + j < length full \<longrightarrow>
        first_block (buf_bytes c) ! j = full ! (pos + length bd + j)) \<or>
      (\<forall>r \<in> set rs. aligned_at (pos + length bd) r)" using tl by blast
  ultimately have out: "length out = length bd \<and>
      take (length bd) out = slice pos (pos + length bd) (decrypted f rs full)"
    using bd stop by (intro decrypt_window [OF f length_first_block ok]) simp_all
  then have "slice pos (pos + length bd) (decrypted f rs full) = out" by (metis order_refl take_all)
  then have pc: "piece_of (decrypted f rs full) b = (out, of_nat pos)"
    by (simp add: piece_of_def b)
  have cl: "clamp_piece stop g out (int pos) s = g out (of_nat pos) s"
    using out bd(1,2) by (intro clamp_piece_inside) simp_all
  have req': "\<not> (int pos < int (unat start) \<or> int (unat stop) \<le> int pos)"
    using req by (simp add: in_request_def b)
  have "decrypt_curr decrypt start stop (clamp_piece stop g) cb s =
      obind (g out (of_nat pos) s) (\<lambda>s. Ok (set_curr (out, int pos) (set_curr (bd, int pos) cb), s))"
  proof (cases "stop \<le> of_nat pos + of_nat (length bd)")
    case True
    show ?thesis
      unfolding decrypt_curr_def curr option.case prod.case if_not_P [OF req'] Let_def of_int_of_nat_eq
        if_P [OF True] trunc [OF True] ct dct map_err_def outcome.case obind.simps cl by (rule refl)
  next
    case False
    show ?thesis
      unfolding decrypt_curr_def curr option.case prod.case if_not_P [OF req'] Let_def of_int_of_nat_eq
        if_not_P [OF False] ct dct map_err_def outcome.case obind.simps cl by (rule refl)
  qed
  then show ?thesis by (intro exI [of _ "(out, int pos)"]) (simp add: pc [unfolded b] b)
qed

text \<open>Once the first buffer is in, every buffer is decrypted when its successor, or the end of
  the stream, has arrived.\<close>

lemma decrypt_loop_pieces:
  assumes dec: "decrypts decrypt f rs" and f: "block_ok f" and ok: "ranges_ok rs (length full)"
    and stop: "unat stop \<le> length full"
    and "cb_inv cb" "is_pushed cb" "window_of cb = (x, y, Some b)"
    and "all_ready (unat start) (unat stop) rs full (b # bs)"
  shows "decrypt_loop decrypt start stop (clamp_piece stop g) (map Ok bs) cb s =
    deliver g (map (piece_of (decrypted f rs full)) (filter (in_request (unat start) (unat stop)) (b # bs))) s"
  using assms(5-8)
proof (induction bs arbitrary: cb x y b s)
  case Nil
  have win: "window_of (cb_finish cb) = (y, Some b, None)"
    using Nil by (simp add: cb_finish_def window_of_push)
  have inv: "cb_inv (cb_finish cb)" using Nil by (simp add: cb_finish_def do_push_inv)
  show ?case
  proof (cases "in_request (unat start) (unat stop) b")
    case True
    have "ready (unat start) (unat stop) rs full b (buf_bytes None)" using Nil by (simp add: buf_bytes_def)
    from decrypt_curr_inside [OF win inv True this dec f ok stop, of g s]
    show ?thesis using True by (auto simp: obind_assoc)
  next
    case False
    then show ?thesis by (simp add: decrypt_curr_outside [OF win])
  qed
next
  case (Cons c bs)
  have win: "window_of (cb_push c cb) = (y, Some b, Some c)"
    using Cons.prems by (simp add: cb_push_def window_of_push)
  have inv: "cb_inv (cb_push c cb)" using Cons.prems by (simp add: cb_push_def do_push_inv)
  have pushed: "is_pushed (cb_push c cb)" by (simp add: cb_push_def do_push_def Let_def)
  have rest: "all_ready (unat start) (unat stop) rs full (c # bs)" using Cons.prems by simp
  have step: "decrypt_loop decrypt start stop (clamp_piece stop g) (map Ok (c # bs)) cb s =
      obind (decrypt_curr decrypt start stop (clamp_piece stop g) (cb_push c cb) s)
        (\<lambda>(cb, s). decrypt_loop decrypt start stop (clamp_piece stop g) (map Ok bs) cb s)"
    using Cons.prems(2) by (simp add: map_err_def cb_is_empty_def Let_def)
  show ?case
  proof (cases "in_request (unat start) (unat stop) b")
    case True
    have "ready (unat start) (unat stop) rs full b (buf_bytes (Some c))"
      using Cons.prems(4) by (cases c) (simp add: buf_bytes_def)
    from decrypt_curr_inside [OF win inv True this dec f ok stop, of g s]
    obtain b' where b': "decrypt_curr decrypt start stop (clamp_piece stop g) (cb_push c cb) s =
      obind (deliver g [piece_of (decrypted f rs full) b] s)
        (\<lambda>s. Ok (set_curr b' (set_curr b (cb_push c cb)), s))" by blast
    let ?cb = "set_curr b' (set_curr b (cb_push c cb))"
    have win1: "window_of (set_curr b (cb_push c cb)) = (y, Some b, Some c)"
      using window_of_set_curr [OF inv win] by simp
    have "cb_inv ?cb" "is_pushed ?cb" "window_of ?cb = (y, Some b', Some c)"
      using inv pushed window_of_set_curr [OF set_curr_inv [OF inv] win1] by (simp_all add: set_curr_inv)
    then have IH: "decrypt_loop decrypt start stop (clamp_piece stop g) (map Ok bs) ?cb =
      deliver g (map (piece_of (decrypted f rs full)) (filter (in_request (unat start) (unat stop)) (c # bs)))"
      using Cons.IH [OF _ _ _ rest] by (intro ext) blast
    have "filter (in_request (unat start) (unat stop)) (b # c # bs) =
        b # filter (in_request (unat start) (unat stop)) (c # bs)"
      using True by simp
    then have tl: "deliver g (map (piece_of (decrypted f rs full))
          (filter (in_request (unat start) (unat stop)) (b # c # bs))) s =
        obind (deliver g [piece_of (decrypted f rs full) b] s)
          (deliver g (map (piece_of (decrypted f rs full)) (filter (in_request (unat start) (unat stop)) (c # bs))))"
      by (simp only: list.map deliver_Cons [of g "piece_of (decrypted f rs full) b" "map _ _"])
    show ?thesis unfolding step b' obind_assoc obind.simps prod.case IH tl by (rule refl)
  next
    case False
    then show ?thesis
      unfolding step decrypt_curr_outside [OF win False] using Cons.IH [OF inv pushed win rest] by simp
  qed
qed

lemma decrypt_stream_pieces:
  assumes "decrypts decrypt f rs" "block_ok f" "ranges_ok rs (length full)" "unat stop \<le> length full"
    and "all_ready (unat start) (unat stop) rs full bs" "bs \<noteq> []"
  shows "decrypt_loop decrypt start stop (clamp_piece stop g) (map Ok bs) ciphertext_buffer_default s =
    deliver g (map (piece_of (decrypted f rs full)) (filter (in_request (unat start) (unat stop)) bs)) s"
proof -
  obtain b bs' where bs: "bs = b # bs'" using assms(6) by (cases bs) auto
  let ?cb = "cb_push b ciphertext_buffer_default"
  have "cb_inv ?cb" "is_pushed ?cb" "window_of ?cb = (None, None, Some b)"
    unfolding cb_push_def window_of_push [OF default_inv] window_of_default shift.simps
    by (rule do_push_inv [OF default_inv], simp_all add: do_push_def Let_def)
  from decrypt_loop_pieces [OF assms(1-4) this assms(5) [unfolded bs], of g s]
  show ?thesis
    by (simp add: bs map_err_def cb_is_empty_def ciphertext_buffer_default_def)
qed

section \<open>The stream of a request\<close>

text \<open>A request starts a whole number of blocks from the start of every range that it meets.\<close>

definition whole_blocks :: "srange list \<Rightarrow> nat \<Rightarrow> nat \<Rightarrow> bool" where
  "whole_blocks rs a b \<longleftrightarrow>
     (a < b \<longrightarrow> (\<forall>r \<in> set rs. unat (rng_start r) < b \<longrightarrow> a < rng_stop r \<longrightarrow> a mod 16 = unat (rng_start r) mod 16))"

lemma whole_blocks_Nil [simp]: "whole_blocks [] a b"
  by (simp add: whole_blocks_def)

lemma whole_blocks_16: "16 dvd a \<Longrightarrow> \<forall>r \<in> set rs. 16 dvd unat (rng_start r) \<Longrightarrow> whole_blocks rs a b"
  by (auto simp: whole_blocks_def dvd_eq_mod_eq_0)

lemma whole_blocks_aligned:
  assumes "whole_blocks rs a b" "r \<in> set rs" "a \<le> pos" "pos < b" "16 dvd pos - a"
  shows "aligned_at pos r"
proof -
  have "(pos - unat (rng_start r)) mod 16 = 0" if "unat (rng_start r) < pos" "pos < rng_stop r"
  proof -
    have "a mod 16 = unat (rng_start r) mod 16"
      using assms(1-4) that by (simp add: whole_blocks_def)
    moreover have "pos mod 16 = a mod 16" using assms(3,5) by (metis mod_eq_dvd_iff_nat)
    ultimately show ?thesis using that(1) by (metis less_imp_le mod_eq_dvd_iff_nat mod_0_imp_dvd dvd_imp_mod_0)
  qed
  then show ?thesis by (simp add: aligned_at_def)
qed

lemma chain_offsets:
  "chain data base P bs \<Longrightarrow> b \<in> set bs \<Longrightarrow>
     int P - int base \<le> snd b \<and> snd b + int (length (fst b)) \<le> int P - int base + int (length (concat (map fst bs)))"
proof (induction bs arbitrary: P)
  case (Cons c bs)
  obtain bd off where c: "c = (bd, off)" by (cases c)
  with Cons.prems have rest: "chain data base (P + length bd) bs" "off = int P - int base" by simp_all
  show ?case
  proof (cases "b = c")
    case False
    then have "b \<in> set bs" using Cons.prems(2) by simp
    from Cons.IH [OF rest(1) this] show ?thesis by (simp add: c)
  qed (simp add: c rest(2))
qed simp

lemma slice_slice:
  "base \<le> P \<Longrightarrow> Q \<le> base + n \<Longrightarrow> slice (P - base) (Q - base) (slice base (base + n) data) = slice P Q data"
  by (simp add: slice_def drop_take min_def)

text \<open>All buffers of the body but the last are full.\<close>

lemma body_offsets:
  assumes "\<forall>i < length (b # ms). snd ((b # ms) ! i) = int (P + i * BUFFER_LEN) - int base" "chain data base (P + l) ms"
  shows "\<forall>i < length ms. snd (ms ! i) = int (P + l + i * BUFFER_LEN) - int base" "ms \<noteq> [] \<Longrightarrow> 16 dvd l"
proof -
  have o: "snd (ms ! i) = int (P + Suc i * BUFFER_LEN) - int base" if "i < length ms" for i
    using assms(1) that by (metis Suc_less_eq length_Cons nth_Cons_Suc)
  have len: "l = BUFFER_LEN" if "ms \<noteq> []"
  proof -
    obtain c ms' where c: "ms = c # ms'" using \<open>ms \<noteq> []\<close> by (cases ms) auto
    then have "snd c = int (P + l) - int base" using assms(2) by (cases c) simp
    moreover have "snd c = int (P + Suc 0 * BUFFER_LEN) - int base" using o [of 0] c by simp
    ultimately have "int l = int BUFFER_LEN" by linarith
    then show ?thesis by (simp only: of_nat_eq_iff)
  qed
  show "\<forall>i < length ms. snd (ms ! i) = int (P + l + i * BUFFER_LEN) - int base"
  proof (intro allI impI)
    fix i assume "i < length ms"
    then have "ms \<noteq> []" by auto
    then show "snd (ms ! i) = int (P + l + i * BUFFER_LEN) - int base" using o [OF \<open>i < length ms\<close>] len by simp
  qed
  show "16 dvd l" if "ms \<noteq> []" using len [OF that] by (simp add: BUFFER_LEN_eq)
qed

lemma ready_body:
  assumes "chain data base P ms" "concat (map fst ms) = slice P stop data"
    and "\<forall>i < length ms. snd (ms ! i) = int (P + i * BUFFER_LEN) - int base"
    and "\<forall>b \<in> set ms. fst b \<noteq> []" "base \<le> P" "P \<le> stop" "stop \<le> base + n" "base + n \<le> length data"
    and "a \<le> P - base \<and> 16 dvd P - base - a" "whole_blocks rs a (stop - base)" "full = slice base (base + n) data"
    and "\<forall>j < 16. stop - base + j < n \<longrightarrow>
      first_block (case ts of [] \<Rightarrow> [] | t # _ \<Rightarrow> fst t) ! j = full ! (stop - base + j)"
    and "all_ready a (stop - base) rs full ts"
  shows "all_ready a (stop - base) rs full (ms @ ts)"
  using assms(1-6,9)
proof (induction ms arbitrary: P)
  case (Cons b ms)
  obtain bd off where b: "b = (bd, off)" by (cases b)
  have bd: "off = int (P - base)" "chain data base (P + length bd) ms" "bd = slice P (P + length bd) data"
    using Cons.prems(1,5) by (simp_all add: b)
  have "length (concat (map fst (b # ms))) = stop - P"
    unfolding Cons.prems(2) using assms(7,8) by (intro length_slice) simp
  then have len: "length bd + length (concat (map fst ms)) = stop - P" by (simp add: b)
  then have le: "P + length bd \<le> stop" using Cons.prems(6) by linarith
  have pos: "P + length bd - base = P - base + length bd" using Cons.prems(5) by simp
  have full: "length full = n" using assms(8,11) by (simp add: length_slice)
  have rest: "concat (map fst ms) = slice (P + length bd) stop data"
  proof -
    have "bd @ concat (map fst ms) = bd @ slice (P + length bd) stop data"
      using Cons.prems(2) le slice_append [of P "P + length bd" stop data] bd(3) by (simp add: b)
    then show ?thesis by simp
  qed
  note offs = body_offsets(1) [OF Cons.prems(3) bd(2)]
  have next16: "a \<le> P + length bd - base \<and> 16 dvd P + length bd - base - a" if "ms \<noteq> []"
  proof -
    have "a \<le> p \<Longrightarrow> p + length bd - a = p - a + length bd" for p by simp
    then have "P - base + length bd - a = P - base - a + length bd" using Cons.prems(7) by blast
    then show ?thesis
      using Cons.prems(7) body_offsets(2) [OF Cons.prems(3) bd(2) that] unfolding pos by (metis dvd_add trans_le_add1)
  qed
  have next_in: "P + length bd - base < stop - base" if "ms \<noteq> []"
  proof -
    have "0 < length (concat (map fst ms))" using that Cons.prems(4) by (cases ms) auto
    then show ?thesis using len le Cons.prems(5,6) by linarith
  qed
  have bd': "bd = slice (P - base) (P - base + length bd) full"
    using slice_slice [of base P "P + length bd" n data] bd(3) le Cons.prems(5) assms(7,11) unfolding pos by simp
  have "ready a (stop - base) rs full b (case ms @ ts of [] \<Rightarrow> [] | c # _ \<Rightarrow> fst c)"
    unfolding ready_def
  proof (intro impI exI conjI)
    show "snd b = int (P - base)" using bd(1) by (simp add: b)
    show "0 < length (fst b)" using Cons.prems(4) by (simp add: b)
    show "P - base + length (fst b) \<le> stop - base" using le Cons.prems(5) by (simp add: b)
    show "fst b = slice (P - base) (P - base + length (fst b)) full" using bd' by (simp add: b)
    have "0 < length bd" using Cons.prems(4) by (simp add: b)
    then have "P - base < stop - base" using le Cons.prems(5) by linarith
    then show "\<forall>r \<in> set rs. aligned_at (P - base) r" using Cons.prems(7) whole_blocks_aligned [OF assms(10)] by blast
    show "(\<forall>j < 16. P - base + length (fst b) + j < length full \<longrightarrow>
          first_block (case ms @ ts of [] \<Rightarrow> [] | c # _ \<Rightarrow> fst c) ! j = full ! (P - base + length (fst b) + j)) \<or>
        (\<forall>r \<in> set rs. aligned_at (P - base + length (fst b)) r)"
    proof (cases "ms = []")
      case True
      then have "P - base + length bd = stop - base" using len le Cons.prems(5) by simp
      then show ?thesis using assms(12) True by (simp add: b full)
    next
      case False
      have "\<forall>r \<in> set rs. aligned_at (P + length bd - base) r"
        using next16 [OF False] next_in [OF False] whole_blocks_aligned [OF assms(10)] by blast
      then show ?thesis unfolding pos by (simp add: b)
    qed
  qed
  moreover have "all_ready a (stop - base) rs full (ms @ ts)"
  proof (cases "ms = []")
    case True
    then show ?thesis using assms(13) by simp
  next
    case False
    then show ?thesis
      using Cons.IH [OF bd(2) rest offs] Cons.prems(4,5) le next16 by simp
  qed
  ultimately show ?case by simp
qed (use assms(13) in simp)

lemma all_ready_outside:
  "\<forall>b \<in> set xs. \<not> in_request a e b \<Longrightarrow> all_ready a e rs full ys \<Longrightarrow> all_ready a e rs full (xs @ ys)"
  by (induction xs) (simp_all add: ready_def)

text \<open>The windowed stream of a request: every buffer is ready, and the buffers of the request
  are those of its range.\<close>

text \<open>Which buffers of a windowed read overlap the request, and what follows its last one.\<close>

lemma outside_request:
  assumes "chain data base p hs" "p + length (concat (map fst hs)) = start" "chain data base stop ts" "base \<le> start" "base \<le> stop"
  shows "b \<in> set hs \<Longrightarrow> fst b \<noteq> [] \<Longrightarrow> \<not> in_request (start - base) (stop - base) b"
    and "b \<in> set ts \<Longrightarrow> \<not> in_request (start - base) (stop - base) b"
proof -
  show "\<not> in_request (start - base) (stop - base) b" if "b \<in> set hs" "fst b \<noteq> []"
  proof -
    have "0 < length (fst b)" using that(2) by simp
    moreover have "snd b + int (length (fst b)) \<le> int (start - base)"
      using chain_offsets [OF assms(1) that(1)] assms(2,4) by simp
    ultimately show ?thesis unfolding in_request_def by linarith
  qed
  show "\<not> in_request (start - base) (stop - base) b" if "b \<in> set ts"
    using chain_offsets [OF assms(3) that] assms(5) by (simp add: in_request_def)
qed

lemma inside_request:
  assumes "chain data base start ms" "b \<in> set ms" "fst b \<noteq> []" "start + length (concat (map fst ms)) = stop" "base \<le> start"
  shows "in_request (start - base) (stop - base) b"
proof -
  have "0 < length (fst b)" using assms(3) by simp
  moreover have "int (start - base) \<le> snd b" "snd b + int (length (fst b)) \<le> int (stop - base)"
    using chain_offsets [OF assms(1,2)] assms(4,5) by simp_all
  ultimately show ?thesis unfolding in_request_def by linarith
qed

lemma tail_bytes:
  assumes "concat (map fst ts) = slice stop (min (stop + WINDOW_SIZE) (base + n)) data" "length ts \<le> 1"
    and "base \<le> stop" "stop \<le> base + n" "base + n \<le> length data" "full = slice base (base + n) data"
  shows "\<forall>j < 16. stop - base + j < n \<longrightarrow>
    first_block (case ts of [] \<Rightarrow> [] | t # _ \<Rightarrow> fst t) ! j = full ! (stop - base + j)"
proof (intro allI impI)
  fix j :: nat assume j: "j < 16" "stop - base + j < n"
  have tl: "(case ts of [] \<Rightarrow> [] | t # _ \<Rightarrow> fst t) = concat (map fst ts)" using assms(2) by (cases ts) auto
  have "j < length (concat (map fst ts))" unfolding assms(1) using j assms(3-5) by (simp add: length_slice)
  then have "first_block (concat (map fst ts)) ! j = concat (map fst ts) ! j"
    using j(1) by (simp add: first_block_def nth_append)
  also have "\<dots> = data ! (stop + j)" unfolding assms(1) using j assms(3-5) by (simp add: slice_def)
  also have "\<dots> = full ! (stop - base + j)" using j(2) assms(3,5,6) by (simp add: slice_def)
  finally show "first_block (case ts of [] \<Rightarrow> [] | t # _ \<Rightarrow> fst t) ! j = full ! (stop - base + j)" unfolding tl .
qed

lemma windowed_ready:
  assumes "windowed data base start stop (base + n) hs ms ts" "base \<le> start" "start \<le> stop" "stop \<le> base + n"
    and "base + n \<le> length data" "whole_blocks rs (start - base) (stop - base)" "full = slice base (base + n) data"
  shows "all_ready (start - base) (stop - base) rs full (hs @ ms @ ts) \<and>
    filter (in_request (start - base) (stop - base)) (hs @ ms @ ts) = (if start < stop then ms else []) \<and>
    chain data base start ms \<and> concat (map fst ms) = slice start stop data \<and>
    (0 < n \<longrightarrow> hs @ ms @ ts \<noteq> [])"
proof -
  obtain p where p: "p = base \<or> p + WINDOW_SIZE = start" "p \<le> start" "chain data base p (hs @ ms @ ts)"
    "concat (map fst hs) = slice p start data"
    using assms(1) by (auto simp: windowed_def)
  have w: "concat (map fst ms) = slice start stop data"
    "concat (map fst ts) = slice stop (min (stop + WINDOW_SIZE) (base + n)) data"
    "length hs \<le> 1" "length ts \<le> 1" "\<forall>b \<in> set hs. fst b \<noteq> []"
    "start < stop \<longrightarrow> (\<forall>b \<in> set ms. fst b \<noteq> [])"
    "\<forall>i < length ms. snd (ms ! i) = int (start + i * BUFFER_LEN) - int base"
    using assms(1) by (auto simp: windowed_def)
  have lens: "length (concat (map fst hs)) = start - p" "length (concat (map fst ms)) = stop - start"
    unfolding p(4) w(1) using assms(2-5) by (auto intro!: length_slice)
  have ch: "chain data base p hs" "chain data base start ms" "chain data base stop ts"
    using p(2,3) lens assms(3) by (simp_all add: chain_append)
  have "p + length (concat (map fst hs)) = start" "base \<le> stop" using lens(1) p(2) assms(2,3) by simp_all
  note out = outside_request [OF ch(1) this(1) ch(3) assms(2) this(2)]
  have hs: "\<not> in_request (start - base) (stop - base) b" if "b \<in> set hs" for b
    using out(1) that w(5) by blast
  have ts: "\<not> in_request (start - base) (stop - base) b" if "b \<in> set ts" for b
    using out(2) that by blast
  have ms: "in_request (start - base) (stop - base) b" if "b \<in> set ms" "start < stop" for b
    using inside_request [OF ch(2) that(1)] w(6) that lens(2) assms(2,3) by simp
  have none: "\<not> in_request (start - base) (stop - base) b" if "start = stop" for b
    using that by (simp add: in_request_def)
  have filt: "filter (in_request (start - base) (stop - base)) (hs @ ms @ ts) = (if start < stop then ms else [])"
    using hs ts ms none assms(3) by (cases "start < stop") (auto simp: filter_empty_conv intro: filter_True)
  have full: "length full = n" using assms(5,7) by (simp add: length_slice)
  have "all_ready (start - base) (stop - base) rs full (ms @ ts)"
  proof (cases "start < stop")
    case False
    then show ?thesis using none assms(3) all_ready_outside [of "ms @ ts" _ _ rs full "[]"] by simp
  next
    case True
    have next_bytes: "\<forall>j < 16. stop - base + j < n \<longrightarrow>
      first_block (case ts of [] \<Rightarrow> [] | t # _ \<Rightarrow> fst t) ! j = full ! (stop - base + j)"
      using tail_bytes [OF w(2,4) _ assms(4,5,7)] assms(2,3) by simp
    have "all_ready (start - base) (stop - base) rs full (ts @ [])"
      using ts by (intro all_ready_outside) simp_all
    then have "all_ready (start - base) (stop - base) rs full ts" by simp
    from ready_body [OF ch(2) w(1,7) _ assms(2,3,4,5) _ assms(6,7) next_bytes this] w(6) True
    show ?thesis by simp
  qed
  then have "all_ready (start - base) (stop - base) rs full (hs @ ms @ ts)"
    using hs by (intro all_ready_outside [of hs]) simp_all
  moreover have "hs @ ms @ ts \<noteq> []" if "0 < n"
  proof
    assume "hs @ ms @ ts = []"
    then have e: "hs = []" "ms = []" "ts = []" by simp_all
    have "length (concat (map fst ts)) = min (stop + WINDOW_SIZE) (base + n) - stop"
      unfolding w(2) using assms(5) by (intro length_slice) simp
    then have "start - p = 0" "stop - start = 0" "min (stop + 64) (base + n) - stop = 0"
      using lens by (simp_all add: e)
    then show False using p(1,2) assms(2-4) \<open>0 < n\<close> by auto
  qed
  ultimately show ?thesis using filt ch(2) w(1) by blast
qed

section \<open>Requests\<close>

text \<open>The first and the last position of a request, cut at the end of the file.\<close>

definition req_start :: "dvdbnd_file \<Rightarrow> u64 \<Rightarrow> nat" where
  "req_start file offset = min (unat offset) (unat (unpadded_len file))"

definition req_stop :: "dvdbnd_file \<Rightarrow> u64 \<Rightarrow> u32 \<Rightarrow> nat" where
  "req_stop file offset len = min (req_start file offset + unat len) (unat (unpadded_len file))"

lemma unat_min: "unat (min x y) = min (unat x) (unat y)"
  by (simp add: min_def word_le_nat_alt)

lemma request_numbers:
  fixes offset :: u64 and len off l :: u32
  assumes "unat (data_offset file) + unat (f_len file) < 2 ^ 63" "unpadded_len file \<le> f_len file"
    and off_def: "off = ucast (min offset (ucast (unpadded_len file)))"
    and l_def: "l = min len (unpadded_len file - off)"
  shows "unat off = req_start file offset" "unat l = req_stop file offset len - req_start file offset"
    "req_start file offset \<le> req_stop file offset len" "req_stop file offset len \<le> unat (f_len file)"
    "unat (data_offset file + ucast off) = unat (data_offset file) + req_start file offset"
    "unat (off + l) = req_stop file offset len"
    "unat (ucast (data_offset file + ucast off - data_offset file) :: u32) = req_start file offset"
    "unat ((ucast (data_offset file + ucast off - data_offset file) :: u32) + l) = req_stop file offset len"
proof -
  have up: "unat (unpadded_len file) < 2 ^ 32" using unsigned_less [of "unpadded_len file", where 'a = nat] by simp
  have le: "unat (unpadded_len file) \<le> unat (f_len file)" using assms(2) by (simp add: word_le_nat_alt)
  show off: "unat off = req_start file offset"
  proof -
    have "unat off = take_bit 32 (min (unat offset) (unat (unpadded_len file)))"
      by (simp add: off_def unsigned_ucast_eq [of "min _ _"] unat_min)
    also have "\<dots> = req_start file offset" using up by (simp add: req_start_def take_bit_nat_eq_self)
    finally show ?thesis .
  qed
  have le': "req_start file offset \<le> unat (unpadded_len file)" by (simp add: req_start_def)
  show l: "unat l = req_stop file offset len - req_start file offset"
    using off le' by (simp add: l_def unat_min unat_sub_if' req_stop_def)
  show ss: "req_start file offset \<le> req_stop file offset len" using le' by (simp add: req_stop_def)
  show sf: "req_stop file offset len \<le> unat (f_len file)" using le by (simp add: req_stop_def)
  show ds: "unat (data_offset file + ucast off) = unat (data_offset file) + req_start file offset"
    using off assms(1) le le' by (subst unat_add_lem [THEN iffD1]) simp_all
  have "req_stop file offset len < 2 ^ 32" using up by (simp add: req_stop_def)
  then have sum: "unat off + unat l = req_stop file offset len" "unat off + unat l < 2 ^ 32"
    using off l ss by simp_all
  show "unat (off + l) = req_stop file offset len"
    using sum by (simp add: unat_plus_if')
  have "data_offset file + ucast off - data_offset file = ucast off" by simp
  moreover have "(ucast (ucast off :: u64) :: u32) = off"
  proof (rule word_unat_eq_iff [THEN iffD2])
    have "unat (ucast (ucast off :: u64) :: u32) = take_bit 32 (unat (ucast off :: u64))"
      using unsigned_ucast_eq [of "ucast off :: u64", where 'c = 32 and 'a = nat] by simp
    also have "\<dots> = unat off"
      using unsigned_less [of off, where 'a = nat] by (simp add: take_bit_nat_eq_self)
    finally show "unat (ucast (ucast off :: u64) :: u32) = unat off" .
  qed
  ultimately have "(ucast (data_offset file + ucast off - data_offset file) :: u32) = off" by simp
  then show "unat (ucast (data_offset file + ucast off - data_offset file) :: u32) = req_start file offset"
    "unat ((ucast (data_offset file + ucast off - data_offset file) :: u32) + l) = req_stop file offset len"
    using off sum by (simp_all add: unat_plus_if')
qed

text \<open>The bytes of a file in its archive.\<close>

definition archive_bytes :: "dvdbnd_file \<Rightarrow> bytes \<Rightarrow> bytes" where
  "archive_bytes file data =
     slice (unat (data_offset file)) (unat (data_offset file) + unat (f_len file)) data"

text \<open>The archive of a file as opened: it holds the bytes of the file.\<close>

definition archive_ok :: "managed_read \<Rightarrow> bytes \<Rightarrow> dvdbnd_file \<Rightarrow> bool" where
  "archive_ok bdt data file \<longleftrightarrow> reads_file bdt data \<and> length data < 2 ^ 63 \<and>
     unat (data_offset file) + unat (f_len file) \<le> length data \<and> unpadded_len file \<le> f_len file"

lemma length_archive_bytes: "archive_ok bdt data file \<Longrightarrow> length (archive_bytes file data) = unat (f_len file)"
  by (simp add: archive_ok_def archive_bytes_def length_slice)

lemma read_plain_file:
  assumes "file_entry_of m ino = Ok file" "bdt_open open_file (m_bdts m) file mp = Ok (bdt, mp')"
    and "archive_ok bdt data file" "file_encryption_id file = None"
  shows "\<exists>ps. read_file decrypt_block open_file m ino offset len f mp s = deliver f ps s \<and>
    consecutive (archive_bytes file data) (req_start file offset) ps \<and>
    concat (map fst ps) = slice (req_start file offset) (req_stop file offset len) (archive_bytes file data)"
proof -
  define off where "off = (ucast (min offset (ucast (unpadded_len file))) :: u32)"
  define l where "l = min len (unpadded_len file - off)"
  let ?D = "unat (data_offset file)" and ?a = "req_start file offset" and ?b = "req_stop file offset len"
  have ok: "reads_file bdt data" "length data < 2 ^ 63" "?D + unat (f_len file) \<le> length data"
    "unpadded_len file \<le> f_len file" using assms(3) by (auto simp: archive_ok_def)
  have "?D + unat (f_len file) < 2 ^ 63" using ok(2,3) by simp
  note n = request_numbers [OF this ok(4) off_def l_def]
  have stop: "unat (data_offset file + ucast off) + unat l = ?D + ?b" using n(2,3,5) by simp
  have le: "data_offset file \<le> data_offset file + ucast off"
    "unat (data_offset file + ucast off) + unat l \<le> ?D + unat (f_len file)"
    using n(4,5) stop by (simp_all add: word_le_nat_alt)
  obtain bs where
    bs: "stream_read bdt (data_offset file + ucast off) l (data_offset file) (f_len file) = Some (map Ok bs)"
    "chain data ?D (?D + ?a) bs" "concat (map fst bs) = slice (?D + ?a) (?D + ?b) data"
    "\<forall>b \<in> set bs. fst b \<noteq> [] \<and> length (fst b) \<le> BUFFER_LEN"
    using stream_read_covers [OF ok(1) le ok(3,2)] unfolding n(5) stop [unfolded n(5)]
    by (elim exE conjE) (rule that, assumption+)
  then have ne: "\<forall>b \<in> set bs. fst b \<noteq> []" by blast
  have len: "length (concat (map fst bs)) = ?b - ?a"
    unfolding bs(3) using n(4) ok(3) by (subst length_slice) simp_all
  have "read_file decrypt_block open_file m ino offset len f mp s =
      read_loop (clamp_piece (off + l) f) (map Ok bs) s"
    unfolding read_file_def assms(1,2,4) obind.simps map_err_def outcome.case Let_def prod.case option.case
      off_def [symmetric] l_def [symmetric] bs(1) by (rule refl)
  also have "\<dots> = deliver f (map (piece_of (archive_bytes file data)) bs) s"
    by (rule read_loop_pieces [OF bs(2) _ _ ne archive_bytes_def ok(3)])
      (use len n in simp_all)
  finally have "read_file decrypt_block open_file m ino offset len f mp s =
      deliver f (map (piece_of (archive_bytes file data)) bs) s" .
  moreover have "consecutive (archive_bytes file data) (?D + ?a - ?D) (map (piece_of (archive_bytes file data)) bs) \<and>
    concat (map fst (map (piece_of (archive_bytes file data)) bs)) =
      slice (?D + ?a - ?D) (?D + ?a - ?D + length (concat (map fst bs))) (archive_bytes file data)"
    by (rule chain_pieces [OF bs(2) _ _ _ ne])
      (use len n length_archive_bytes [OF assms(3)] unsigned_less [of "f_len file", where 'a = nat] in simp_all)
  ultimately show ?thesis using len n(3) by auto
qed

lemma read_encrypted_file:
  assumes "file_entry_of m ino = Ok file" "bdt_open open_file (m_bdts m) file mp = Ok (bdt, mp')"
    and "archive_ok bdt data file" "file_encryption_id file = Some eid"
    and "encryption_store (m_fs m) (file_src_id file) = Some store"
    and dec: "decrypts (store_decrypt decrypt_block store eid) fd rs" and fd: "block_ok fd"
    and rs: "ranges_ok rs (unat (f_len file))"
    and "whole_blocks rs (req_start file offset) (req_stop file offset len)" "0 < f_len file"
  shows "\<exists>ps. read_file decrypt_block open_file m ino offset len f mp s = deliver f ps s \<and>
    consecutive (decrypted fd rs (archive_bytes file data)) (req_start file offset) ps \<and>
    concat (map fst ps) =
      slice (req_start file offset) (req_stop file offset len) (decrypted fd rs (archive_bytes file data))"
proof -
  define off where "off = (ucast (min offset (ucast (unpadded_len file))) :: u32)"
  define l where "l = min len (unpadded_len file - off)"
  let ?D = "unat (data_offset file)" and ?a = "req_start file offset" and ?b = "req_stop file offset len"
  let ?n = "unat (f_len file)" and ?full = "archive_bytes file data"
  let ?start = "ucast (data_offset file + ucast off - data_offset file) :: u32"
  have ok: "reads_file bdt data" "length data < 2 ^ 63" "?D + ?n \<le> length data"
    "unpadded_len file \<le> f_len file" using assms(3) by (auto simp: archive_ok_def)
  have "?D + ?n < 2 ^ 63" using ok(2,3) by simp
  note n = request_numbers [OF this ok(4) off_def l_def]
  have stop: "?D + ?a + unat l = ?D + ?b" using n(2,3) by simp
  have le: "data_offset file \<le> data_offset file + ucast off"
    "unat (data_offset file + ucast off) + unat l \<le> ?D + ?n"
    using n(3,4,5) stop by (simp_all add: word_le_nat_alt)
  obtain hs ms ts where
    strm: "stream_read_windows bdt (data_offset file + ucast off) l (data_offset file) (f_len file) =
      Some (map Ok (hs @ ms @ ts))"
    and win: "windowed data ?D (?D + ?a) (?D + ?b) (?D + ?n) hs ms ts"
    using windows_cover [OF ok(1) le ok(3,2)] unfolding n(5) stop by (elim exE conjE) (rule that)
  have al: "whole_blocks rs (?D + ?a - ?D) (?D + ?b - ?D)" using assms(9) by simp
  have n16: "0 < ?n" using assms(10) by (simp add: word_less_nat_alt)
  have r: "all_ready ?a ?b rs ?full (hs @ ms @ ts)"
    "filter (in_request ?a ?b) (hs @ ms @ ts) = (if ?D + ?a < ?D + ?b then ms else [])"
    "chain data ?D (?D + ?a) ms" "concat (map fst ms) = slice (?D + ?a) (?D + ?b) data"
    "hs @ ms @ ts \<noteq> []"
    using windowed_ready [OF win le_add1 _ _ ok(3) al archive_bytes_def] n(3,4) n16
    unfolding diff_add_inverse by auto
  have full: "length ?full = ?n" by (rule length_archive_bytes [OF assms(3)])
  have rok: "ranges_ok rs (length ?full)" "unat (?start + l) \<le> length ?full" using rs n(4,8) full by simp_all
  have "read_file decrypt_block open_file m ino offset len f mp s =
      decrypt_loop (store_decrypt decrypt_block store eid) ?start (?start + l) (clamp_piece (off + l) f)
        (map Ok (hs @ ms @ ts)) ciphertext_buffer_default s"
    unfolding read_file_def read_and_decrypt_file_def assms(1,2,4,5) obind.simps map_err_def outcome.case Let_def
      prod.case option.case off_def [symmetric] l_def [symmetric] strm by (rule refl)
  also have "off + l = ?start + l" using n(6,8) by (simp only: word_unat_eq_iff)
  also have "decrypt_loop (store_decrypt decrypt_block store eid) ?start (?start + l) (clamp_piece (?start + l) f)
        (map Ok (hs @ ms @ ts)) ciphertext_buffer_default s =
      deliver f (map (piece_of (decrypted fd rs ?full)) (if ?a < ?b then ms else [])) s"
  proof -
    have "(if ?D + ?a < ?D + ?b then ms else []) = (if ?a < ?b then ms else [])" by simp
    with decrypt_stream_pieces [OF dec fd rok, of ?start "hs @ ms @ ts" f s] r(1,2,5)
    show ?thesis by (simp only: n(7,8) simp_thms)
  qed
  finally have rf: "read_file decrypt_block open_file m ino offset len f mp s =
      deliver f (map (piece_of (decrypted fd rs ?full)) (if ?a < ?b then ms else [])) s" .
  show ?thesis
  proof (cases "?a < ?b")
    case True
    have len: "length (concat (map fst ms)) = ?b - ?a"
      unfolding r(4) using n(4) ok(3) by (subst length_slice) simp_all
    have "\<forall>b \<in> set ms. fst b \<noteq> []" using win True by (auto simp: windowed_def)
    from chain_pieces [OF r(3) _ _ _ this, of "decrypted fd rs ?full"]
    have "consecutive (decrypted fd rs ?full) ?a (map (piece_of (decrypted fd rs ?full)) ms) \<and>
      concat (map fst (map (piece_of (decrypted fd rs ?full)) ms)) = slice ?a ?b (decrypted fd rs ?full)"
      using len n(3,4) full unsigned_less [of "f_len file", where 'a = nat] by simp
    then show ?thesis using rf True by auto
  next
    case False
    then have "slice ?a ?b (decrypted fd rs ?full) = []" by (simp add: slice_def)
    then show ?thesis using rf False by (intro exI [of _ "[]"]) simp
  qed
qed

section \<open>Properties\<close>

text \<open>A callback that collects what it is given.\<close>

definition collect_piece :: "bytes callback" where
  "collect_piece b off s = Ok (s @ b)"

lemma deliver_collect: "deliver collect_piece ps s = Ok (s @ concat (map fst ps))"
proof (induction ps arbitrary: s)
  case (Cons p ps)
  then show ?case by (cases p) (simp add: collect_piece_def)
qed simp

text \<open>C8: reading an unencrypted file hands the callback consecutive, nonempty pieces of the file,
  in order and with their offsets, that together are exactly the requested range cut at the
  end of the file, for every offset and length; an error of the callback stops the read.\<close>

theorem read_plain_exact:
  assumes "file_entry_of m ino = Ok file" "bdt_open open_file (m_bdts m) file mp = Ok (bdt, mp')"
    and "archive_ok bdt data file" "file_encryption_id file = None"
  shows "\<exists>ps. read_file decrypt_block open_file m ino offset len f mp s = deliver f ps s \<and>
    consecutive (archive_bytes file data) (req_start file offset) ps \<and>
    concat (map fst ps) = slice (req_start file offset) (req_stop file offset len) (archive_bytes file data)"
  using assms by (rule read_plain_file)

definition sample_mount :: "dvdbnd_file \<Rightarrow> bytes \<Rightarrow> mount" where
  "sample_mount file store =
     \<lparr>m_fs = \<lparr>inner_fs = \<lparr>nodes = [node_dir 1 1 0, node_file 0 1], rofs_files = [file], names = [0, 1, 97]\<rparr>,
              encryption_stores = [(file_src_id file, store)]\<rparr>,
      m_bdts = [(file_src_id file, ''data.bdt'')]\<rparr>"

lemma sample_mount_entry: "file_entry_of (sample_mount file store) 2 = Ok file"
  by (simp add: file_entry_of_def sample_mount_def rofs_entry_def INODE_ROOT_def node_entry_def node_file_def
      node_dir_def node_name_def read_name_def nth_opt_def)

lemma sample_mount_open:
  "bdt_open (\<lambda>_. Ok bdt) (m_bdts (sample_mount file store)) file [] = Ok (bdt, [(''data.bdt'', bdt)])"
  by (simp add: bdt_open_def sample_mount_def)

theorem read_plain_exact_witness:
  "read_file (\<lambda>k b. b) (\<lambda>_. Ok (\<lambda>len pos. Ok (Some (slice pos (pos + len) [1, 2, 3, 4, 5, 6, 7, 8, 9]))))
      (sample_mount \<lparr>data_offset = 2, f_len = 6, f_unpadded_len = 5, file_src_id = [7], file_encryption_id = None\<rparr> [])
      2 1 9 collect_piece [] [] = Ok [4, 5, 6, 7]"
proof -
  let ?file = "\<lparr>data_offset = 2, f_len = 6, f_unpadded_len = 5, file_src_id = [7], file_encryption_id = None\<rparr>"
  let ?data = "[1, 2, 3, 4, 5, 6, 7, 8, 9] :: bytes"
  let ?bdt = "\<lambda>len pos. Ok (Some (slice pos (pos + len) ?data))"
  have ok: "archive_ok ?bdt ?data ?file"
    using reads_file_slice by (simp add: archive_ok_def unpadded_len_def)
  have no: "file_encryption_id ?file = None" by simp
  obtain ps where ps: "read_file (\<lambda>k b. b) (\<lambda>_. Ok ?bdt) (sample_mount ?file []) 2 1 9 collect_piece [] [] =
      deliver collect_piece ps []"
    "concat (map fst ps) = slice (req_start ?file 1) (req_stop ?file 1 9) (archive_bytes ?file ?data)"
    using read_plain_exact [OF sample_mount_entry [where store = "[]"] sample_mount_open ok no,
        where decrypt_block = "\<lambda>k b. b" and offset = 1 and len = 9 and f = collect_piece and s = "[]"]
    by (elim exE conjE) (rule that)
  then show ?thesis
    by (simp add: deliver_collect req_start_def req_stop_def unpadded_len_def archive_bytes_def slice_def)
qed

text \<open>C5: a read of an encrypted file that is not empty hands the callback consecutive pieces that are
  exactly the requested range of the decrypted file, for every length and across all buffers the
  range is read in, when the encrypted ranges are disjoint and inside the file and the read starts
  a whole number of blocks from the start of every encrypted range that it meets: at a multiple of
  16 where the ranges start at such multiples, and anywhere as far as it meets no encrypted range.
  Reads that start inside a block of a range are not covered; what a buffer becomes there is the
  exception of the decryption of a buffer.\<close>

theorem read_encrypted_exact:
  assumes "file_entry_of m ino = Ok file" "bdt_open open_file (m_bdts m) file mp = Ok (bdt, mp')"
    and "archive_ok bdt data file" "file_encryption_id file = Some eid"
    and "encryption_store (m_fs m) (file_src_id file) = Some store"
    and "decrypts (store_decrypt decrypt_block store eid) fd rs" "block_ok fd"
    and "ranges_ok rs (unat (f_len file))"
    and "whole_blocks rs (req_start file offset) (req_stop file offset len)" "0 < f_len file"
  shows "\<exists>ps. read_file decrypt_block open_file m ino offset len f mp s = deliver f ps s \<and>
    consecutive (decrypted fd rs (archive_bytes file data)) (req_start file offset) ps \<and>
    concat (map fst ps) =
      slice (req_start file offset) (req_stop file offset len) (decrypted fd rs (archive_bytes file data))"
  using assms by (rule read_encrypted_file)

theorem read_encrypted_exact_witness:
  "\<exists>store eid. store_encryption (FileEntryDs 1 64 0) sample_encryption [] = Ok (eid, store) \<and>
    read_file (\<lambda>k. map (\<lambda>b. b + 1)) (\<lambda>_. Ok (\<lambda>len pos. Ok (Some (slice pos (pos + len) (replicate 64 7)))))
      (sample_mount \<lparr>data_offset = 0, f_len = 64, f_unpadded_len = 0, file_src_id = [7],
         file_encryption_id = Some eid\<rparr> store) 2 16 40 collect_piece [] [] =
    Ok (slice 16 56 (decrypted (map (\<lambda>b. b + 1)) [\<lparr>rng_start = 16, rng_blocks = 2\<rparr>] (replicate 64 7)))"
proof -
  obtain eid store where st: "store_encryption (FileEntryDs 1 64 0) sample_encryption [] = Ok (eid, store)"
    using sample_stored by blast
  let ?file = "\<lparr>data_offset = 0, f_len = 64, f_unpadded_len = 0, file_src_id = [7], file_encryption_id = Some eid\<rparr>"
  let ?data = "replicate 64 7 :: bytes" and ?r = "\<lparr>rng_start = 16, rng_blocks = 2\<rparr> :: srange"
  let ?bdt = "\<lambda>len pos. Ok (Some (slice pos (pos + len) ?data))" and ?inc = "map (\<lambda>b. b + 1 :: u8)"
  have ok: "archive_ok ?bdt ?data ?file"
    using reads_file_slice by (simp add: archive_ok_def unpadded_len_def)
  have "store_ranges 0 64 (ranges sample_encryption) = Ok [?r]"
    by (simp add: sample_encryption_def saturating_sub_def BLOCK_SIZE_def Let_def)
  moreover have "ucast (file_size (FileEntryDs 1 64 0)) = (64 :: u64)" by (simp add: clamp_i32_def)
  moreover have "length (key sample_encryption) = 16" by (simp add: sample_encryption_def)
  ultimately have dec: "decrypts (store_decrypt (\<lambda>k. ?inc) store eid) ?inc [?r]"
    using store_read_back [OF st, of "\<lambda>k. ?inc" "[]"] by (simp add: decrypts_def)
  have enc: "file_encryption_id ?file = Some eid" by simp
  have stored: "encryption_store (m_fs (sample_mount ?file store)) (file_src_id ?file) = Some store"
    by (simp add: encryption_store_def sample_mount_def)
  have bl: "block_ok ?inc" by (simp add: block_ok_def)
  have rs: "ranges_ok [?r] (unat (f_len ?file))"
    by (simp add: ranges_ok_def disjoint_ranges_def rng_stop_def)
  have wb: "whole_blocks [?r] (req_start ?file 16) (req_stop ?file 16 40)"
    by (rule whole_blocks_16) (simp_all add: req_start_def unpadded_len_def)
  obtain ps where "read_file (\<lambda>k. ?inc) (\<lambda>_. Ok ?bdt) (sample_mount ?file store) 2 16 40 collect_piece [] [] =
      deliver collect_piece ps []"
    "concat (map fst ps) =
      slice (req_start ?file 16) (req_stop ?file 16 40) (decrypted ?inc [?r] (archive_bytes ?file ?data))"
    using read_encrypted_exact [OF sample_mount_entry sample_mount_open ok enc stored dec bl rs wb, of collect_piece "[]"]
    by auto
  moreover have "archive_bytes ?file ?data = ?data" by (simp add: archive_bytes_def slice_def)
  ultimately show ?thesis using st
    by (intro exI [of _ store] exI [of _ eid])
      (simp add: deliver_collect req_start_def req_stop_def unpadded_len_def)
qed

text \<open>Reading an encrypted file of length zero that lies in the first 64 bytes of its archive
  panics: no buffer ever arrives, and the loop takes the current one regardless.\<close>

theorem empty_encrypted_file_panics:
  assumes "file_entry_of m ino = Ok file" "bdt_open open_file (m_bdts m) file mp = Ok (bdt, mp')"
    and "file_encryption_id file = Some eid" "f_len file = 0" "unpadded_len file = 0"
    and "unat (data_offset file) < WINDOW_SIZE"
  shows "read_file decrypt_block open_file m ino offset len f mp s = Panic"
proof -
  have st: "stream_read_windows bdt (data_offset file) 0 (data_offset file) 0 = Some []"
  proof -
    have lt: "data_offset file < of_nat WINDOW_SIZE" using assms(6) by (simp add: word_less_nat_alt)
    have one: "stream_read_one_window bdt (data_offset file) 0 (data_offset file) (data_offset file) = None"
      using lt by (simp add: stream_read_one_window_def WINDOW_MAX_def)
    have eb: "end_bounds (data_offset file) 0 (data_offset file) 0 = Some (data_offset file, data_offset file)"
      by (simp add: end_bounds_def Let_def)
    have "\<not> U64_MAX < unat (data_offset file) + WINDOW_SIZE" using assms(6) by simp
    then show ?thesis
      unfolding stream_read_windows_def eb option.case prod.case one Let_def
      by (simp add: body_reads_def steps_Nil read_buf_def map_filter_Cons List.map_filter_def)
  qed
  have "decrypt_loop d a b g [] ciphertext_buffer_default s = Panic" for d a b g
    using window_views(2) [of "cb_finish ciphertext_buffer_default" None None None]
      window_of_push [OF default_inv, of None] window_of_default
    by (simp add: decrypt_curr_def cb_finish_def)
  then show ?thesis
    using st by (simp add: read_file_def read_and_decrypt_file_def assms(1-5) map_err_def split: option.split)
qed

theorem empty_encrypted_file_panics_witness:
  "read_file (\<lambda>k b. b) (\<lambda>_. Ok (\<lambda>_ _. Ok None))
     (sample_mount \<lparr>data_offset = 5, f_len = 0, f_unpadded_len = 0, file_src_id = [7], file_encryption_id = Some 1\<rparr> [])
     2 0 10 collect_piece [] [] = Panic"
  by (rule empty_encrypted_file_panics [OF sample_mount_entry sample_mount_open])
    (simp_all add: unpadded_len_def)

end
