(* ===== verification/Rsa.thy ===== *)
theory Rsa
  imports DvdbndFs
begin

text \<open>
  RSA decryption of archive headers (\<open>src/crypto/rsa.rs\<close>): the conversion between
  big-endian bytes and natural numbers by 64-bit limbs, the DER and PEM decoding of a key,
  the decryption of one block, of a sequence of blocks in place, and the streaming reader
  with its internal buffer. The big natural numbers (crate \<open>malachite\<close>) are \<open>nat\<close>, with
  their limbs as the code uses them; the base-64 decoder is the parameter \<open>base64\<close>; the
  underlying reader is the list of the chunks that its successive reads return.
\<close>

record rsa_key =
  rsa_n :: nat
  rsa_e :: nat
  rsa_len :: nat

datatype decode_error = Base64 | Der

datatype rsa_error = Size nat | Base

definition DER_INT :: u8 where "DER_INT = 2"
definition DER_SEQ :: u8 where "DER_SEQ = 16 OR 32"

definition in_block_len :: "rsa_key \<Rightarrow> nat" where
  "in_block_len k = rsa_len k"

definition out_block_len :: "rsa_key \<Rightarrow> nat" where
  "out_block_len k = rsa_len k - 1"

section \<open>Naturals and bytes\<close>

definition LIMB_SIZE :: nat where "LIMB_SIZE = 8"

text \<open>\<open>Natural::from_owned_limbs_asc\<close> and \<open>limbs\<close>.\<close>

definition natural_of_limbs :: "u64 list \<Rightarrow> nat" where
  "natural_of_limbs ls = foldr (\<lambda>l n. unat l + 2 ^ 64 * n) ls 0"

definition natural_from_bytes_be :: "bytes \<Rightarrow> nat" where
  "natural_from_bytes_be bs =
     (let remainder = take (length bs mod LIMB_SIZE) bs;
          rchunks = rev (fst (as_chunks LIMB_SIZE (drop (length bs mod LIMB_SIZE) bs)))
      in natural_of_limbs
           (map (\<lambda>chunk. of_nat (be_nat chunk)) rchunks @
            [fold (\<lambda>b limb. push_bit 8 limb OR ucast b) remainder 0]))"

text \<open>The chunks of the output from its end, each filled with the next limb, or with the low
  bytes of it when the chunk is short; limbs beyond the highest are zero.\<close>

function natural_to_bytes_be_in :: "nat \<Rightarrow> nat \<Rightarrow> bytes" where
  "natural_to_bytes_be_in n len =
     (if len = 0 then []
      else let limb = n mod 2 ^ 64
           in if len < LIMB_SIZE then drop (LIMB_SIZE - len) (nat_be LIMB_SIZE limb)
              else natural_to_bytes_be_in (n div 2 ^ 64) (len - LIMB_SIZE) @ nat_be LIMB_SIZE limb)"
  by pat_completeness auto
termination by (relation "measure snd") (auto simp: LIMB_SIZE_def)

declare natural_to_bytes_be_in.simps [simp del]

lemma nat_be_shorter: "k \<le> j \<Longrightarrow> drop (j - k) (nat_be j n) = nat_be k n"
proof -
  assume "k \<le> j"
  then have "nat_le j n = nat_le k n @ nat_le (j - k) (n div 256 ^ k)" using nat_le_add [of k "j - k" n] by simp
  then show ?thesis by (simp add: nat_be_def)
qed

lemma nat_be_mod: "k \<le> j \<Longrightarrow> nat_be k (n mod 256 ^ j) = nat_be k n"
  by (simp add: nat_be_def nat_le_mod)

lemma natural_to_bytes: "natural_to_bytes_be_in n len = nat_be len n"
proof (induction n len rule: natural_to_bytes_be_in.induct)
  case (1 n len)
  have p: "(2 ^ 64 :: nat) = 256 ^ 8" by simp
  consider "len = 0" | "0 < len" "len < 8" | "8 \<le> len" by linarith
  then show ?case
  proof cases
    case 2
    then show ?thesis
      by (subst natural_to_bytes_be_in.simps)
        (simp only: p LIMB_SIZE_def nat_be_shorter less_imp_le nat_be_mod Let_def if_True if_False simp_thms, simp)
  next
    case 3
    then have "natural_to_bytes_be_in n len =
        natural_to_bytes_be_in (n div 256 ^ 8) (len - 8) @ nat_be 8 (n mod 256 ^ 8)"
      by (subst natural_to_bytes_be_in.simps) (simp only: p LIMB_SIZE_def Let_def, simp)
    moreover have "natural_to_bytes_be_in (n div 256 ^ 8) (len - 8) = nat_be (len - 8) (n div 256 ^ 8)"
      using 1 3 by (simp add: LIMB_SIZE_def)
    moreover have "nat_be len n = nat_be (len - 8) (n div 256 ^ 8) @ nat_be 8 n"
      using nat_le_add [of 8 "len - 8" n] 3 by (simp add: nat_be_def)
    ultimately show ?thesis by (simp only: nat_be_mod order_refl)
  qed (simp add: natural_to_bytes_be_in.simps nat_be_def)
qed

section \<open>Keys\<close>

fun decode_der_length :: "bytes \<Rightarrow> (u64 \<times> bytes) option" where
  "decode_der_length [] = None"
| "decode_der_length (first # der) =
     (if first < 128 then Some (ucast first, der)
      else let k = unat (first AND 127)
           in if length der < k then None
              else Some (fold (\<lambda>b len. push_bit 8 len OR ucast b) (take k der) 0, drop k der))"

fun decode_der_integer :: "bytes \<Rightarrow> (bytes \<times> bytes) option" where
  "decode_der_integer [] = None"
| "decode_der_integer (tag # der) =
     (if tag \<noteq> DER_INT then None
      else case decode_der_length der of
             None \<Rightarrow> None
           | Some (len, der) \<Rightarrow>
               let (len, der) = (if der \<noteq> [] \<and> hd der = 0 then (len - 1, tl der) else (len, der))
               in if length der < unat len then None else Some (take (unat len) der, drop (unat len) der))"

fun decode_from_der :: "bytes \<Rightarrow> (decode_error, rsa_key) outcome" where
  "decode_from_der [] = Err Der"
| "decode_from_der (tag # der) =
     (if tag \<noteq> DER_SEQ then Err Der
      else case decode_der_length der of
             None \<Rightarrow> Err Der
           | Some (_, der) \<Rightarrow>
               (case decode_der_integer der of
                  None \<Rightarrow> Err Der
                | Some (n_bytes, der) \<Rightarrow>
                    (case decode_der_integer der of
                       None \<Rightarrow> Err Der
                     | Some (e_bytes, der) \<Rightarrow>
                         if length n_bytes = 0 then Err Der
                         else Ok \<lparr>rsa_n = natural_from_bytes_be n_bytes, rsa_e = natural_from_bytes_be e_bytes,
                                  rsa_len = length n_bytes\<rparr>)))"

definition decode_from_pem :: "(string \<Rightarrow> bytes option) \<Rightarrow> string \<Rightarrow> (decode_error, rsa_key) outcome" where
  "decode_from_pem base64 pem =
     (case base64 (concat (filter (\<lambda>line. take 5 line \<noteq> ''-----'') (str_lines pem))) of
        None \<Rightarrow> Err Base64
      | Some der \<Rightarrow> decode_from_der der)"

section \<open>Blocks\<close>

definition decrypt_block_in :: "rsa_key \<Rightarrow> bytes \<Rightarrow> nat \<Rightarrow> (rsa_error, bytes) outcome" where
  "decrypt_block_in k block out_len =
     (if length block \<noteq> in_block_len k then Err (Size (in_block_len k))
      else let c = natural_from_bytes_be block
           in if rsa_n k \<le> c then Err Base
              else Ok (natural_to_bytes_be_in (c ^ rsa_e k mod rsa_n k) out_len))"

text \<open>The loop in place; the length of a key is nonzero by its type.\<close>

function in_place_loop :: "rsa_key \<Rightarrow> nat \<Rightarrow> nat \<Rightarrow> bytes \<Rightarrow> (rsa_error, nat \<times> bytes) outcome" where
  "in_place_loop k in_tail out_tail blocks =
     (if rsa_len k = 0 then Panic
      else if length blocks < in_tail then Ok (out_tail - out_block_len k, blocks)
      else let c = natural_from_bytes_be (slice (in_tail - in_block_len k) in_tail blocks)
           in if rsa_n k \<le> c then Err Base
              else if length blocks < out_tail \<or> out_tail < out_block_len k then Panic
              else let m = natural_to_bytes_be_in (c ^ rsa_e k mod rsa_n k) (out_block_len k);
                       blocks = take (out_tail - out_block_len k) blocks @ m @ drop out_tail blocks
                   in in_place_loop k (in_tail + in_block_len k) (out_tail + out_block_len k) blocks)"
  by pat_completeness auto
termination
  by (relation "measure (\<lambda>(k, in_tail, out_tail, blocks). length blocks + 1 - in_tail)")
    (auto simp: natural_to_bytes in_block_len_def out_block_len_def)

declare in_place_loop.simps [simp del]

section \<open>The streaming reader\<close>

text \<open>The output buffer with its position; the buffer of the underlying reader, and the chunks
  its next reads return. A read past the last chunk returns nothing.\<close>

record rsa_decryptor =
  out_buf :: bytes
  out_pos :: nat
  rd_buf :: bytes
  rd_chunks :: "bytes list"

definition rsa_decryptor_new :: "rsa_key \<Rightarrow> bytes list \<Rightarrow> rsa_decryptor" where
  "rsa_decryptor_new k reads =
     \<lparr>out_buf = replicate (out_block_len k) 0, out_pos = out_block_len k, rd_buf = [], rd_chunks = reads\<rparr>"

definition fill_buf :: "rsa_decryptor \<Rightarrow> rsa_decryptor" where
  "fill_buf d =
     (if rd_buf d = [] then d\<lparr>rd_buf := (case rd_chunks d of [] \<Rightarrow> [] | c # _ \<Rightarrow> c), rd_chunks := tl (rd_chunks d)\<rparr>
      else d)"

definition rd_left :: "rsa_decryptor \<Rightarrow> nat" where
  "rd_left d = length (rd_buf d) + length (concat (rd_chunks d))"

lemma rd_left_fill [simp]: "rd_left (fill_buf d) = rd_left d"
  by (cases "rd_chunks d") (auto simp: rd_left_def fill_buf_def)

lemma rd_left_consume:
  "length (rd_buf d) = n \<Longrightarrow> 0 < n \<Longrightarrow> rd_left (d\<lparr>rd_buf := drop n (rd_buf d)\<rparr>) < rd_left d"
  by (simp add: rd_left_def)

lemma rd_left_filled:
  "length (rd_buf (fill_buf d)) = n \<Longrightarrow> 0 < n \<Longrightarrow> rd_left (fill_buf d\<lparr>rd_buf := []\<rparr>) < rd_left d"
  using rd_left_consume [of "fill_buf d" n] by simp

lemma rd_left_out [simp]: "rd_left (d\<lparr>out_pos := p\<rparr>) = rd_left d" "rd_left (d\<lparr>out_buf := b\<rparr>) = rd_left d"
  by (simp_all add: rd_left_def)

text \<open>\<open>read\<close> for a destination of \<open>n\<close> bytes: what was written to it, and the reader after it.\<close>

function rsa_read :: "rsa_key \<Rightarrow> nat \<Rightarrow> rsa_decryptor \<Rightarrow> (rsa_error, bytes \<times> rsa_decryptor) outcome" where
  "rsa_read k n d =
     (if n = 0 then Ok ([], d)
      else
        let out = drop (out_pos d) (out_buf d)
        in if out \<noteq> []
           then let amt = min n (length out)
                in obind (rsa_read k (n - amt) (d\<lparr>out_pos := out_pos d + amt\<rparr>)) (\<lambda>(bs, d). Ok (take amt out @ bs, d))
           else let d = fill_buf d; block = rd_buf d
                in if length block \<noteq> in_block_len k \<or> in_block_len k = 0 then Err (Size (in_block_len k))
                   else case decrypt_block_in k block (out_block_len k) of
                          Err e \<Rightarrow> Err e
                        | Panic \<Rightarrow> Panic
                        | Ok m \<Rightarrow>
                            let d = d\<lparr>rd_buf := drop (in_block_len k) block\<rparr>
                            in if out_block_len k \<le> n
                               then obind (rsa_read k (n - out_block_len k) d) (\<lambda>(bs, d). Ok (m @ bs, d))
                               else rsa_read k n (d\<lparr>out_buf := m, out_pos := 0\<rparr>))"
  by pat_completeness auto
termination
  by (relation "measures [\<lambda>(k, n, d). rd_left d, \<lambda>(k, n, d). n]") (auto dest: rd_left_filled)

declare rsa_read.simps [simp del]

definition decrypt_blocks_in_place :: "rsa_key \<Rightarrow> bytes \<Rightarrow> (rsa_error, nat \<times> bytes) outcome" where
  "decrypt_blocks_in_place k blocks =
     (if length blocks mod in_block_len k \<noteq> 0 then Err (Size (in_block_len k))
      else in_place_loop k (in_block_len k) (out_block_len k) blocks)"

text \<open>\<open>read_to_end\<close>: the buffered output, then all the rest of the input, up to the first empty
  read, decrypted in place behind it.\<close>

definition rsa_read_to_end :: "rsa_key \<Rightarrow> bytes \<Rightarrow> rsa_decryptor \<Rightarrow> (rsa_error, nat \<times> bytes \<times> rsa_decryptor) outcome" where
  "rsa_read_to_end k buf d =
     (let out = drop (out_pos d) (out_buf d);
          read = length out;
          buf = buf @ out;
          rest = rd_buf d @ concat (takeWhile (\<lambda>c. c \<noteq> []) (rd_chunks d));
          d = d\<lparr>out_pos := out_pos d + read, rd_buf := [],
                rd_chunks := drop 1 (dropWhile (\<lambda>c. c \<noteq> []) (rd_chunks d))\<rparr>
      in obind (decrypt_blocks_in_place k rest) (\<lambda>(in_place_len, rest).
           Ok (read + in_place_len, buf @ take in_place_len rest, d)))"

section \<open>The limb conversions are base 256\<close>

lemma shift_or: "push_bit 8 w OR ucast b = push_bit 8 w + (ucast (b :: u8) :: u64)"
proof -
  have low: "bit (ucast b :: u64) i \<Longrightarrow> i < 8" for i
    using bit_imp_le_length [of b] by (simp add: bit_ucast_iff)
  then have "push_bit 8 w AND (ucast b :: u64) = 0"
    by (intro bit_word_eqI) (auto simp: bit_and_iff bit_push_bit_iff dest: low)
  then show ?thesis by (rule disjunctive_add_eq_or [symmetric])
qed

lemma unat_shift_or:
  assumes "unat (w :: u64) < 2 ^ 56"
  shows "unat (push_bit 8 w OR ucast (b :: u8)) = unat w * 256 + unat b"
proof -
  have p: "push_bit 8 w = w * 256" by (simp add: push_bit_eq_mult)
  have "unat b < 2 ^ 64" by (rule less_trans [OF unat_u8_less]) simp
  then have b: "unat (ucast b :: u64) = unat b"
    by (simp add: unsigned_ucast_eq take_bit_nat_eq_self)
  have m: "unat (w * 256) = unat w * 256" using assms by (subst unat_mult_lem [THEN iffD1]) simp_all
  have "unat b < 256" by simp
  moreover have "unat w \<le> 72057594037927935" using assms by simp
  ultimately have "unat w * 256 + unat b < 18446744073709551616" by linarith
  then have s: "unat (w * 256) + unat (ucast b :: u64) < 2 ^ LENGTH(64)" unfolding b m by simp
  show ?thesis unfolding shift_or unfolding p unat_add_lem [THEN iffD1, OF s] b m ..
qed

lemma fold_shift_or:
  "unat w * 256 ^ length bs + be_nat bs < 2 ^ 64 \<Longrightarrow>
     unat (fold (\<lambda>b limb. push_bit 8 limb OR ucast b) bs w) = unat (w :: u64) * 256 ^ length bs + be_nat bs"
proof (induction bs arbitrary: w)
  case (Cons b bs)
  have be: "be_nat (b # bs) = unat b * 256 ^ length bs + be_nat bs"
    using be_nat_append [of "[b]" bs] by simp
  have "unat w * 256 * 1 \<le> unat w * 256 * 256 ^ length bs" by (intro mult_le_mono2) simp
  moreover have "unat w * 256 * 256 ^ length bs = unat w * 256 ^ length (b # bs)" by simp
  ultimately have "unat w * 256 < 2 ^ 64" using Cons.prems by linarith
  then have w: "unat w < 2 ^ 56" by simp
  have "unat (push_bit 8 w OR ucast b) * 256 ^ length bs + be_nat bs < 2 ^ 64"
    using Cons.prems unfolding unat_shift_or [OF w] be by (simp add: algebra_simps)
  then show ?case
    using Cons.IH [of "push_bit 8 w OR ucast b"] unfolding be by (simp add: unat_shift_or [OF w] algebra_simps)
qed simp

lemma limbs_chunks:
  "\<forall>c \<in> set cs. length c = 8 \<Longrightarrow>
     natural_of_limbs (map (\<lambda>c. of_nat (be_nat c)) (rev cs) @ [r]) = be_nat (concat cs) + 256 ^ (8 * length cs) * unat r"
proof (induction cs arbitrary: r rule: rev_induct)
  case (snoc c cs)
  have c: "be_nat c < 2 ^ 64" using be_nat_less [of c] snoc.prems by simp
  have "natural_of_limbs (map (\<lambda>c. of_nat (be_nat c)) (rev (cs @ [c])) @ [r]) =
      be_nat c + 2 ^ 64 * natural_of_limbs (map (\<lambda>c. of_nat (be_nat c)) (rev cs) @ [r])"
    using c by (simp add: natural_of_limbs_def unat_of_nat)
  also have "\<dots> = be_nat c + 256 ^ 8 * (be_nat (concat cs) + 256 ^ (8 * length cs) * unat r)"
    using snoc by simp
  also have "\<dots> = be_nat (concat (cs @ [c])) + 256 ^ (8 * length (cs @ [c])) * unat r"
    using snoc.prems by (simp add: be_nat_append algebra_simps power_add)
  finally show ?case .
qed (simp add: natural_of_limbs_def)

lemma length_concat_const: "\<forall>c \<in> set cs. length c = n \<Longrightarrow> length (concat cs) = n * length cs"
  by (induction cs) auto

lemma multiple_8_rest: "n = 8 * a + b \<Longrightarrow> b < 8 \<Longrightarrow> n mod 8 = 0 \<Longrightarrow> b = (0 :: nat)"
  by presburger

lemma natural_from_bytes: "natural_from_bytes_be bs = be_nat bs"
proof -
  define r where "r = take (length bs mod 8) bs"
  define m where "m = drop (length bs mod 8) bs"
  have l: "length m mod 8 = 0" by (simp add: minus_mod_eq_mult_div m_def)
  let ?cs = "fst (as_chunks 8 m)"
  have len: "\<forall>c \<in> set ?cs. length c = 8" "length (snd (as_chunks 8 m)) < 8"
    using as_chunks_length [of 8 m] by simp_all
  have sum: "length (concat ?cs) = 8 * length ?cs"
    using len(1) by (rule length_concat_const)
  have "length m = length (concat ?cs @ snd (as_chunks 8 m))" by (simp only: concat_as_chunks)
  then have "length m = 8 * length ?cs + length (snd (as_chunks 8 m))" by (simp only: length_append sum)
  from multiple_8_rest [OF this len(2) l] have "snd (as_chunks 8 m) = []" by (simp only: length_0_conv)
  then have mc: "concat ?cs = m" using concat_as_chunks [of 8 m] by simp
  have rv: "unat (fold (\<lambda>b limb. push_bit 8 limb OR ucast b) r (0 :: u64)) = be_nat r"
  proof -
    have "length r \<le> 8" by (simp add: r_def)
    then have "256 ^ length r \<le> (256 :: nat) ^ 8" by (intro power_increasing) simp_all
    with be_nat_less [of r] have "be_nat r < 256 ^ 8" by (rule less_le_trans)
    then show ?thesis using fold_shift_or [of 0 r] by simp
  qed
  have "natural_from_bytes_be bs = be_nat (concat ?cs) + 256 ^ (8 * length ?cs) * be_nat r"
    unfolding natural_from_bytes_be_def Let_def LIMB_SIZE_def r_def [symmetric] m_def [symmetric]
      limbs_chunks [OF len(1)] rv ..
  also have "\<dots> = be_nat (r @ m)" using sum unfolding mc be_nat_append by simp
  finally show ?thesis by (simp add: r_def m_def)
qed

section \<open>Decryption in place\<close>

text \<open>What a block decrypts to, and when it can be.\<close>

definition reduced :: "rsa_key \<Rightarrow> bytes \<Rightarrow> bool" where
  "reduced k c \<longleftrightarrow> be_nat c < rsa_n k"

definition plain_block :: "rsa_key \<Rightarrow> bytes \<Rightarrow> bytes" where
  "plain_block k c = nat_be (out_block_len k) (be_nat c ^ rsa_e k mod rsa_n k)"

lemma length_plain_block [simp]: "length (plain_block k c) = out_block_len k"
  by (simp add: plain_block_def)

lemma decrypt_block_in_eq:
  "decrypt_block_in k c (out_block_len k) =
     (if length c \<noteq> in_block_len k then Err (Size (in_block_len k))
      else if reduced k c then Ok (plain_block k c) else Err Base)"
  by (simp add: decrypt_block_in_def natural_from_bytes natural_to_bytes reduced_def plain_block_def Let_def not_le)

lemma in_place_step:
  assumes "length c = in_block_len k" "0 < in_block_len k" "length pre = p" "length dn + out_block_len k \<le> p + in_block_len k"
    and "length dn \<le> p" "take (length dn) pre = dn"
  shows "in_place_loop k (p + in_block_len k) (length dn + out_block_len k) (pre @ c @ rest) =
    (if reduced k c
     then in_place_loop k (p + in_block_len k + in_block_len k) (length dn + out_block_len k + out_block_len k)
       (dn @ plain_block k c @ drop (length dn + out_block_len k) (pre @ c @ rest))
     else Err Base)"
proof -
  have len: "length (pre @ c @ rest) = p + in_block_len k + length rest" using assms(1,3) by simp
  have sl: "slice (p + in_block_len k - in_block_len k) (p + in_block_len k) (pre @ c @ rest) = c"
    using assms(1,3) by (simp add: slice_def)
  have tk: "take (length dn + out_block_len k - out_block_len k) (pre @ c @ rest) = dn"
    using assms(3,5,6) by simp
  have k: "rsa_len k \<noteq> 0" using assms(2) by (simp add: in_block_len_def)
  have g: "\<not> length (pre @ c @ rest) < p + in_block_len k"
    "\<not> (length (pre @ c @ rest) < length dn + out_block_len k \<or> length dn + out_block_len k < out_block_len k)"
    unfolding len using assms(4) by simp_all
  show ?thesis
    apply (subst in_place_loop.simps)
    unfolding if_not_P [OF k] if_not_P [OF g(1)] if_not_P [OF g(2)] sl tk Let_def natural_from_bytes natural_to_bytes
    by (simp add: reduced_def plain_block_def not_le)
qed

lemma in_place_blocks:
  assumes "0 < in_block_len k" "\<forall>c \<in> set cs. length c = in_block_len k"
    and "length pre = p" "length dn \<le> p" "take (length dn) pre = dn"
  shows "if \<forall>c \<in> set cs. reduced k c
    then \<exists>junk. in_place_loop k (p + in_block_len k) (length dn + out_block_len k) (pre @ concat cs) =
      Ok (length dn + length cs * out_block_len k, dn @ concat (map (plain_block k) cs) @ junk)
    else in_place_loop k (p + in_block_len k) (length dn + out_block_len k) (pre @ concat cs) = Err Base"
  using assms(2-5)
proof (induction cs arbitrary: pre p dn)
  case Nil
  have "in_place_loop k (p + in_block_len k) (length dn + out_block_len k) pre = Ok (length dn, pre)"
    using assms(1) Nil by (subst in_place_loop.simps) (simp add: in_block_len_def)
  moreover have "pre = dn @ drop (length dn) pre" using Nil.prems(4) by (metis append_take_drop_id)
  ultimately show ?case by auto
next
  case (Cons c cs)
  have c: "length c = in_block_len k" using Cons.prems by simp
  have ol: "out_block_len k \<le> in_block_len k" by (simp add: out_block_len_def in_block_len_def)
  have le: "length dn + out_block_len k \<le> p + in_block_len k" using Cons.prems(3) ol by simp
  note step = in_place_step [OF c assms(1) Cons.prems(2) le Cons.prems(3,4), of "concat cs"]
  show ?case
  proof (cases "reduced k c")
    case False
    then show ?thesis using step by auto
  next
    case True
    let ?dn = "dn @ plain_block k c" and ?pre = "dn @ plain_block k c @ drop (length dn + out_block_len k) (pre @ c)"
    have pre: "length ?pre = p + in_block_len k" "take (length ?dn) ?pre = ?dn" "length ?dn \<le> p + in_block_len k"
      using c Cons.prems(2) le by simp_all
    have "drop (length dn + out_block_len k) (pre @ c @ concat cs) =
        drop (length dn + out_block_len k) (pre @ c) @ concat cs"
      using c Cons.prems(2) le by simp
    then have eq: "in_place_loop k (p + in_block_len k) (length dn + out_block_len k) (pre @ concat (c # cs)) =
        in_place_loop k (p + in_block_len k + in_block_len k) (length ?dn + out_block_len k) (?pre @ concat cs)"
      using step True by simp
    have "\<forall>c \<in> set cs. length c = in_block_len k" using Cons.prems(1) by simp
    note IH = Cons.IH [OF this pre(1,3,2)]
    have all: "(\<forall>c \<in> set (c # cs). reduced k c) \<longleftrightarrow> (\<forall>c \<in> set cs. reduced k c)" using True by simp
    show ?thesis
    proof (cases "\<forall>c \<in> set cs. reduced k c")
      case ok: True
      have "length ?dn + length cs * out_block_len k = length dn + length (c # cs) * out_block_len k" by simp
      then show ?thesis unfolding all eq if_P [OF ok] using IH [unfolded if_P [OF ok]] by (simp add: add.assoc)
    next
      case bad: False
      show ?thesis unfolding all eq if_not_P [OF bad] using IH [unfolded if_not_P [OF bad]] .
    qed
  qed
qed

lemma decrypt_in_place:
  assumes "0 < rsa_len k"
  shows "decrypt_blocks_in_place k bs =
     (if length bs mod in_block_len k \<noteq> 0 then Err (Size (in_block_len k))
      else if \<exists>c \<in> set (fst (as_chunks (in_block_len k) bs)). \<not> reduced k c then Err Base
      else decrypt_blocks_in_place k bs) \<and>
    (length bs mod in_block_len k = 0 \<longrightarrow> (\<forall>c \<in> set (fst (as_chunks (in_block_len k) bs)). reduced k c) \<longrightarrow>
      (\<exists>junk. decrypt_blocks_in_place k bs =
         Ok (length (fst (as_chunks (in_block_len k) bs)) * out_block_len k,
             concat (map (plain_block k) (fst (as_chunks (in_block_len k) bs))) @ junk)))"
proof (cases "length bs mod in_block_len k = 0")
  case True
  let ?L = "in_block_len k" and ?cs = "fst (as_chunks (in_block_len k) bs)"
  have L: "0 < ?L" using assms by (simp add: in_block_len_def)
  note len = as_chunks_length [OF L, of bs]
  have "length bs = length (concat ?cs @ snd (as_chunks ?L bs))" by (simp only: concat_as_chunks)
  also have "\<dots> = ?L * length ?cs + length (snd (as_chunks ?L bs))"
    using len length_concat_const [of ?cs ?L] by simp
  finally have "length (snd (as_chunks ?L bs)) = 0"
    using True len by (metis mod_less mod_mult_self4 add.commute mult.commute)
  then have bs: "concat ?cs = bs" using concat_as_chunks [of ?L bs] by simp
  have eq: "decrypt_blocks_in_place k bs =
      in_place_loop k (0 + ?L) (length ([] :: bytes) + out_block_len k) ([] @ concat ?cs)"
    using True bs by (simp add: decrypt_blocks_in_place_def)
  have "if \<forall>c \<in> set ?cs. reduced k c
    then \<exists>junk. in_place_loop k (0 + ?L) (length ([] :: bytes) + out_block_len k) ([] @ concat ?cs) =
      Ok (length ([] :: bytes) + length ?cs * out_block_len k, [] @ concat (map (plain_block k) ?cs) @ junk)
    else in_place_loop k (0 + ?L) (length ([] :: bytes) + out_block_len k) ([] @ concat ?cs) = Err Base"
    using L len by (intro in_place_blocks) simp_all
  then show ?thesis using True unfolding eq by (auto split: if_splits)
qed (simp add: decrypt_blocks_in_place_def)

section \<open>Streaming is decryption\<close>

text \<open>The plaintext a reader still has to give, when the underlying reader returns whole blocks.\<close>

definition reader_ok :: "rsa_key \<Rightarrow> rsa_decryptor \<Rightarrow> bool" where
  "reader_ok k d \<longleftrightarrow> 0 < in_block_len k \<and> rd_buf d = [] \<and>
     (\<forall>c \<in> set (rd_chunks d). length c = in_block_len k \<and> reduced k c)"

definition pending :: "rsa_key \<Rightarrow> rsa_decryptor \<Rightarrow> bytes" where
  "pending k d = drop (out_pos d) (out_buf d) @ concat (map (plain_block k) (rd_chunks d))"

definition read_spec :: "rsa_key \<Rightarrow> nat \<Rightarrow> rsa_decryptor \<Rightarrow> bool" where
  "read_spec k n d \<longleftrightarrow>
     (if n \<le> length (pending k d)
      then \<exists>d'. rsa_read k n d = Ok (take n (pending k d), d') \<and> reader_ok k d' \<and>
             pending k d' = drop n (pending k d)
      else rsa_read k n d = Err (Size (in_block_len k)))"

lemma read_copy:
  assumes "n \<noteq> 0" "drop (out_pos d) (out_buf d) = o1" "o1 \<noteq> []"
    and "read_spec k (n - min n (length o1)) (d\<lparr>out_pos := out_pos d + min n (length o1)\<rparr>)"
  shows "read_spec k n d"
proof -
  let ?amt = "min n (length o1)" and ?d = "d\<lparr>out_pos := out_pos d + min n (length o1)\<rparr>"
  have x: "drop (out_pos d + ?amt) (out_buf d) = drop ?amt o1"
    unfolding assms(2) [symmetric] by (simp add: add.commute)
  have p: "pending k ?d = drop ?amt (pending k d)"
    by (simp add: pending_def assms(2) x)
  have t: "take ?amt o1 = take ?amt (pending k d)" using assms(2) by (simp add: pending_def)
  have a: "?amt \<le> length (pending k d)" using assms(2) by (simp add: pending_def)
  have r: "rsa_read k n d = obind (rsa_read k (n - ?amt) ?d) (\<lambda>(bs, d). Ok (take ?amt o1 @ bs, d))"
    using assms(1,3) by (subst rsa_read.simps) (simp add: assms(2) Let_def)
  have c: "n - ?amt \<le> length (pending k ?d) \<longleftrightarrow> n \<le> length (pending k d)"
    using a unfolding p length_drop by linarith
  have tt: "take ?amt (pending k d) @ take (n - ?amt) (drop ?amt (pending k d)) = take n (pending k d)"
    using take_add [of ?amt "n - ?amt" "pending k d"] by simp
  have dd: "drop (n - ?amt) (drop ?amt (pending k d)) = drop n (pending k d)" by simp
  show ?thesis
  proof (cases "n \<le> length (pending k d)")
    case True
    then obtain d' where d': "rsa_read k (n - ?amt) ?d = Ok (take (n - ?amt) (pending k ?d), d')"
      "reader_ok k d'" "pending k d' = drop (n - ?amt) (pending k ?d)"
      using assms(4) [unfolded read_spec_def c] by auto
    have "rsa_read k n d = Ok (take n (pending k d), d')"
      unfolding r d'(1) obind.simps prod.case p t tt by (rule refl)
    moreover have "pending k d' = drop n (pending k d)" unfolding d'(3) p by (rule dd)
    ultimately show ?thesis using True d'(2) by (simp add: read_spec_def)
  next
    case False
    then have "rsa_read k (n - ?amt) ?d = Err (Size (in_block_len k))"
      using assms(4) [unfolded read_spec_def c] by simp
    then show ?thesis using False r by (simp add: read_spec_def)
  qed
qed

lemma read_block:
  assumes ok: "reader_ok k d" and n: "n \<noteq> 0" "drop (out_pos d) (out_buf d) = []"
    and "rd_chunks d = c # cs"
    and "out_block_len k \<le> n \<Longrightarrow> read_spec k (n - out_block_len k) (d\<lparr>rd_chunks := cs\<rparr>)"
    and "n < out_block_len k \<Longrightarrow> read_spec k n (d\<lparr>rd_chunks := cs, out_buf := plain_block k c, out_pos := 0\<rparr>)"
  shows "read_spec k n d"
proof -
  have c: "length c = in_block_len k" "reduced k c" "0 < in_block_len k" "rd_buf d = []"
    using ok assms(4) by (auto simp: reader_ok_def)
  have f: "fill_buf d = d\<lparr>rd_buf := c, rd_chunks := cs\<rparr>" using assms(4) c by (simp add: fill_buf_def)
  have upd: "d\<lparr>rd_chunks := cs, rd_buf := []\<rparr> = d\<lparr>rd_chunks := cs\<rparr>" using c(4) by (cases d) simp
  have pend: "pending k d = plain_block k c @ pending k (d\<lparr>rd_chunks := cs\<rparr>)"
    using n(2) assms(4) by (simp add: pending_def)
  show ?thesis
  proof (cases "out_block_len k \<le> n")
    case True
    have "rsa_read k n d = obind (rsa_read k (n - out_block_len k) (d\<lparr>rd_chunks := cs\<rparr>))
        (\<lambda>(bs, d). Ok (plain_block k c @ bs, d))"
      using n c True by (subst rsa_read.simps) (simp add: Let_def f decrypt_block_in_eq upd)
    with assms(5) [OF True] True show ?thesis
      by (auto simp: read_spec_def pend)
  next
    case False
    have r: "rsa_read k n d = rsa_read k n (d\<lparr>rd_chunks := cs, out_buf := plain_block k c, out_pos := 0\<rparr>)"
      using n c False by (subst rsa_read.simps) (simp add: Let_def f decrypt_block_in_eq upd)
    have p: "pending k (d\<lparr>rd_chunks := cs, out_buf := plain_block k c, out_pos := 0\<rparr>) = pending k d"
      using pend n(2) by (simp add: pending_def)
    have "n < out_block_len k" using False by simp
    from assms(6) [OF this] show ?thesis unfolding read_spec_def r p .
  qed
qed

lemma rsa_read_refines: "reader_ok k d \<Longrightarrow> read_spec k n d"
proof (induction "length (concat (rd_chunks d))" arbitrary: d n rule: less_induct)
  case less
  have L: "0 < in_block_len k" using less.prems by (simp add: reader_ok_def)
  have empty: "read_spec k n d" if ok: "reader_ok k d" and e: "drop (out_pos d) (out_buf d) = []"
    and same: "rd_chunks d = rd_chunks d0" and IH: "\<And>d' n. length (concat (rd_chunks d')) < length (concat (rd_chunks d0)) \<Longrightarrow>
      reader_ok k d' \<Longrightarrow> read_spec k n d'" for n d d0
  proof (cases "n = 0")
    case True
    then show ?thesis using ok by (simp add: read_spec_def rsa_read.simps)
  next
    case n: False
    show ?thesis
    proof (cases "rd_chunks d")
      case Nil
      then have "rsa_read k n d = Err (Size (in_block_len k))"
        using n e ok L by (subst rsa_read.simps) (simp add: Let_def fill_buf_def reader_ok_def)
      then show ?thesis using Nil e n by (simp add: read_spec_def pending_def)
    next
      case (Cons c cs)
      have c: "length c = in_block_len k" using ok Cons by (simp add: reader_ok_def)
      have lt: "length (concat cs) < length (concat (rd_chunks d0))" using Cons c L same by simp
      show ?thesis
      proof (rule read_block [OF ok n e Cons])
        show "read_spec k (n - out_block_len k) (d\<lparr>rd_chunks := cs\<rparr>)"
          using lt ok Cons by (intro IH) (simp_all add: reader_ok_def)
        show "read_spec k n (d\<lparr>rd_chunks := cs, out_buf := plain_block k c, out_pos := 0\<rparr>)"
          using lt ok Cons by (intro IH) (simp_all add: reader_ok_def)
      qed
    qed
  qed
  show ?case
  proof (cases "n = 0 \<or> drop (out_pos d) (out_buf d) = []")
    case True
    then show ?thesis
      using empty [OF less.prems _ refl less.hyps] less.prems
      by (auto simp: read_spec_def rsa_read.simps [of k 0])
  next
    case False
    let ?o1 = "drop (out_pos d) (out_buf d)"
    let ?d = "d\<lparr>out_pos := out_pos d + min n (length ?o1)\<rparr>"
    have ok: "reader_ok k ?d" using less.prems by (simp add: reader_ok_def)
    have "read_spec k (n - min n (length ?o1)) ?d"
    proof (cases "n \<le> length ?o1")
      case True
      then show ?thesis using ok by (simp add: read_spec_def rsa_read.simps [of k 0])
    next
      case False
      then have e: "drop (out_pos ?d) (out_buf ?d) = []" by simp
      show ?thesis
      proof (rule empty [OF ok e])
        show "rd_chunks ?d = rd_chunks d" by simp
      qed (rule less.hyps)
    qed
    moreover have "n \<noteq> 0" using False by simp
    moreover have "?o1 \<noteq> []" using False by simp
    ultimately show ?thesis using read_copy [OF _ refl] by blast
  qed
qed

lemma as_chunks_concat:
  "0 < n \<Longrightarrow> \<forall>c \<in> set cs. length c = n \<Longrightarrow> as_chunks n (concat cs) = (cs, [])"
  by (induction cs) (simp_all add: as_chunks_short as_chunks_step)

lemma rsa_read_to_end_pending:
  assumes "reader_ok k d"
  shows "\<exists>d'. rsa_read_to_end k buf d = Ok (length (pending k d), buf @ pending k d, d')"
proof -
  let ?cs = "rd_chunks d"
  have L: "0 < in_block_len k" and len: "\<forall>c \<in> set ?cs. length c = in_block_len k"
    and red: "\<forall>c \<in> set ?cs. reduced k c" and e: "rd_buf d = []"
    using assms by (simp_all add: reader_ok_def)
  have all: "takeWhile (\<lambda>c. c \<noteq> []) ?cs = ?cs" using L len by (auto simp: takeWhile_eq_all_conv)
  note cs = as_chunks_concat [OF L len]
  have m: "length (concat ?cs) mod in_block_len k = 0"
    using length_concat_const [OF len] by simp
  have k: "0 < rsa_len k" using L by (simp add: in_block_len_def)
  obtain junk where "decrypt_blocks_in_place k (concat ?cs) =
      Ok (length ?cs * out_block_len k, concat (map (plain_block k) ?cs) @ junk)"
    using decrypt_in_place [OF k, of "concat ?cs"] m red unfolding cs by auto
  moreover have "length (concat (map (plain_block k) ?cs)) = length ?cs * out_block_len k"
    using length_concat_const [of "map (plain_block k) ?cs" "out_block_len k"] by (simp add: mult.commute)
  ultimately show ?thesis
    unfolding rsa_read_to_end_def Let_def all by (simp add: e pending_def)
qed

section \<open>Properties\<close>

text \<open>The limb-wise conversions are base 256: bytes to a natural and back is the identity, and a
  natural written to fewer bytes than it needs loses exactly its high bytes.\<close>

theorem natural_bytes_round_trip:
  "natural_to_bytes_be_in (natural_from_bytes_be bs) (length bs) = bs \<and>
    natural_from_bytes_be (natural_to_bytes_be_in n len) = n mod 256 ^ len"
  by (simp add: natural_from_bytes natural_to_bytes byte_simps)

text \<open>Decrypting in place is decrypting block by block: although the shorter output overwrites
  the input from the front, no block is overwritten before it is read; a length that is no
  multiple of the block size and a block that is not reduced are errors.\<close>

theorem decrypt_in_place_correct:
  assumes "0 < rsa_len k"
  shows "(length bs mod in_block_len k \<noteq> 0 \<longrightarrow>
      decrypt_blocks_in_place k bs = Err (Size (in_block_len k))) \<and>
    (length bs mod in_block_len k = 0 \<longrightarrow>
      (if \<forall>c \<in> set (fst (as_chunks (in_block_len k) bs)). reduced k c
       then \<exists>junk. decrypt_blocks_in_place k bs =
         Ok (length (fst (as_chunks (in_block_len k) bs)) * out_block_len k,
             concat (map (plain_block k) (fst (as_chunks (in_block_len k) bs))) @ junk)
       else decrypt_blocks_in_place k bs = Err Base))"
  using decrypt_in_place [OF assms, of bs] by (auto split: if_splits)

theorem decrypt_in_place_correct_witness:
  "\<exists>junk. decrypt_blocks_in_place \<lparr>rsa_n = 300, rsa_e = 2, rsa_len = 2\<rparr> [0, 2, 0, 9] = Ok (2, [4, 81] @ junk)"
proof -
  let ?k = "\<lparr>rsa_n = 300, rsa_e = 2, rsa_len = 2\<rparr>"
  have c: "as_chunks (in_block_len ?k) [0, 2, 0, 9 :: u8] = ([[0, 2], [0, 9]], [])"
    by (simp add: in_block_len_def as_chunks.simps)
  have r: "reduced ?k [0, 2]" "reduced ?k [0, 9]"
    by (simp_all add: reduced_def be_nat_def)
  have p: "plain_block ?k [0, 2] = [4]" "plain_block ?k [0, 9] = [81]"
    by (simp_all add: plain_block_def be_nat_def nat_be_def out_block_len_def)
  show ?thesis
    using decrypt_in_place_correct [of ?k "[0, 2, 0, 9]"] unfolding c
    by (simp add: r p in_block_len_def out_block_len_def flip: numeral_2_eq_2)
qed

text \<open>C28: reading from the decrypting reader, in pieces of any sizes, gives the plaintext of the
  blocks without gap or repetition; a read that asks for more than is left fails with the
  block-size error, also at the end of the input, and does not return the rest. Reading to the
  end gives the whole rest.\<close>

theorem reader_streams_plaintext:
  assumes "reader_ok k d"
  shows "(if n \<le> length (pending k d)
     then \<exists>d'. rsa_read k n d = Ok (take n (pending k d), d') \<and> reader_ok k d' \<and>
       pending k d' = drop n (pending k d)
     else rsa_read k n d = Err (Size (in_block_len k))) \<and>
    (\<exists>d'. rsa_read_to_end k buf d = Ok (length (pending k d), buf @ pending k d, d'))"
  using rsa_read_refines [OF assms] rsa_read_to_end_pending [OF assms] by (simp add: read_spec_def)

theorem reader_streams_plaintext_witness:
  "\<exists>d'. rsa_read \<lparr>rsa_n = 300, rsa_e = 2, rsa_len = 2\<rparr> 1
      (rsa_decryptor_new \<lparr>rsa_n = 300, rsa_e = 2, rsa_len = 2\<rparr> [[0, 9]]) = Ok ([81], d')"
proof -
  let ?k = "\<lparr>rsa_n = 300, rsa_e = 2, rsa_len = 2\<rparr>"
  have p: "plain_block ?k [0, 9] = [81]"
    by (simp add: plain_block_def be_nat_def nat_be_def out_block_len_def)
  have ok: "reader_ok ?k (rsa_decryptor_new ?k [[0, 9]])"
    by (simp add: reader_ok_def rsa_decryptor_new_def in_block_len_def reduced_def be_nat_def)
  have "pending ?k (rsa_decryptor_new ?k [[0, 9]]) = [81]"
    by (simp add: pending_def rsa_decryptor_new_def p)
  with reader_streams_plaintext [OF ok, of 1] show ?thesis by auto
qed

end
