(* ===== verification/ReadOnly.thy ===== *)
theory ReadOnly
  imports Mount
begin

text \<open>
  The interface \<open>ReadOnlyFilesystem\<close> (\<open>src/filesystem.rs\<close>), on which the two drivers
  (\<open>src/dvdbnd/mount/fuser.rs\<close> and \<open>src/dvdbnd/mount/projfs.rs\<close>) are written: entries by
  inode, the iterator of a directory, and lookups by path. What the drivers rely on is that a
  well-formed filesystem answers every request, and that the iterator of an entry it gave out
  runs to its end. The frozen filesystem provides it.
\<close>

locale read_only_filesystem =
  fixes wf :: "'fs \<Rightarrow> bool"
    and get_entry :: "'fs \<Rightarrow> u64 \<Rightarrow> 'a entry rofs_result"
    and iter_next :: "'fs \<Rightarrow> nat \<Rightarrow> 'a entry rofs_result"
    and find_in_dir :: "(bytes list \<Rightarrow> bytes \<Rightarrow> nat option) \<Rightarrow> 'fs \<Rightarrow> u64 \<Rightarrow> string \<Rightarrow> u64 rofs_result"
  assumes entry_total: "wf fs \<Longrightarrow> get_entry fs ino \<noteq> Panic"
    and find_total: "wf fs \<Longrightarrow> find_in_dir esearch fs ino path \<noteq> Panic"
    and iter_total: "wf fs \<Longrightarrow> get_entry fs ino = Ok e \<Longrightarrow> kind e = EDir is \<Longrightarrow> i \<in> set is \<Longrightarrow>
      \<exists>e'. iter_next fs i = Ok e'"
begin

lemma entry_cases:
  assumes "wf fs"
  obtains (found) e where "get_entry fs ino = Ok e" | (missing) x where "get_entry fs ino = Err x"
  using entry_total [OF assms, of ino] by (cases "get_entry fs ino") auto

text \<open>All entries of a directory, in the order of its iterator.\<close>

definition all_entries :: "'fs \<Rightarrow> nat list \<Rightarrow> 'a entry list" where
  "all_entries fs is = map (\<lambda>i. case iter_next fs i of Ok e \<Rightarrow> e) is"

lemma iter_all:
  "wf fs \<Longrightarrow> get_entry fs ino = Ok e \<Longrightarrow> kind e = EDir is \<Longrightarrow>
     \<forall>i \<in> set is. iter_next fs i = Ok (case iter_next fs i of Ok e \<Rightarrow> e)"
  using iter_total by fastforce

end

section \<open>The frozen filesystem provides it\<close>

lemma rofs_iter_total:
  assumes "rofs_wf fs" "rofs_entry fs ino = Ok e" "kind e = EDir is" "i \<in> set is"
  shows "i < length (nodes fs) \<and> (\<exists>e'. node_entry fs i = Ok e')"
proof -
  let ?j = "unat (ino - INODE_ROOT)"
  have j: "?j < length (nodes fs)" "node_entry fs ?j = Ok e"
    using assms(2) by (auto simp: rofs_entry_def Let_def nth_opt_def split: if_splits)
  then obtain s k where c: "content (nodes fs ! ?j) = NDir s k" "is = [s..<s + k]"
    using assms(3) node_entry_ok [OF assms(1) j(1)] by (auto split: node_content.splits)
  have "nodes fs ! ?j \<in> set (nodes fs)" using j(1) by simp
  then have "s + k \<le> length (nodes fs)" using assms(1) c(1) by (auto simp: rofs_wf_def node_wf_def)
  then have "i < length (nodes fs)" using assms(4) c(2) by simp
  then show ?thesis using node_entry_ok [OF assms(1)] by blast
qed

interpretation rofs: read_only_filesystem rofs_wf rofs_entry node_entry
  "\<lambda>esearch fs. lookup_in_dir DvdbndConfig_SEPARATORS esearch fs"
  by unfold_locales (use rofs_entry_no_panic lookup_in_dir_no_panic rofs_iter_total in blast)+

lemma dir_entries_all: "\<forall>i \<in> set is. \<exists>e. node_entry fs i = Ok e \<Longrightarrow> dir_entries fs is = Ok (rofs.all_entries fs is)"
  by (induction "is") (auto simp: rofs.all_entries_def)

section \<open>What a read promises the drivers\<close>

text \<open>The plaintext of a file and its encrypted ranges: the bytes in the archive and none, or what its
  key and ranges decrypt them to.\<close>

definition plaintext_of :: "(bytes \<Rightarrow> bytes \<Rightarrow> bytes) \<Rightarrow> mount \<Rightarrow> dvdbnd_file \<Rightarrow> bytes \<Rightarrow> srange list \<Rightarrow> bytes \<Rightarrow> bool" where
  "plaintext_of decrypt_block m file data rs pt \<longleftrightarrow>
     (case file_encryption_id file of
        None \<Rightarrow> rs = [] \<and> pt = archive_bytes file data
      | Some eid \<Rightarrow> \<exists>store fd. encryption_store (m_fs m) (file_src_id file) = Some store \<and>
          decrypts (store_decrypt decrypt_block store eid) fd rs \<and> block_ok fd \<and>
          ranges_ok rs (unat (f_len file)) \<and> 0 < f_len file \<and> pt = decrypted fd rs (archive_bytes file data))"

lemma read_file_plaintext:
  assumes "file_entry_of m i = Ok file" "bdt_open open_file (m_bdts m) file mp = Ok (bdt, mp')"
    and "archive_ok bdt data file" "plaintext_of decrypt_block m file data rs pt"
    and "whole_blocks rs (req_start file offset) (req_stop file offset len)"
  shows "\<exists>ps. read_file decrypt_block open_file m i offset len f mp s = deliver f ps s \<and>
    consecutive pt (req_start file offset) ps \<and>
    concat (map fst ps) = slice (req_start file offset) (req_stop file offset len) pt"
proof (cases "file_encryption_id file")
  case None
  then have pt: "pt = archive_bytes file data" using assms(4) by (simp add: plaintext_of_def)
  show ?thesis unfolding pt by (rule read_plain_file [OF assms(1-3) None])
next
  case (Some eid)
  then obtain store fd where "encryption_store (m_fs m) (file_src_id file) = Some store"
    "decrypts (store_decrypt decrypt_block store eid) fd rs" "block_ok fd"
    "ranges_ok rs (unat (f_len file))" "0 < f_len file"
    and pt: "pt = decrypted fd rs (archive_bytes file data)"
    using assms(4) by (auto simp: plaintext_of_def)
  from read_encrypted_file [OF assms(1-3) Some this(1-4) assms(5) this(5)]
  show ?thesis unfolding pt .
qed

section \<open>A concrete mount\<close>

definition sample_plain_file :: dvdbnd_file where
  "sample_plain_file =
     \<lparr>data_offset = 2, f_len = 6, f_unpadded_len = 5, file_src_id = [7], file_encryption_id = None\<rparr>"

definition sample_served :: mount where
  "sample_served = \<lparr>m_fs = \<lparr>inner_fs = \<lparr>nodes = [node_dir 1 2 0, node_file 0 1, node_file 0 3],
       rofs_files = [sample_plain_file], names = [0, 1, 97, 1, 98]\<rparr>, encryption_stores = []\<rparr>,
     m_bdts = [([7], ''data.bdt'')]\<rparr>"

lemma sample_served_wf: "rofs_wf (inner_fs (m_fs sample_served))"
proof -
  have b: "as_bytes [] = []" "as_bytes ''a'' = [97]" "as_bytes ''b'' = [98]" by code_simp+
  have "name_ref [0, 1, 97, 1, 98] 0 []" "name_ref [0, 1, 97, 1, 98] 1 ''a''" "name_ref [0, 1, 97, 1, 98] 3 ''b''"
    by (simp_all add: name_ref_def b)
  then show ?thesis
    by (auto simp: sample_served_def rofs_wf_def node_wf_def node_dir_def node_file_def)
qed

lemma sample_served_nodes:
  "node_entry (inner_fs (m_fs sample_served)) 1 = Ok \<lparr>inode = 0, entry_name = ''a'', kind = EFile sample_plain_file\<rparr>"
  "node_entry (inner_fs (m_fs sample_served)) 2 = Ok \<lparr>inode = 1, entry_name = ''b'', kind = EFile sample_plain_file\<rparr>"
proof -
  have "str_of_bytes [97] = ''a''" "str_of_bytes [98] = ''b''" by code_simp+
  then show "node_entry (inner_fs (m_fs sample_served)) 1 = Ok \<lparr>inode = 0, entry_name = ''a'', kind = EFile sample_plain_file\<rparr>"
    "node_entry (inner_fs (m_fs sample_served)) 2 = Ok \<lparr>inode = 1, entry_name = ''b'', kind = EFile sample_plain_file\<rparr>"
    by (simp_all add: sample_served_def INODE_ROOT_def node_entry_def node_file_def node_dir_def
        node_name_def read_name_def)
qed

lemma sample_served_entries:
  "rofs_entry (inner_fs (m_fs sample_served)) 1 = Ok \<lparr>inode = - 1, entry_name = [], kind = EDir [1, 2]\<rparr>"
  "rofs_entry (inner_fs (m_fs sample_served)) 2 = Ok \<lparr>inode = 0, entry_name = ''a'', kind = EFile sample_plain_file\<rparr>"
proof -
  have "str_of_bytes [] = []" "str_of_bytes [97] = ''a''" by code_simp+
  then show "rofs_entry (inner_fs (m_fs sample_served)) 1 = Ok \<lparr>inode = - 1, entry_name = [], kind = EDir [1, 2]\<rparr>"
    "rofs_entry (inner_fs (m_fs sample_served)) 2 = Ok \<lparr>inode = 0, entry_name = ''a'', kind = EFile sample_plain_file\<rparr>"
    by (simp_all add: sample_served_def rofs_entry_def INODE_ROOT_def node_entry_def node_file_def
        node_dir_def node_name_def read_name_def nth_opt_def upt_rec)
qed

lemma sample_served_lookup:
  "lookup_in_dir DvdbndConfig_SEPARATORS linear_search (inner_fs (m_fs sample_served)) 1 ''a'' = Ok 2"
proof -
  have "normalize_path DvdbndConfig_SEPARATORS ''a'' = ''a''" "components DvdbndConfig_SEPARATORS ''a'' = [''a'']"
    "as_bytes ''a'' = [97]" by code_simp+
  then show ?thesis
    by (simp add: lookup_in_dir_def inode_by_path_ignore_ascii_case_def inode_by_path_def INODE_ROOT_def
        sample_served_def node_file_def node_dir_def nth_opt_def get_range_def node_name_def read_name_def Let_def)
qed

lemma sample_served_root:
  "lookup_in_dir DvdbndConfig_SEPARATORS linear_search (inner_fs (m_fs sample_served)) 1 [] = Ok 1"
proof -
  have "components DvdbndConfig_SEPARATORS (normalize_path DvdbndConfig_SEPARATORS []) = []" by code_simp
  then show ?thesis
    by (simp add: lookup_in_dir_def inode_by_path_ignore_ascii_case_def inode_by_path_def INODE_ROOT_def Let_def)
qed

text \<open>Its data archive.\<close>

definition sample_data :: bytes where
  "sample_data = [1, 2, 3, 4, 5, 6, 7, 8, 9]"

definition sample_bdt :: managed_read where
  "sample_bdt len pos = Ok (Some (slice pos (pos + len) sample_data))"

lemma sample_served_archive:
  "archive_ok sample_bdt sample_data sample_plain_file"
  "bdt_open (\<lambda>_. Ok sample_bdt) (m_bdts sample_served) sample_plain_file [] = Ok (sample_bdt, [(''data.bdt'', sample_bdt)])"
  "plaintext_of (\<lambda>k b. b) sample_served sample_plain_file sample_data [] [3, 4, 5, 6, 7, 8]"
proof -
  have "sample_bdt = (\<lambda>len pos. Ok (Some (slice pos (pos + len) sample_data)))"
    by (intro ext) (simp add: sample_bdt_def)
  then have "reads_file sample_bdt sample_data" using reads_file_slice [of sample_data] by (simp only:)
  then show "archive_ok sample_bdt sample_data sample_plain_file"
    by (simp add: archive_ok_def unpadded_len_def sample_plain_file_def sample_data_def)
  show "bdt_open (\<lambda>_. Ok sample_bdt) (m_bdts sample_served) sample_plain_file [] = Ok (sample_bdt, [(''data.bdt'', sample_bdt)])"
    by (simp add: bdt_open_def sample_served_def sample_plain_file_def)
  show "plaintext_of (\<lambda>k b. b) sample_served sample_plain_file sample_data [] [3, 4, 5, 6, 7, 8]"
    by (simp add: plaintext_of_def sample_plain_file_def archive_bytes_def sample_data_def slice_def)
qed

end
