(* ===== verification/Fuser.thy ===== *)
theory Fuser
  imports ReadOnly
begin

text \<open>
  The FUSE driver (\<open>src/dvdbnd/mount/fuser.rs\<close>): each callback of the kernel is a function
  of the mount and its arguments to a reply, either an error number or the data of the
  successful reply. Names arrive as \<open>Some\<close> UTF-8 string or \<open>None\<close>; the directory buffers of
  the kernel are the list of the entries added so far and a parameter that tells whether the
  next one fits; whether the dispatcher accepts a task is a parameter as well.
\<close>

section \<open>Replies\<close>

datatype errno = ENOSYS | ENOENT | EROFS | ENOTDIR | EIO | ESTALE | ENOTSUP | EACCES

datatype file_type = Directory | RegularFile

datatype acc_mode = O_RDONLY | O_WRONLY | O_RDWR

datatype fopen_flag = FOPEN_NOFLUSH | FOPEN_KEEP_CACHE | FOPEN_CACHE_DIR

record file_attr =
  ino :: u64
  attr_size :: u64
  blocks :: u64
  atime :: nat
  mtime :: nat
  ctime :: nat
  crtime :: nat
  attr_kind :: file_type
  perm :: "16 word"
  nlink :: u32
  uid :: u32
  gid :: u32
  rdev :: u32
  blksize :: u32
  attr_flags :: u32

type_synonym 'a reply = "(errno, 'a) outcome"

definition MAX_NAME :: u32 where "MAX_NAME = 255"
definition BLKSIZE :: u32 where "BLKSIZE = 512"
definition CACHE_TTL :: nat where "CACHE_TTL = 60"

text \<open>The mount with the fields only this driver uses: its time stamp and the sizes of the
  data archives.\<close>

record fuse_mount =
  fm_mount :: mount
  timestamp :: nat
  bdt_sizes :: "(src_id \<times> u64) list"

abbreviation fm_fs :: "fuse_mount \<Rightarrow> dvdbnd_file rofs" where
  "fm_fs fm \<equiv> inner_fs (m_fs (fm_mount fm))"

definition file_type_of :: "'a entry \<Rightarrow> file_type" where
  "file_type_of e = (case kind e of EDir _ \<Rightarrow> Directory | EFile _ \<Rightarrow> RegularFile)"

definition div_ceil :: "'a::len word \<Rightarrow> 'a word \<Rightarrow> 'a word" where
  "div_ceil a b = (if a mod b = 0 then a div b else a div b + 1)"

definition file_attr_of :: "fuse_mount \<Rightarrow> u64 \<Rightarrow> dvdbnd_file entry \<Rightarrow> file_attr" where
  "file_attr_of fm i e =
     (let kind' = file_type_of e;
          (sz, bl) = (case kind e of
             EFile file \<Rightarrow> (let sz = unpadded_len file in (ucast sz, ucast (div_ceil sz BLKSIZE)))
           | EDir _ \<Rightarrow> (0, 0))
      in \<lparr>ino = i, attr_size = sz, blocks = bl, atime = timestamp fm, mtime = timestamp fm,
          ctime = timestamp fm, crtime = timestamp fm, attr_kind = kind', perm = 365, nlink = 1,
          uid = 0, gid = 0, rdev = 0, blksize = BLKSIZE, attr_flags = 0\<rparr>)"

section \<open>Callbacks\<close>

text \<open>\<open>init\<close>: the mount is not yet shared, or \<open>get_mut\<close> fails.\<close>

definition fuse_init :: "bool \<Rightarrow> nat \<Rightarrow> fuse_mount \<Rightarrow> fuse_mount reply" where
  "fuse_init shared now fm = (if shared then Panic else Ok (fm\<lparr>timestamp := now\<rparr>))"

text \<open>\<open>lookup\<close>: the attributes, how long they are valid, and the generation.\<close>

definition fuse_lookup ::
  "(bytes list \<Rightarrow> bytes \<Rightarrow> nat option) \<Rightarrow> fuse_mount \<Rightarrow> u64 \<Rightarrow> string option \<Rightarrow> (nat \<times> file_attr \<times> u64) reply" where
  "fuse_lookup esearch fm parent name =
     (case name of
        None \<Rightarrow> Err ENOSYS
      | Some name \<Rightarrow>
          (case lookup_in_dir DvdbndConfig_SEPARATORS esearch (fm_fs fm) parent name of
             Panic \<Rightarrow> Panic
           | Err _ \<Rightarrow> Err ENOENT
           | Ok i \<Rightarrow>
               (case rofs_entry (fm_fs fm) i of
                  Panic \<Rightarrow> Panic
                | Err _ \<Rightarrow> Err ENOENT
                | Ok e \<Rightarrow> Ok (CACHE_TTL, file_attr_of fm i e, 0))))"

definition fuse_getattr :: "fuse_mount \<Rightarrow> u64 \<Rightarrow> (nat \<times> file_attr) reply" where
  "fuse_getattr fm i =
     (case rofs_entry (fm_fs fm) i of
        Panic \<Rightarrow> Panic
      | Err _ \<Rightarrow> Err ENOENT
      | Ok e \<Rightarrow> Ok (CACHE_TTL, file_attr_of fm i e))"

definition fuse_open :: "fuse_mount \<Rightarrow> u64 \<Rightarrow> acc_mode \<Rightarrow> (u64 \<times> fopen_flag set) reply" where
  "fuse_open fm i mode =
     (if mode = O_RDONLY then Ok (i, {FOPEN_NOFLUSH, FOPEN_KEEP_CACHE}) else Err EROFS)"

definition fuse_opendir :: "fuse_mount \<Rightarrow> u64 \<Rightarrow> acc_mode \<Rightarrow> (u64 \<times> fopen_flag set) reply" where
  "fuse_opendir fm i mode =
     (if mode \<noteq> O_RDONLY then Err EROFS
      else case rofs_entry (fm_fs fm) i of
             Panic \<Rightarrow> Panic
           | Err _ \<Rightarrow> Err ENOENT
           | Ok e \<Rightarrow> (case kind e of
                EDir _ \<Rightarrow> Ok (i, {FOPEN_NOFLUSH, FOPEN_CACHE_DIR})
              | EFile _ \<Rightarrow> Err ENOTDIR))"

text \<open>\<open>read\<close>: the task collects the pieces; it is not run when the dispatcher is gone.\<close>

definition fuse_read ::
  "(bytes \<Rightarrow> bytes \<Rightarrow> bytes) \<Rightarrow> (string \<Rightarrow> managed_read io_result) \<Rightarrow> fuse_mount \<Rightarrow> bool \<Rightarrow> u64 \<Rightarrow> u64 \<Rightarrow> u64 \<Rightarrow>
     u32 \<Rightarrow> bdt_map \<Rightarrow> bytes reply" where
  "fuse_read decrypt_block open_file fm dispatched i fh offset sz mp =
     (if i \<noteq> fh then Err ESTALE
      else case rofs_entry (fm_fs fm) i of
             Panic \<Rightarrow> Panic
           | Err _ \<Rightarrow> Err ESTALE
           | Ok e \<Rightarrow>
               (case kind e of
                  EDir _ \<Rightarrow> Err ESTALE
                | EFile file \<Rightarrow>
                    let file_len = unpadded_len file;
                        offset = ucast (min offset (ucast file_len)) :: u32;
                        len = min (file_len - offset) sz
                    in if \<not> dispatched then Err EIO
                       else case read_file decrypt_block open_file (fm_mount fm) i (ucast offset) len
                                   collect_piece mp [] of
                              Panic \<Rightarrow> Panic
                            | Ok data \<Rightarrow> Ok data
                            | Err _ \<Rightarrow> Err EIO))"

definition fuse_release :: "fuse_mount \<Rightarrow> u64 \<Rightarrow> u64 \<Rightarrow> unit reply" where
  "fuse_release fm i fh =
     (if i \<noteq> fh then Err ESTALE
      else case rofs_entry (fm_fs fm) i of
             Panic \<Rightarrow> Panic
           | Err _ \<Rightarrow> Err ESTALE
           | Ok e \<Rightarrow> (case kind e of EFile _ \<Rightarrow> Ok () | EDir _ \<Rightarrow> Err ESTALE))"

definition fuse_releasedir :: "fuse_mount \<Rightarrow> u64 \<Rightarrow> u64 \<Rightarrow> unit reply" where
  "fuse_releasedir fm i fh =
     (if i \<noteq> fh then Err ESTALE
      else case rofs_entry (fm_fs fm) i of
             Panic \<Rightarrow> Panic
           | Err _ \<Rightarrow> Err ESTALE
           | Ok e \<Rightarrow> (case kind e of EDir _ \<Rightarrow> Ok () | EFile _ \<Rightarrow> Err ESTALE))"

definition fuse_fsync :: "fuse_mount \<Rightarrow> u64 \<Rightarrow> bool \<Rightarrow> unit reply" where
  "fuse_fsync fm i datasync = Ok ()"

definition fuse_fsyncdir :: "fuse_mount \<Rightarrow> u64 \<Rightarrow> bool \<Rightarrow> unit reply" where
  "fuse_fsyncdir fm i datasync = Ok ()"

definition fuse_getxattr :: "fuse_mount \<Rightarrow> u64 \<Rightarrow> string option \<Rightarrow> u32 \<Rightarrow> bytes reply" where
  "fuse_getxattr fm i name sz = Err ENOTSUP"

text \<open>\<open>access\<close>, by whether the mask asks for writing.\<close>

definition fuse_access :: "fuse_mount \<Rightarrow> u64 \<Rightarrow> bool \<Rightarrow> unit reply" where
  "fuse_access fm i w_ok = (if \<not> w_ok then Ok () else Err EACCES)"

section \<open>Directories\<close>

record dirent =
  d_ino :: u64
  d_next :: u64
  d_type :: file_type
  d_name :: string

record dirent_plus =
  p_ino :: u64
  p_next :: u64
  p_name :: string
  p_ttl :: nat
  p_attr :: file_attr
  p_generation :: u64

text \<open>The loop \<open>for (entry, next) in iter.zip(1..).skip(offset)\<close>: the skipped entries are
  stepped over, the others are added until one does not fit.\<close>

fun fill_dir ::
  "(nat \<Rightarrow> 'a entry rofs_result) \<Rightarrow> ('d list \<Rightarrow> 'd \<Rightarrow> bool) \<Rightarrow> ('a entry \<Rightarrow> u64 \<Rightarrow> 'd) \<Rightarrow> nat \<Rightarrow> u64 \<Rightarrow>
     nat list \<Rightarrow> 'd list \<Rightarrow> 'd list reply" where
  "fill_dir nxt fits mk skip next [] added = Ok added"
| "fill_dir nxt fits mk skip next (i # is) added =
     (case nxt i of
        Ok e \<Rightarrow>
          if 0 < skip then fill_dir nxt fits mk (skip - 1) (next + 1) is added
          else let d = mk e next
               in if fits added d then fill_dir nxt fits mk 0 (next + 1) is (added @ [d]) else Ok added
      | _ \<Rightarrow> Panic)"

definition dirent_of :: "'a entry \<Rightarrow> u64 \<Rightarrow> dirent" where
  "dirent_of e next = \<lparr>d_ino = inode e, d_next = next, d_type = file_type_of e, d_name = entry_name e\<rparr>"

definition dirent_plus_of :: "fuse_mount \<Rightarrow> dvdbnd_file entry \<Rightarrow> u64 \<Rightarrow> dirent_plus" where
  "dirent_plus_of fm e next =
     (let i = inode e;
          attr = file_attr_of fm i e
      in \<lparr>p_ino = i, p_next = next, p_name = entry_name e, p_ttl = CACHE_TTL, p_attr = attr,
          p_generation = 0\<rparr>)"

definition fuse_readdir ::
  "(dirent list \<Rightarrow> dirent \<Rightarrow> bool) \<Rightarrow> fuse_mount \<Rightarrow> u64 \<Rightarrow> u64 \<Rightarrow> dirent list reply" where
  "fuse_readdir fits fm i offset =
     (case rofs_entry (fm_fs fm) i of
        Panic \<Rightarrow> Panic
      | Err _ \<Rightarrow> Err ENOENT
      | Ok e \<Rightarrow>
          (case kind e of
             EFile _ \<Rightarrow> Err ENOENT
           | EDir is \<Rightarrow>
               fill_dir (node_entry (fm_fs fm)) fits
                 dirent_of
                 (unat offset) 1 is []))"

definition fuse_readdirplus ::
  "(dirent_plus list \<Rightarrow> dirent_plus \<Rightarrow> bool) \<Rightarrow> fuse_mount \<Rightarrow> u64 \<Rightarrow> u64 \<Rightarrow> dirent_plus list reply" where
  "fuse_readdirplus fits fm i offset =
     (case rofs_entry (fm_fs fm) i of
        Panic \<Rightarrow> Panic
      | Err _ \<Rightarrow> Err ENOENT
      | Ok e \<Rightarrow>
          (case kind e of
             EFile _ \<Rightarrow> Err ENOENT
           | EDir is \<Rightarrow>
               fill_dir (node_entry (fm_fs fm)) fits
                 (dirent_plus_of fm)
                 (unat offset) 1 is []))"

record statfs =
  f_blocks :: u64
  f_bfree :: u64
  f_bavail :: u64
  f_files :: u64
  f_ffree :: u64
  f_bsize :: u32
  f_namelen :: u32
  f_frsize :: u32

definition fuse_statfs :: "fuse_mount \<Rightarrow> u64 \<Rightarrow> statfs reply" where
  "fuse_statfs fm i =
     Ok \<lparr>f_blocks = sum_list (map (\<lambda>(src, sz). div_ceil sz (ucast BLKSIZE)) (bdt_sizes fm)),
         f_bfree = 0, f_bavail = 0, f_files = of_nat (file_count (fm_fs fm)), f_ffree = 0,
         f_bsize = BLKSIZE, f_namelen = MAX_NAME, f_frsize = BLKSIZE\<rparr>"


section \<open>Listing a directory in pages\<close>

text \<open>The entries with the numbers the driver gives them, the entries that fit a buffer, and
  the kernel's loop: it asks again behind the last entry it got until a page is empty.\<close>

fun numbered :: "('a entry \<Rightarrow> u64 \<Rightarrow> 'd) \<Rightarrow> u64 \<Rightarrow> 'a entry list \<Rightarrow> 'd list" where
  "numbered mk next [] = []"
| "numbered mk next (e # es) = mk e next # numbered mk (next + 1) es"

fun fit_prefix :: "('d list \<Rightarrow> 'd \<Rightarrow> bool) \<Rightarrow> 'd list \<Rightarrow> 'd list \<Rightarrow> 'd list" where
  "fit_prefix fits added [] = []"
| "fit_prefix fits added (d # ds) = (if fits added d then d # fit_prefix fits (added @ [d]) ds else [])"

fun read_pages :: "nat \<Rightarrow> (u64 \<Rightarrow> 'd list reply) \<Rightarrow> ('d \<Rightarrow> u64) \<Rightarrow> u64 \<Rightarrow> 'd list option" where
  "read_pages 0 rd next_of offset = None"
| "read_pages (Suc fuel) rd next_of offset =
     (case rd offset of
        Ok [] \<Rightarrow> Some []
      | Ok ds \<Rightarrow> map_option ((@) ds) (read_pages fuel rd next_of (next_of (last ds)))
      | _ \<Rightarrow> None)"

lemma length_numbered [simp]: "length (numbered mk next es) = length es"
  by (induction es arbitrary: "next") simp_all

lemma nth_numbered: "j < length es \<Longrightarrow> numbered mk next es ! j = mk (es ! j) (next + of_nat j)"
  by (induction es arbitrary: "next" j) (auto simp: nth_Cons algebra_simps split: nat.split)

lemma fill_dir_eq:
  "\<forall>i \<in> set is. nxt i = Ok (ent i) \<Longrightarrow>
     fill_dir nxt fits mk skip next is added =
       Ok (added @ fit_prefix fits added (drop skip (numbered mk next (map ent is))))"
proof (induction "is" arbitrary: skip "next" added)
  case (Cons i "is")
  then show ?case by (cases skip) (simp_all add: Let_def)
qed simp

lemma fit_prefix_take:
  "\<exists>m \<le> length ds. fit_prefix fits added ds = take m ds \<and> (ds \<noteq> [] \<longrightarrow> fits added (hd ds) \<longrightarrow> 0 < m)"
proof (induction ds arbitrary: added)
  case (Cons d ds)
  show ?case
  proof (cases "fits added d")
    case True
    obtain m where "m \<le> length ds" "fit_prefix fits (added @ [d]) ds = take m ds" using Cons.IH by blast
    with True show ?thesis by (intro exI [of _ "Suc m"]) simp
  qed (auto intro: exI [of _ 0])
qed simp

lemma set_fit_prefix: "set (fit_prefix fits added ds) \<subseteq> set ds"
  by (induction ds arbitrary: added) auto

lemma set_numbered: "d \<in> set (numbered mk next es) \<Longrightarrow> \<exists>e \<in> set es. \<exists>n. d = mk e n"
  by (induction es arbitrary: "next") auto

lemma read_pages_complete:
  assumes "\<And>offset. rd offset = Ok (fit_prefix fits [] (drop (unat offset) (numbered mk 1 es)))"
    and "\<And>d. fits [] d" "\<And>e n. next_of (mk e n) = n" "length es < 2 ^ 64"
  shows "k \<le> length es \<Longrightarrow> length es - k < fuel \<Longrightarrow>
    read_pages fuel rd next_of (of_nat k) = Some (drop k (numbered mk 1 es))"
proof (induction fuel arbitrary: k)
  case (Suc fuel)
  let ?all = "numbered mk 1 es"
  have u: "unat (of_nat k :: u64) = k" using Suc.prems(1) assms(4) by (simp add: unat_of_nat)
  show ?case
  proof (cases "k = length es")
    case True
    then have "drop k ?all = []" by simp
    then show ?thesis by (simp only: read_pages.simps assms(1) u) (simp add: True)
  next
    case False
    then have ne: "drop k ?all \<noteq> []" using Suc.prems(1) by simp
    obtain m where m: "m \<le> length (drop k ?all)" "fit_prefix fits [] (drop k ?all) = take m (drop k ?all)" "0 < m"
      using fit_prefix_take [of "drop k ?all" fits "[]"] ne assms(2) by blast
    have km: "k + m \<le> length es" using m(1) Suc.prems(1) by simp
    have "last (take m (drop k ?all)) = ?all ! (k + m - 1)"
      using m km by (simp add: last_conv_nth nth_append min_def)
    also have "\<dots> = mk (es ! (k + m - 1)) (1 + of_nat (k + m - 1))"
      using m(3) km by (intro nth_numbered) simp
    finally have nx: "next_of (last (take m (drop k ?all))) = of_nat (k + m)"
      using m(3) by (simp add: assms(3) of_nat_diff)
    have pg: "take m (drop k ?all) \<noteq> []" using m ne by simp
    have "read_pages fuel rd next_of (of_nat (k + m)) = Some (drop (k + m) ?all)"
      using Suc.prems(2) m(3) km by (intro Suc.IH) simp_all
    moreover have "rd (of_nat k) = Ok (take m (drop k ?all))" by (simp only: assms(1) u m(2))
    ultimately have "read_pages (Suc fuel) rd next_of (of_nat k) =
        Some (take m (drop k ?all) @ drop (k + m) ?all)"
      using pg nx by (cases "take m (drop k ?all)") (simp_all del: of_nat_add)
    also have "take m (drop k ?all) @ drop (k + m) ?all = drop k ?all"
      by (metis append_take_drop_id drop_drop add.commute)
    finally show ?thesis .
  qed
qed simp

context read_only_filesystem
begin

lemma fill_dir_total:
  assumes "wf fs" "get_entry fs i = Ok e" "kind e = EDir is"
  shows "fill_dir (iter_next fs) fits mk skip next is [] =
    Ok (fit_prefix fits [] (drop skip (numbered mk next (all_entries fs is))))"
  unfolding all_entries_def using fill_dir_eq [OF iter_all [OF assms], of fits mk skip "next" "[]"]
  by (simp only: append_Nil)

lemma pages_complete:
  assumes "wf fs" "get_entry fs i = Ok e" "kind e = EDir is" "length is < 2 ^ 64"
    and "\<And>d. fits [] d" "\<And>e n. next_of (mk e n) = n"
  shows "read_pages (Suc (length is)) (\<lambda>offset. fill_dir (iter_next fs) fits mk (unat offset) 1 is [])
      next_of 0 = Some (numbered mk 1 (all_entries fs is))"
proof -
  have len: "length (all_entries fs is) = length is" by (simp add: all_entries_def)
  have "read_pages (Suc (length is)) (\<lambda>offset. fill_dir (iter_next fs) fits mk (unat offset) 1 is [])
      next_of (of_nat 0) = Some (drop 0 (numbered mk 1 (all_entries fs is)))"
    by (rule read_pages_complete [where fits = fits])
      (use assms(4-6) len fill_dir_total [OF assms(1-3)] in simp_all)
  then show ?thesis by (simp only: semiring_1_class.of_nat_0 drop_0)
qed

end


section \<open>Reading through the driver\<close>

text \<open>The driver clamps the request before the mount clamps it again.\<close>

lemma clamped_request:
  fixes offset :: u64 and sz off :: u32
  assumes off_def: "off = ucast (min offset (ucast (unpadded_len file)))"
  shows "req_start file (ucast off) = req_start file offset"
    and "req_stop file (ucast off) (min (unpadded_len file - off) sz) = req_stop file offset sz"
proof -
  have up: "unat (unpadded_len file) < 2 ^ 32" using unsigned_less [of "unpadded_len file", where 'a = nat] by simp
  have "unat off = take_bit 32 (min (unat offset) (unat (unpadded_len file)))"
    by (simp add: off_def unsigned_ucast_eq [of "min _ _"] unat_min)
  also have "\<dots> = req_start file offset" using up by (simp add: req_start_def take_bit_nat_eq_self)
  finally have off: "unat off = req_start file offset" .
  have le: "req_start file offset \<le> unat (unpadded_len file)" by (simp add: req_start_def)
  have uo: "unat (ucast off :: u64) = unat off" by simp
  show s: "req_start file (ucast off) = req_start file offset"
    using le unfolding req_start_def [of "file" "ucast off"] uo off by simp
  have "off \<le> unpadded_len file" using off le by (simp add: word_le_nat_alt)
  then have "unat (min (unpadded_len file - off) sz) = min (unat (unpadded_len file) - req_start file offset) (unat sz)"
    by (simp add: unat_min unat_sub off)
  then show "req_stop file (ucast off) (min (unpadded_len file - off) sz) = req_stop file offset sz"
    using le unfolding req_stop_def s by linarith
qed

lemma fuse_read_plaintext:
  assumes "rofs_entry (fm_fs fm) i = Ok e" "kind e = EFile file"
    and "bdt_open open_file (m_bdts (fm_mount fm)) file mp = Ok (bdt, mp')"
    and "archive_ok bdt data file" "plaintext_of decrypt_block (fm_mount fm) file data rs pt"
    and "whole_blocks rs (req_start file offset) (req_stop file offset sz)"
  shows "fuse_read decrypt_block open_file fm True i i offset sz mp =
    Ok (slice (req_start file offset) (req_stop file offset sz) pt)"
proof -
  define off where "off = (ucast (min offset (ucast (unpadded_len file))) :: u32)"
  have m: "file_entry_of (fm_mount fm) i = Ok file" using assms(1,2) by (simp add: file_entry_of_def)
  note cl = clamped_request [OF off_def]
  obtain ps where
    "read_file decrypt_block open_file (fm_mount fm) i (ucast off) (min (unpadded_len file - off) sz)
       collect_piece mp [] = deliver collect_piece ps []"
    "concat (map fst ps) = slice (req_start file offset) (req_stop file offset sz) pt"
    using read_file_plaintext [OF m assms(3-5), of "ucast off" "min (unpadded_len file - off) sz" collect_piece "[]"] assms(6)
    unfolding cl by blast
  then show ?thesis
    unfolding fuse_read_def assms(1,2) outcome.case entry_kind.case Let_def off_def [symmetric]
    by (simp add: deliver_collect)
qed


section \<open>Attributes and handles\<close>


lemma rofs_dir_length:
  assumes "rofs_wf fs" "rofs_entry fs i = Ok e" "kind e = EDir is"
  shows "length is < 2 ^ 64"
proof -
  have "set is \<subseteq> {..<length (nodes fs)}" using rofs_iter_total [OF assms] by blast
  moreover have "distinct is"
  proof -
    let ?j = "unat (i - INODE_ROOT)"
    have j: "?j < length (nodes fs)" "node_entry fs ?j = Ok e"
      using assms(2) by (auto simp: rofs_entry_def Let_def nth_opt_def split: if_splits)
    then show ?thesis
      using node_entry_ok [OF assms(1) j(1)] assms(3) by (auto split: node_content.splits)
  qed
  ultimately have "length is \<le> length (nodes fs)"
    by (metis card_lessThan card_mono distinct_card finite_lessThan)
  then show ?thesis using assms(1) by (simp add: rofs_wf_def)
qed

lemma fuse_readdir_Ok:
  assumes "rofs_wf (fm_fs fm)" "rofs_entry (fm_fs fm) i = Ok e" "kind e = EDir is"
  shows "fuse_readdir fits fm i offset =
      Ok (fit_prefix fits [] (drop (unat offset) (numbered dirent_of 1 (rofs.all_entries (fm_fs fm) is))))"
    and "fuse_readdirplus fits' fm i offset =
      Ok (fit_prefix fits' [] (drop (unat offset) (numbered (dirent_plus_of fm) 1 (rofs.all_entries (fm_fs fm) is))))"
  by (simp_all add: fuse_readdir_def fuse_readdirplus_def assms(2,3) rofs.fill_dir_total [OF assms])


lemma attr_kind_of [simp]: "attr_kind (file_attr_of fm i e) = file_type_of e"
  by (simp add: file_attr_of_def Let_def split: entry_kind.split)

section \<open>Properties\<close>

text \<open>A read through the driver replies exactly the requested range of the plaintext of the
  file, cut at its end, for plain and encrypted files and every length.\<close>

theorem fuse_read_exact:
  assumes "rofs_entry (fm_fs fm) i = Ok e" "kind e = EFile file"
    and "bdt_open open_file (m_bdts (fm_mount fm)) file mp = Ok (bdt, mp')"
    and "archive_ok bdt data file" "plaintext_of decrypt_block (fm_mount fm) file data rs pt"
    and "whole_blocks rs (req_start file offset) (req_stop file offset sz)"
  shows "fuse_read decrypt_block open_file fm True i i offset sz mp =
    Ok (slice (req_start file offset) (req_stop file offset sz) pt)"
  using assms by (rule fuse_read_plaintext)

text \<open>C29: the kernel's paging over a directory lists every entry of it exactly once, in the order
  of the iterator, whatever fits into its buffers, and ends, with and without attributes.\<close>

theorem fuse_listing_complete:
  assumes "rofs_wf (fm_fs fm)" "rofs_entry (fm_fs fm) i = Ok e" "kind e = EDir is"
    and "\<And>d. fits [] d" "\<And>d. fits' [] d"
  shows "\<exists>es. dir_entries (fm_fs fm) is = Ok es \<and>
    read_pages (Suc (length is)) (fuse_readdir fits fm i) d_next 0 = Some (numbered dirent_of 1 es) \<and>
    read_pages (Suc (length is)) (fuse_readdirplus fits' fm i) p_next 0 = Some (numbered (dirent_plus_of fm) 1 es)"
proof (intro exI conjI)
  note page = rofs.pages_complete [OF assms(1-3) rofs_dir_length [OF assms(1-3)]]
  show "dir_entries (fm_fs fm) is = Ok (rofs.all_entries (fm_fs fm) is)"
    using rofs.iter_total [OF assms(1-3)] by (intro dir_entries_all) blast
  have r: "fuse_readdir fits fm i = (\<lambda>offset. fill_dir (node_entry (fm_fs fm)) fits dirent_of (unat offset) 1 is [])"
    "fuse_readdirplus fits' fm i =
       (\<lambda>offset. fill_dir (node_entry (fm_fs fm)) fits' (dirent_plus_of fm) (unat offset) 1 is [])"
    by (rule ext, simp add: fuse_readdir_def fuse_readdirplus_def assms(2,3))+
  show "read_pages (Suc (length is)) (fuse_readdir fits fm i) d_next 0 =
      Some (numbered dirent_of 1 (rofs.all_entries (fm_fs fm) is))"
    unfolding r by (rule page [where fits = fits]) (simp_all add: dirent_of_def assms(4))
  show "read_pages (Suc (length is)) (fuse_readdirplus fits' fm i) p_next 0 =
      Some (numbered (dirent_plus_of fm) 1 (rofs.all_entries (fm_fs fm) is))"
    unfolding r by (rule page [where fits = fits']) (simp_all add: dirent_plus_of_def Let_def assms(5))
qed


text \<open>\<open>readdirplus\<close> gives the kernel, for every entry, an inode that is two less than the
  one the attributes and the name belong to.\<close>

theorem readdirplus_wrong_inode:
  assumes "rofs_wf (fm_fs fm)" "fuse_readdirplus fits fm i offset = Ok ds" "d \<in> set ds"
  shows "fuse_getattr fm (p_ino d + 2) = Ok (CACHE_TTL, (p_attr d)\<lparr>ino := p_ino d + 2\<rparr>) \<and>
    rofs_name (fm_fs fm) (p_ino d + 2) = Ok (p_name d) \<and> ino (p_attr d) = p_ino d"
proof -
  obtain e "is" where e: "rofs_entry (fm_fs fm) i = Ok e" "kind e = EDir is"
    using assms(2) by (auto simp: fuse_readdirplus_def split: outcome.splits entry_kind.splits)
  have "ds = fit_prefix fits [] (drop (unat offset) (numbered (dirent_plus_of fm) 1 (rofs.all_entries (fm_fs fm) is)))"
    using assms(2) unfolding fuse_readdir_Ok(2) [OF assms(1) e] by simp
  then have mem: "d \<in> set (numbered (dirent_plus_of fm) 1 (rofs.all_entries (fm_fs fm) is))"
    using assms(3) set_fit_prefix set_drop_subset by fastforce
  obtain n j where j: "j \<in> set is"
    and d: "d = dirent_plus_of fm (case node_entry (fm_fs fm) j of Ok e \<Rightarrow> e) n"
    using set_numbered [OF mem] by (auto simp: rofs.all_entries_def)
  have lt: "j < length (nodes (fm_fs fm))" using rofs_iter_total [OF assms(1) e j] by simp
  obtain e' where ne: "node_entry (fm_fs fm) j = Ok e'" and e': "inode e' = of_nat j - INODE_ROOT"
    "entry_name e' = str_of_bytes (node_name (fm_fs fm) (nodes (fm_fs fm) ! j))"
    using node_entry_ok [OF assms(1) lt] by simp
  have p: "p_ino d + 2 = of_nat j + INODE_ROOT"
    by (simp add: d ne dirent_plus_of_def Let_def e' INODE_ROOT_def)
  show ?thesis
    unfolding p fuse_getattr_def rofs_entry_at [OF assms(1) lt]
    by (simp add: d ne dirent_plus_of_def Let_def e' file_attr_of_def split: entry_kind.split)
qed

text \<open>No callback of the driver other than a read panics, on any inode, handle and offset.\<close>

theorem fuse_never_panics:
  assumes "rofs_wf (fm_fs fm)"
  shows "fuse_lookup esearch fm i name \<noteq> Panic \<and> fuse_getattr fm i \<noteq> Panic \<and>
    fuse_open fm i mode \<noteq> Panic \<and> fuse_opendir fm i mode \<noteq> Panic \<and> fuse_release fm i fh \<noteq> Panic \<and>
    fuse_releasedir fm i fh \<noteq> Panic \<and> fuse_readdir fits fm i offset \<noteq> Panic \<and>
    fuse_readdirplus fits' fm i offset \<noteq> Panic \<and> fuse_statfs fm i \<noteq> Panic"
proof (cases rule: rofs.entry_cases [OF assms, of i, case_names found missing])
  case (found e)
  have l: "fuse_lookup esearch fm i name \<noteq> Panic"
    using rofs.find_total [OF assms] rofs.entry_total [OF assms]
    by (auto simp: fuse_lookup_def split: option.split outcome.split)
  moreover have "kind e = EDir is \<Longrightarrow> fuse_readdir fits fm i offset \<noteq> Panic \<and> fuse_readdirplus fits' fm i offset \<noteq> Panic"
    for "is" using fuse_readdir_Ok [OF assms found] by simp
  ultimately show ?thesis
    using found by (cases "kind e"; cases "i = fh")
      (simp_all add: fuse_getattr_def fuse_open_def fuse_opendir_def fuse_release_def fuse_releasedir_def
        fuse_readdir_def fuse_readdirplus_def fuse_statfs_def)
next
  case (missing x)
  then show ?thesis
    using rofs.find_total [OF assms] rofs.entry_total [OF assms]
    by (auto simp: fuse_lookup_def fuse_getattr_def fuse_open_def fuse_opendir_def fuse_release_def
        fuse_releasedir_def fuse_readdir_def fuse_readdirplus_def fuse_statfs_def
        split: option.split outcome.split)
qed

section \<open>A concrete mount\<close>

definition sample_fuse :: fuse_mount where
  "sample_fuse = \<lparr>fm_mount = sample_served, timestamp = 9, bdt_sizes = [([7], 9)]\<rparr>"

lemma sample_fuse_fs [simp]: "fm_mount sample_fuse = sample_served"
  by (simp add: sample_fuse_def)

lemma sample_fuse_wf: "rofs_wf (fm_fs sample_fuse)"
  by (simp add: sample_served_wf)

lemma sample_fuse_entries:
  "rofs_entry (fm_fs sample_fuse) 1 = Ok \<lparr>inode = - 1, entry_name = [], kind = EDir [1, 2]\<rparr>"
  "rofs_entry (fm_fs sample_fuse) 2 = Ok \<lparr>inode = 0, entry_name = ''a'', kind = EFile sample_plain_file\<rparr>"
  using sample_served_entries by simp_all

theorem fuse_read_exact_witness:
  "fuse_read (\<lambda>k b. b) (\<lambda>_. Ok sample_bdt) sample_fuse True 2 2 0 3 [] = Ok [3, 4, 5]"
proof -
  have k: "kind \<lparr>inode = 0, entry_name = ''a'', kind = EFile sample_plain_file\<rparr> = EFile sample_plain_file" by simp
  show ?thesis
    using fuse_read_exact [OF sample_fuse_entries(2) k, of "\<lambda>_. Ok sample_bdt" "[]"] sample_served_archive
    by (simp add: req_start_def req_stop_def unpadded_len_def sample_plain_file_def slice_def)
qed

theorem fuse_listing_complete_witness:
  "\<exists>es. dir_entries (fm_fs sample_fuse) [1, 2] = Ok es \<and>
     read_pages 3 (fuse_readdir (\<lambda>added d. added = []) sample_fuse 1) d_next 0 = Some (numbered dirent_of 1 es)"
proof -
  have k: "kind \<lparr>inode = - 1, entry_name = [], kind = EDir [1, 2]\<rparr> = EDir [1, 2]" by simp
  show ?thesis
    using fuse_listing_complete [OF sample_fuse_wf sample_fuse_entries(1) k,
        of "\<lambda>added d. added = []" "\<lambda>added d. added = []"]
    by (auto simp: numeral_3_eq_3 simp del: read_pages.simps)
qed



theorem readdirplus_wrong_inode_witness:
  "\<exists>ds d. fuse_readdirplus (\<lambda>added d. added = []) sample_fuse 1 0 = Ok ds \<and> d \<in> set ds \<and>
     p_ino d = 0 \<and> rofs_name (fm_fs sample_fuse) 2 = Ok (p_name d)"
proof -
  let ?fits = "\<lambda>added (d :: dirent_plus). added = []"
  let ?d = "dirent_plus_of sample_fuse \<lparr>inode = 0, entry_name = ''a'', kind = EFile sample_plain_file\<rparr> 1"
  have r: "fuse_readdirplus ?fits sample_fuse 1 0 = Ok [?d]"
    by (simp add: fuse_readdirplus_def sample_served_entries(1) sample_served_nodes Let_def del: One_nat_def)
  have "p_ino ?d = 0" by (simp add: dirent_plus_of_def Let_def)
  with readdirplus_wrong_inode [OF sample_fuse_wf r, of ?d] r show ?thesis by auto
qed

theorem fuse_never_panics_witness: "fuse_opendir sample_fuse 77 O_RDONLY \<noteq> Panic"
  using fuse_never_panics [OF sample_fuse_wf] by blast

end
