(* ===== verification/Projfs.thy ===== *)
theory Projfs
  imports ReadOnly "HOL-Library.Sorting_Algorithms"
begin

text \<open>
  The driver for the Windows projected file system (\<open>src/dvdbnd/mount/projfs.rs\<close>): the
  callbacks of the service as steps on the context of the mount, which keeps the open
  directory enumerations, the dispatched reads, and the set-up and tear-down of the mount
  point. The functions of the service are parameters: the order and the matching of names,
  whether the buffer of a directory or a write takes the next piece.
\<close>

section \<open>Names in UTF-16\<close>

text \<open>The scalar values of a UTF-8 string and their code units.\<close>

function utf8_scalars :: "nat list \<Rightarrow> nat list" where
  "utf8_scalars [] = []"
| "utf8_scalars (b # bs) =
     (let (n, lead) = (if b < 128 then (0, b) else if b < 224 then (1, b mod 32)
                       else if b < 240 then (2, b mod 16) else (3, b mod 8))
      in fold (\<lambda>c x. x * 64 + c mod 64) (take n bs) lead # utf8_scalars (drop n bs))"
  by pat_completeness auto
termination
  by (relation "measure length") auto

definition utf16_units :: "nat \<Rightarrow> u16 list" where
  "utf16_units s =
     (if s < 65536 then [of_nat s]
      else [of_nat (55296 + (s - 65536) div 1024), of_nat (56320 + (s - 65536) mod 1024)])"

definition encode_utf16 :: "string \<Rightarrow> u16 list" where
  "encode_utf16 s = concat (map utf16_units (utf8_scalars (map of_char s)))"

section \<open>Enumerations\<close>

datatype hresult = S_OK | E_ABORT | E_FAIL | E_INVALIDARG | E_BUFFER | E_PENDING | E_FILE_NOT_FOUND |
  E_DIRECTORY | E_UTF16 | E_OTHER nat

type_synonym guid = "128 word"

record basic_info =
  is_directory :: bool
  info_size :: u64

definition file_basic_info :: "dvdbnd_file entry \<Rightarrow> basic_info" where
  "file_basic_info e =
     (let (is_dir, file_size) = (case kind e of
            EDir _ \<Rightarrow> (True, 0)
          | EFile file \<Rightarrow> (False, unpadded_len file))
      in \<lparr>is_directory = is_dir, info_size = ucast file_size\<rparr>)"

record dir_enumeration =
  enum_pos :: nat
  enum_index :: "(nat \<times> basic_info) list"
  enum_store :: "u16 list"

text \<open>The null-terminated string at a position of the store.\<close>

definition name_at :: "u16 list \<Rightarrow> nat \<Rightarrow> u16 list" where
  "name_at store a = takeWhile (\<lambda>u. u \<noteq> 0) (drop a store)"

fun push_entries :: "dvdbnd_file entry list \<Rightarrow> (nat \<times> basic_info) list \<Rightarrow> u16 list \<Rightarrow>
     (nat \<times> basic_info) list \<times> u16 list" where
  "push_entries [] index store = (index, store)"
| "push_entries (e # es) index store =
     push_entries es (index @ [(length store, file_basic_info e)]) (store @ encode_utf16 (entry_name e) @ [0])"

text \<open>The order of names that compare equal is left open by the unstable sort; it is the
  stable one here.\<close>

definition from_dir_iter :: "u16 list comparator \<Rightarrow> dvdbnd_file entry list \<Rightarrow> dir_enumeration" where
  "from_dir_iter name_compare es =
     (case push_entries es [] [] of (index, store) \<Rightarrow>
        \<lparr>enum_pos = 0, enum_index = sort (key (\<lambda>(a, info). name_at store a) name_compare) index,
         enum_store = store\<rparr>)"

definition enumerate_dir ::
  "(u16 list \<Rightarrow> u16 list \<Rightarrow> bool) \<Rightarrow> dir_enumeration \<Rightarrow> u16 list option \<Rightarrow>
     (nat \<times> u16 list \<times> basic_info) list" where
  "enumerate_dir name_match d expression =
     List.map_filter (\<lambda>(p, path_index, info).
         let path = name_at (enum_store d) path_index
         in if (case expression of None \<Rightarrow> True | Some x \<Rightarrow> name_match path x) then Some (p, path, info) else None)
       (drop (enum_pos d) (zip [0..<length (enum_index d)] (enum_index d)))"

definition set_pos :: "dir_enumeration \<Rightarrow> nat \<Rightarrow> dir_enumeration" where
  "set_pos d new_pos = d\<lparr>enum_pos := min new_pos (length (enum_index d))\<rparr>"

definition reset :: "dir_enumeration \<Rightarrow> dir_enumeration" where
  "reset d = d\<lparr>enum_pos := 0\<rparr>"

section \<open>Callbacks\<close>

text \<open>The context: the enumerations by their identifier, shared with the callbacks, and the
  commands the dispatched tasks have completed, with what they wrote.\<close>

type_synonym completion = "nat \<times> hresult \<times> (u64 \<times> bytes) list option"

record mount_context =
  mc_mount :: mount
  enumerations :: "(guid \<times> dir_enumeration) list"
  completed :: "completion list"

abbreviation mc_fs :: "mount_context \<Rightarrow> dvdbnd_file rofs" where
  "mc_fs c \<equiv> inner_fs (m_fs (mc_mount c))"

definition mount_context_new :: "mount \<Rightarrow> mount_context" where
  "mount_context_new m = \<lparr>mc_mount = m, enumerations = [], completed = []\<rparr>"

type_synonym 'r action = "mount_context \<Rightarrow> (hresult, 'r) outcome \<times> mount_context"

text \<open>\<open>call\<close>: a callback of a mount that is gone aborts, and a panic becomes a failure.\<close>

definition call :: "bool \<Rightarrow> 'r action \<Rightarrow> mount_context \<Rightarrow> hresult \<times> 'r option \<times> mount_context" where
  "call alive f c =
     (if \<not> alive then (E_ABORT, None, c)
      else case f c of
             (Ok r, c) \<Rightarrow> (S_OK, Some r, c)
           | (Err e, c) \<Rightarrow> (e, None, c)
           | (Panic, c) \<Rightarrow> (E_FAIL, None, c))"

definition lookup_path :: "(bytes list \<Rightarrow> bytes \<Rightarrow> nat option) \<Rightarrow> string option \<Rightarrow> mount_context \<Rightarrow> (hresult, u64) outcome" where
  "lookup_path esearch path c =
     (case path of
        None \<Rightarrow> Err E_UTF16
      | Some path \<Rightarrow>
          (case lookup DvdbndConfig_SEPARATORS esearch (mc_fs c) path of
             Ok i \<Rightarrow> Ok i | Err _ \<Rightarrow> Err E_FILE_NOT_FOUND | Panic \<Rightarrow> Panic))"

text \<open>The entries of the directory at a path.\<close>

definition open_dir ::
  "(bytes list \<Rightarrow> bytes \<Rightarrow> nat option) \<Rightarrow> string option \<Rightarrow> mount_context \<Rightarrow> (hresult, dvdbnd_file entry list) outcome" where
  "open_dir esearch path c =
     obind (lookup_path esearch path c) (\<lambda>i.
     obind (case rofs_entry (mc_fs c) i of
              Ok e \<Rightarrow> (case kind e of EDir dir_iter \<Rightarrow> Ok dir_iter | EFile _ \<Rightarrow> Err E_DIRECTORY)
            | Err _ \<Rightarrow> Err E_DIRECTORY
            | Panic \<Rightarrow> Panic) (\<lambda>dir_iter.
     case dir_entries (mc_fs c) dir_iter of Ok es \<Rightarrow> Ok es | _ \<Rightarrow> Panic))"

definition start_directory_enumeration ::
  "u16 list comparator \<Rightarrow> (bytes list \<Rightarrow> bytes \<Rightarrow> nat option) \<Rightarrow> bool \<Rightarrow> string option \<Rightarrow> guid \<Rightarrow>
     mount_context \<Rightarrow> hresult \<times> unit option \<times> mount_context" where
  "start_directory_enumeration name_compare esearch alive path enumeration_id =
     call alive (\<lambda>c.
       case open_dir esearch path c of
         Ok es \<Rightarrow> (Ok (), c\<lparr>enumerations :=
                    AList.update enumeration_id (from_dir_iter name_compare es) (enumerations c)\<rparr>)
       | Err e \<Rightarrow> (Err e, c)
       | Panic \<Rightarrow> (Panic, c))"

definition end_directory_enumeration ::
  "bool \<Rightarrow> guid \<Rightarrow> mount_context \<Rightarrow> hresult \<times> unit option \<times> mount_context" where
  "end_directory_enumeration alive enumeration_id =
     call alive (\<lambda>c. (Ok (), c\<lparr>enumerations := AList.delete enumeration_id (enumerations c)\<rparr>))"

text \<open>The loop that fills the buffer of the service: the first entry that does not fit ends the
  page, unless the page is empty.\<close>

type_synonym filled = "(u16 list \<times> basic_info) list"

fun fill_entries ::
  "(filled \<Rightarrow> u16 list \<Rightarrow> basic_info \<Rightarrow> hresult option) \<Rightarrow> nat \<Rightarrow> nat \<Rightarrow> (nat \<times> u16 list \<times> basic_info) list \<Rightarrow>
     filled \<Rightarrow> (hresult, nat \<times> filled) outcome" where
  "fill_entries fill start_pos end_pos [] buf = Ok (end_pos, buf)"
| "fill_entries fill start_pos end_pos ((p, name, info) # rest) buf =
     (case fill buf name info of
        Some e \<Rightarrow> if e = E_BUFFER \<and> start_pos \<noteq> end_pos then Ok (end_pos, buf) else Err e
      | None \<Rightarrow> fill_entries fill start_pos (p + 1) rest (buf @ [(name, info)]))"

definition get_directory_enumeration ::
  "(u16 list \<Rightarrow> u16 list \<Rightarrow> bool) \<Rightarrow> (filled \<Rightarrow> u16 list \<Rightarrow> basic_info \<Rightarrow> hresult option) \<Rightarrow> bool \<Rightarrow> bool \<Rightarrow> guid \<Rightarrow>
     u16 list option \<Rightarrow> mount_context \<Rightarrow> hresult \<times> filled option \<times> mount_context" where
  "get_directory_enumeration name_match fill alive restart_scan enumeration_id expression =
     call alive (\<lambda>c.
       case map_of (enumerations c) enumeration_id of
         None \<Rightarrow> (Err E_INVALIDARG, c)
       | Some dir \<Rightarrow>
           let dir = (if restart_scan then reset dir else dir);
               store = (\<lambda>dir. c\<lparr>enumerations := AList.update enumeration_id dir (enumerations c)\<rparr>);
               start_pos = enum_pos dir
           in case fill_entries fill start_pos start_pos (enumerate_dir name_match dir expression) [] of
                Err e \<Rightarrow> (Err e, store dir)
              | Panic \<Rightarrow> (Panic, store dir)
              | Ok (end_pos, buf) \<Rightarrow> (Ok buf, store (set_pos dir end_pos)))"

text \<open>\<open>get_placeholder_info\<close>: what is written for the path, if the write succeeds.\<close>

definition get_placeholder_info ::
  "(bytes list \<Rightarrow> bytes \<Rightarrow> nat option) \<Rightarrow> (basic_info \<Rightarrow> hresult option) \<Rightarrow> bool \<Rightarrow> string option \<Rightarrow>
     mount_context \<Rightarrow> hresult \<times> basic_info option \<times> mount_context" where
  "get_placeholder_info esearch write_placeholder alive path =
     call alive (\<lambda>c.
       (obind (lookup_path esearch path c) (\<lambda>i.
        obind (case rofs_entry (mc_fs c) i of Ok e \<Rightarrow> Ok e | Err _ \<Rightarrow> Err E_FAIL | Panic \<Rightarrow> Panic) (\<lambda>e.
        let info = file_basic_info e
        in case write_placeholder info of None \<Rightarrow> Ok info | Some code \<Rightarrow> Err code)), c))"

text \<open>The task of a read: its pieces are written to the service, and the command completed.\<close>

definition write_piece :: "(u64 \<Rightarrow> bytes \<Rightarrow> hresult option) \<Rightarrow> (u64 \<times> bytes) list callback" where
  "write_piece write_data buf offset written =
     (case write_data (ucast offset) buf of
        None \<Rightarrow> Ok (written @ [(ucast offset, buf)])
      | Some _ \<Rightarrow> Err (MCallback 0))"

definition complete_read ::
  "(bytes \<Rightarrow> bytes \<Rightarrow> bytes) \<Rightarrow> (string \<Rightarrow> managed_read io_result) \<Rightarrow> (u64 \<Rightarrow> bytes \<Rightarrow> hresult option) \<Rightarrow>
     u64 \<Rightarrow> u64 \<Rightarrow> u32 \<Rightarrow> bdt_map \<Rightarrow> mount_context \<Rightarrow> hresult \<times> (u64 \<times> bytes) list option" where
  "complete_read decrypt_block open_file write_data i byte_offset len mp c =
     (case read_file decrypt_block open_file (mc_mount c) i byte_offset len (write_piece write_data) mp [] of
        Ok written \<Rightarrow> (S_OK, Some written)
      | Err _ \<Rightarrow> (E_FAIL, None)
      | Panic \<Rightarrow> (E_FAIL, None))"

text \<open>\<open>call_async\<close>: the command is pending, whether or not the dispatcher took the task.\<close>

definition call_async ::
  "bool \<Rightarrow> bool \<Rightarrow> nat \<Rightarrow> (mount_context \<Rightarrow> hresult \<times> (u64 \<times> bytes) list option) \<Rightarrow>
     mount_context \<Rightarrow> hresult \<times> unit option \<times> mount_context" where
  "call_async alive dispatched command_id complete =
     call alive (\<lambda>c.
       (Err E_PENDING,
        if dispatched then c\<lparr>completed := completed c @ [(command_id, complete c)]\<rparr> else c))"

definition get_file_data ::
  "(bytes list \<Rightarrow> bytes \<Rightarrow> nat option) \<Rightarrow> (bytes \<Rightarrow> bytes \<Rightarrow> bytes) \<Rightarrow> (string \<Rightarrow> managed_read io_result) \<Rightarrow>
     (u64 \<Rightarrow> bytes \<Rightarrow> hresult option) \<Rightarrow> bdt_map \<Rightarrow> bool \<Rightarrow> bool \<Rightarrow> nat \<Rightarrow> string option \<Rightarrow> u64 \<Rightarrow> u32 \<Rightarrow>
     mount_context \<Rightarrow> hresult \<times> unit option \<times> mount_context" where
  "get_file_data esearch decrypt_block open_file write_data mp alive dispatched command_id path byte_offset len =
     call alive (\<lambda>c.
       case lookup_path esearch path c of
         Err e \<Rightarrow> (Err e, c)
       | Panic \<Rightarrow> (Panic, c)
       | Ok i \<Rightarrow>
           (case call_async True dispatched command_id
                   (complete_read decrypt_block open_file write_data i byte_offset len mp) c of
              (code, _, c) \<Rightarrow> (if code = S_OK then Ok () else Err code, c)))"

definition cancel_command :: "mount_context \<Rightarrow> mount_context" where
  "cancel_command c = c"

section \<open>Mount point\<close>

text \<open>\<open>interrupt\<close>: the directory is removed again and again while it is in use (\<open>rm k\<close> is the
  result of the \<open>k\<close>-th attempt, an error with its system code), and then created anew.\<close>

definition in_use :: "nat option \<Rightarrow> bool" where
  "in_use code \<longleftrightarrow> code = Some 32 \<or> code = Some 33 \<or> code = Some 369"

partial_function (option) remove_loop :: "(nat \<Rightarrow> (nat option, unit) outcome) \<Rightarrow> nat \<Rightarrow> (nat option, nat) outcome option" where
  "remove_loop rm k =
     (case rm k of
        Ok _ \<Rightarrow> Some (Ok k)
      | Panic \<Rightarrow> Some Panic
      | Err code \<Rightarrow> if \<not> in_use code then Some (Err code) else remove_loop rm (k + 1))"

definition interrupt ::
  "(nat \<Rightarrow> (nat option, unit) outcome) \<Rightarrow> (nat option, unit) outcome \<Rightarrow> (nat option, unit) outcome option" where
  "interrupt rm create = map_option (\<lambda>r. obind r (\<lambda>_. create)) (remove_loop rm 0)"

text \<open>The identifier of a mount point is kept in a file beside it.\<close>

definition rsplit_once :: "(char \<Rightarrow> bool) \<Rightarrow> string \<Rightarrow> (string \<times> string) option" where
  "rsplit_once p s =
     (case dropWhile (\<lambda>c. \<not> p c) (rev s) of
        [] \<Rightarrow> None
      | _ # before \<Rightarrow> Some (rev before, rev (takeWhile (\<lambda>c. \<not> p c) (rev s))))"

definition guid_path :: "string \<Rightarrow> string" where
  "guid_path mountpoint =
     (case rsplit_once (\<lambda>c. c = CHR 0x5C \<or> c = CHR 0x2F) mountpoint of
        Some (parent, name) \<Rightarrow> parent @ ''/~'' @ name @ ''.GUID''
      | None \<Rightarrow> ''~'' @ mountpoint @ ''.GUID'')"

definition create_mount_guid ::
  "(nat option, guid) outcome \<Rightarrow> (string \<Rightarrow> (nat option, unit) outcome) \<Rightarrow> string \<Rightarrow> (string \<times> bytes) list \<Rightarrow>
     (nat option, guid) outcome \<times> (string \<times> bytes) list" where
  "create_mount_guid new_guid open_file path disk =
     (case obind new_guid (\<lambda>guid. obind (open_file path) (\<lambda>_. Ok guid)) of
        Ok guid \<Rightarrow> (Ok guid, AList.update path (nat_le 16 (unat guid)) disk)
      | Err e \<Rightarrow> (Err e, disk)
      | Panic \<Rightarrow> (Panic, disk))"

definition get_or_create_mount_guid ::
  "(nat option, guid) outcome \<Rightarrow> (string \<Rightarrow> (nat option, unit) outcome) \<Rightarrow> string \<Rightarrow> (string \<times> bytes) list \<Rightarrow>
     (nat option, guid) outcome \<times> (string \<times> bytes) list" where
  "get_or_create_mount_guid new_guid open_file mountpoint disk =
     (let path = guid_path mountpoint
      in case map_of disk path of
           Some bs \<Rightarrow>
             if length bs = 16 then (Ok (of_nat (le_nat bs)), disk)
             else create_mount_guid new_guid open_file path (AList.delete path disk)
         | None \<Rightarrow> create_mount_guid new_guid open_file path (AList.delete path disk))"

text \<open>\<open>init_mountpoint\<close>: the directory must be empty to be removed.\<close>

definition init_mountpoint ::
  "(nat option, unit) outcome \<Rightarrow> (nat option, unit) outcome \<Rightarrow> (guid \<Rightarrow> (nat option, unit) outcome) \<Rightarrow>
     (nat option, guid) outcome \<Rightarrow> (string \<Rightarrow> (nat option, unit) outcome) \<Rightarrow> string \<Rightarrow> (string \<times> bytes) list \<Rightarrow>
     (nat option, string) outcome \<times> (string \<times> bytes) list" where
  "init_mountpoint remove_dir create_dir mark new_guid open_file mountpoint disk =
     (case obind remove_dir (\<lambda>_. create_dir) of
        Err e \<Rightarrow> (Err e, disk)
      | Panic \<Rightarrow> (Panic, disk)
      | Ok _ \<Rightarrow>
          (case get_or_create_mount_guid new_guid open_file mountpoint disk of
             (guid, disk) \<Rightarrow> (obind guid (\<lambda>guid. obind (mark guid) (\<lambda>_. Ok mountpoint)), disk)))"

text \<open>\<open>require_projfs\<close>: when the library does not load, the user is asked, the feature queried
  and enabled.\<close>

datatype message_box = IDOK | IDCANCEL | MB_ERROR | MB_OTHER

datatype projfs_error = Canceled | WindowsThread | UnknownBox | RunAs | EnableFailed

definition try_load_projfs ::
  "('e, unit) outcome \<Rightarrow> ('e, unit) outcome \<Rightarrow> ('e, guid) outcome \<Rightarrow> (guid \<Rightarrow> ('e, unit) outcome) \<Rightarrow> ('e, unit) outcome" where
  "try_load_projfs load temp_dir new_guid mark =
     obind load (\<lambda>_. obind temp_dir (\<lambda>_. obind new_guid (\<lambda>guid. obind (mark guid) (\<lambda>_. Ok ()))))"

definition prompt_user_before_uac :: "message_box \<Rightarrow> (projfs_error, unit) outcome" where
  "prompt_user_before_uac res =
     (case res of
        IDOK \<Rightarrow> Ok ()
      | IDCANCEL \<Rightarrow> Err Canceled
      | MB_ERROR \<Rightarrow> Err WindowsThread
      | MB_OTHER \<Rightarrow> Err UnknownBox)"

text \<open>\<open>src/runas.rs\<close>: the command line of an elevated process; \<open>spawn\<close> runs a program with its
  arguments and gives its exit code.\<close>

definition runas :: "(string \<Rightarrow> string list \<Rightarrow> ('e, nat) outcome) \<Rightarrow> string \<Rightarrow> string \<Rightarrow> ('e, nat) outcome" where
  "runas spawn program command =
     spawn ''powershell''
       [''-Command'',
        ''exit (Start-Process -FilePath '' @ program @
        '' -Wait -PassThru -WindowStyle Hidden -Verb RunAs -ArgumentList '' @ command @ '').ExitCode'']"

definition runas_powershell_command :: "(string \<Rightarrow> string list \<Rightarrow> ('e, nat) outcome) \<Rightarrow> string \<Rightarrow> ('e, nat) outcome" where
  "runas_powershell_command spawn command =
     (if CHR 0x22 \<in> set command then Panic
      else let quoted = (\<lambda>s. [CHR 0x22] @ s @ [CHR 0x22])
           in runas spawn ''powershell'' (quoted ''-Command'' @ '', '' @ quoted command))"

definition require_projfs ::
  "(string \<Rightarrow> string list \<Rightarrow> ('e, nat) outcome) \<Rightarrow> ('e, unit) outcome \<Rightarrow> message_box \<Rightarrow> (projfs_error, unit) outcome" where
  "require_projfs spawn loaded box =
     (case loaded of
        Ok _ \<Rightarrow> Ok ()
      | Panic \<Rightarrow> Panic
      | Err _ \<Rightarrow>
          obind (prompt_user_before_uac box) (\<lambda>_.
          obind (map_err (\<lambda>_. RunAs) (runas_powershell_command spawn
            ''if ((Get-WindowsOptionalFeature -Online -FeatureName Client-ProjFS).State -eq 'disabled') { exit 1 }''))
            (\<lambda>has_projfs.
          if has_projfs \<noteq> 0
          then obind (map_err (\<lambda>_. RunAs) (runas_powershell_command spawn
                 ''exit (Enable-WindowsOptionalFeature -Online -FeatureName Client-ProjFS -NoRestart).ExitCode''))
                 (\<lambda>enable_projfs. if enable_projfs = 0 then Ok () else Err EnableFailed)
          else Err EnableFailed)))"

text \<open>Neither command has a quote, so only running them can panic; without an answer to the box
  nothing is run, and an enabled feature that does not load is an error.\<close>

lemma require_projfs_commands:
  "CHR 0x22 \<notin> set ''if ((Get-WindowsOptionalFeature -Online -FeatureName Client-ProjFS).State -eq 'disabled') { exit 1 }''"
  "CHR 0x22 \<notin> set ''exit (Enable-WindowsOptionalFeature -Online -FeatureName Client-ProjFS -NoRestart).ExitCode''"
  by simp_all

lemma require_projfs_no_panic:
  assumes "loaded \<noteq> Panic" "\<And>program args. spawn program args \<noteq> Panic"
  shows "require_projfs spawn loaded box \<noteq> Panic"
proof -
  have r: "runas_powershell_command spawn command \<noteq> Panic" if "CHR 0x22 \<notin> set command" for command
    using assms(2) that by (simp add: runas_powershell_command_def runas_def Let_def)
  have "obind (map_err g (runas_powershell_command spawn command)) k \<noteq> Panic"
    if "CHR 0x22 \<notin> set command" "\<And>c. k c \<noteq> Panic" for command and g :: "'a \<Rightarrow> projfs_error" and k :: "nat \<Rightarrow> (projfs_error, unit) outcome"
    using r [OF that(1)] that(2) by (cases "runas_powershell_command spawn command") (simp_all add: map_err_def)
  note this [OF require_projfs_commands(1)] this [OF require_projfs_commands(2)]
  then show ?thesis
    using assms(1) by (cases loaded; cases box) (simp_all add: require_projfs_def prompt_user_before_uac_def)
qed

lemma require_projfs_asks:
  "require_projfs spawn (Err e) IDCANCEL = Err Canceled"
  "require_projfs spawn (Ok u) box = Ok ()"
  "(\<And>program args. spawn program args = Ok 0) \<Longrightarrow> require_projfs spawn (Err e) IDOK = Err EnableFailed"
  by (simp_all add: require_projfs_def prompt_user_before_uac_def runas_powershell_command_def runas_def map_err_def Let_def)

section \<open>An enumeration holds the directory\<close>

lemma name_at_pushed: "0 \<notin> set enc \<Longrightarrow> name_at (store @ (enc @ [0]) @ rest) (length store) = enc"
  by (simp add: name_at_def takeWhile_append2 flip: append_assoc) (induction enc; simp)

lemma push_entries_names:
  assumes "push_entries es index store = (ix, st)"
    and "\<forall>e \<in> set es. 0 \<notin> set (encode_utf16 (entry_name e))"
  shows "\<exists>ix' st'. ix = index @ ix' \<and> st = store @ st' \<and>
    map (\<lambda>(a, info). (name_at st a, info)) ix' = map (\<lambda>e. (encode_utf16 (entry_name e), file_basic_info e)) es"
  using assms
proof (induction es arbitrary: index store)
  case (Cons e es)
  let ?enc = "encode_utf16 (entry_name e)"
  obtain ix' st' where st: "ix = (index @ [(length store, file_basic_info e)]) @ ix'"
    "st = (store @ ?enc @ [0]) @ st'"
    "map (\<lambda>(a, info). (name_at st a, info)) ix' = map (\<lambda>e. (encode_utf16 (entry_name e), file_basic_info e)) es"
    using Cons.IH [of "index @ [(length store, file_basic_info e)]" "store @ ?enc @ [0]"] Cons.prems by auto
  have "name_at st (length store) = ?enc"
    using name_at_pushed [of ?enc store st'] Cons.prems(2) st(2) by simp
  then show ?case
    using st by (intro exI [of _ "(length store, file_basic_info e) # ix'"] exI [of _ "?enc @ [0] @ st'"]) simp
qed simp

text \<open>The entries of an enumeration as the service sees them.\<close>

definition entry_names :: "dir_enumeration \<Rightarrow> filled" where
  "entry_names d = map (\<lambda>(a, info). (name_at (enum_store d) a, info)) (enum_index d)"

lemma from_dir_iter_names:
  assumes "\<forall>e \<in> set es. 0 \<notin> set (encode_utf16 (entry_name e))"
  shows "mset (entry_names (from_dir_iter cmp es)) =
      mset (map (\<lambda>e. (encode_utf16 (entry_name e), file_basic_info e)) es)"
    and "sorted (key fst cmp) (entry_names (from_dir_iter cmp es))"
    and "enum_pos (from_dir_iter cmp es) = 0"
proof -
  obtain ix st where p: "push_entries es [] [] = (ix, st)" by fastforce
  let ?f = "\<lambda>(a, info). (name_at st a, info :: basic_info)"
  have n: "entry_names (from_dir_iter cmp es) = map ?f (sort (key (\<lambda>(a, info). name_at st a) cmp) ix)"
    by (simp add: entry_names_def from_dir_iter_def p)
  have "map ?f ix = map (\<lambda>e. (encode_utf16 (entry_name e), file_basic_info e)) es"
    using push_entries_names [OF p assms] by auto
  then show "mset (entry_names (from_dir_iter cmp es)) =
      mset (map (\<lambda>e. (encode_utf16 (entry_name e), file_basic_info e)) es)"
    unfolding n mset_map mset_sort by (simp flip: mset_map)
  have "sorted (key (\<lambda>(a, info). name_at st a) cmp) xs \<Longrightarrow> sorted (key fst cmp) (map ?f xs)" for xs
    by (induction xs rule: induct_list012) (auto simp: key.rep_eq split: prod.splits)
  then show "sorted (key fst cmp) (entry_names (from_dir_iter cmp es))" unfolding n by simp
  show "enum_pos (from_dir_iter cmp es) = 0" by (simp add: from_dir_iter_def p)
qed


section \<open>Paging\<close>

text \<open>The entries an expression matches; \<open>enumerate_dir\<close> yields those from the position on,
  in increasing positions.\<close>

definition matching :: "(u16 list \<Rightarrow> u16 list \<Rightarrow> bool) \<Rightarrow> u16 list option \<Rightarrow> filled \<Rightarrow> filled" where
  "matching name_match expression es =
     filter (\<lambda>(name, info). case expression of None \<Rightarrow> True | Some x \<Rightarrow> name_match name x) es"

definition step_entry ::
  "(u16 list \<Rightarrow> u16 list \<Rightarrow> bool) \<Rightarrow> dir_enumeration \<Rightarrow> u16 list option \<Rightarrow> nat \<times> nat \<times> basic_info \<Rightarrow>
     (nat \<times> u16 list \<times> basic_info) option" where
  "step_entry name_match d expression = (\<lambda>(p, path_index, info).
     let path = name_at (enum_store d) path_index
     in if (case expression of None \<Rightarrow> True | Some x \<Rightarrow> name_match path x) then Some (p, path, info) else None)"

lemma set_step_entries:
  "fst ` set (List.map_filter (step_entry name_match d expression) zs) \<subseteq> fst ` set zs"
proof -
  have "step_entry name_match d expression z = Some y \<Longrightarrow> fst y = fst z" for y z
    by (cases z) (auto simp: step_entry_def Let_def split: if_splits)
  then show ?thesis by (force simp: List.map_filter_def)
qed

lemma drop_zip_upt: "drop q (zip [0..<length xs] xs) = filter (\<lambda>x. q \<le> fst x) (zip [0..<length xs] xs)"
proof -
  let ?Z = "zip [0..<length xs] xs"
  have "filter (\<lambda>x. q \<le> fst x) (take q ?Z) = []"
    by (auto simp: filter_empty_conv in_set_conv_nth)
  moreover have "filter (\<lambda>x. q \<le> fst x) (drop q ?Z) = drop q ?Z"
    by (auto simp: filter_id_conv in_set_conv_nth)
  ultimately show ?thesis
    by (metis append_Nil append_take_drop_id filter_append)
qed

lemma enumerate_dir_filter:
  "enumerate_dir name_match d expression =
     filter (\<lambda>x. enum_pos d \<le> fst x)
       (List.map_filter (step_entry name_match d expression) (zip [0..<length (enum_index d)] (enum_index d)))"
proof -
  have "List.map_filter (step_entry name_match d expression) (filter (\<lambda>x. q \<le> fst x) zs) =
      filter (\<lambda>x. q \<le> fst x) (List.map_filter (step_entry name_match d expression) zs)" for q zs
    by (induction zs) (auto simp: List.map_filter_def step_entry_def Let_def split: if_splits)
  then show ?thesis
    unfolding enumerate_dir_def drop_zip_upt step_entry_def [symmetric] by simp
qed

lemma enumerate_dir_increasing:
  "sorted_wrt (\<lambda>x y. fst x < fst y) (enumerate_dir name_match d expression)"
proof -
  let ?Z = "zip [0..<length (enum_index d)] (enum_index d)"
  have z: "sorted_wrt (\<lambda>x y. fst x < fst y) ?Z"
    by (simp add: sorted_wrt_iff_nth_less)
  have "sorted_wrt (\<lambda>x y. fst x < fst y) (List.map_filter (step_entry name_match d expression) zs)"
    if "sorted_wrt (\<lambda>x y. fst x < fst y) zs" for zs :: "(nat \<times> nat \<times> basic_info) list"
    using that by (induction zs) (auto simp: List.map_filter_def step_entry_def Let_def split: if_splits)
  from this [OF z] show ?thesis unfolding enumerate_dir_filter by (rule sorted_wrt_filter)
qed

lemma enumerate_dir_start:
  assumes "enum_pos d = 0"
  shows "map snd (enumerate_dir name_match d expression) = matching name_match expression (entry_names d)"
proof -
  have "map snd (List.map_filter (step_entry name_match d expression) (zip ns xs)) =
      matching name_match expression (map (\<lambda>(a, info). (name_at (enum_store d) a, info)) xs)"
    if "length ns = length xs" for ns xs
    using that by (induction ns xs rule: list_induct2)
      (auto simp: List.map_filter_def step_entry_def matching_def Let_def split: if_splits)
  then show ?thesis
    unfolding enumerate_dir_filter entry_names_def using assms by simp
qed

lemma filter_behind:
  assumes "sorted_wrt (\<lambda>x y. f x < f y) xs" "0 < m" "m \<le> length xs"
  shows "filter (\<lambda>x. f (xs ! (m - 1)) < (f x :: nat)) xs = drop m xs"
proof -
  have s: "i < j \<Longrightarrow> j < length xs \<Longrightarrow> f (xs ! i) < f (xs ! j)" for i j
    using assms(1) by (simp add: sorted_wrt_iff_nth_less)
  have "filter (\<lambda>x. f (xs ! (m - 1)) < f x) (take m xs) = []"
  proof -
    have "\<not> f (xs ! (m - 1)) < f (xs ! i)" if "i < m" for i
      using s [of i "m - 1"] assms(2,3) that by (cases "i = m - 1") (auto simp: less_imp_le not_less)
    then show ?thesis by (auto simp: filter_empty_conv in_set_conv_nth)
  qed
  moreover have "filter (\<lambda>x. f (xs ! (m - 1)) < f x) (drop m xs) = drop m xs"
    using s assms(2,3) by (auto simp: filter_id_conv in_set_conv_nth)
  ultimately show ?thesis by (metis append_Nil append_take_drop_id filter_append)
qed

lemma enumerate_dir_resume:
  fixes name_match d expression m
  defines "xs \<equiv> enumerate_dir name_match d expression"
  assumes "0 < m" "m \<le> length xs"
  shows "enumerate_dir name_match (set_pos d (fst (xs ! (m - 1)) + 1)) expression = drop m xs"
proof -
  let ?Z = "zip [0..<length (enum_index d)] (enum_index d)" and ?p = "fst (xs ! (m - 1))"
  have mem: "xs ! (m - 1) \<in> set xs" using assms by simp
  then have "?p \<in> fst ` set ?Z"
    using set_step_entries unfolding xs_def enumerate_dir_filter by fastforce
  then have "?p < length (enum_index d)" by (auto dest: set_zip_leftD)
  then have pos: "enum_pos (set_pos d (?p + 1)) = ?p + 1" by (simp add: set_pos_def)
  have q: "enum_pos d \<le> ?p" using mem unfolding xs_def enumerate_dir_filter by simp
  have same: "enum_index (set_pos d n) = enum_index d" "step_entry name_match (set_pos d n) = step_entry name_match d" for n
    by (simp_all add: set_pos_def step_entry_def fun_eq_iff)
  have "filter (\<lambda>x. ?p + 1 \<le> fst x) zs = filter (\<lambda>x. ?p < fst x) (filter (\<lambda>x. enum_pos d \<le> fst x) zs)"
    for zs :: "(nat \<times> u16 list \<times> basic_info) list"
    using q by (auto intro: filter_cong)
  then have "enumerate_dir name_match (set_pos d (?p + 1)) expression = filter (\<lambda>x. ?p < fst x) xs"
    unfolding enumerate_dir_filter [of _ "set_pos d (?p + 1)"] pos same
    unfolding xs_def enumerate_dir_filter [of _ d] by blast
  also have "\<dots> = drop m xs"
    using enumerate_dir_increasing assms(2,3) unfolding xs_def by (rule filter_behind)
  finally show ?thesis .
qed


lemma fill_entries_take:
  assumes "\<And>buf n i. fill buf n i = None \<or> fill buf n i = Some E_BUFFER" "\<And>n i. fill [] n i = None"
  shows "\<forall>x \<in> set xs. sp \<le> fst x \<Longrightarrow> buf \<noteq> [] \<longrightarrow> sp \<noteq> ep \<Longrightarrow>
    \<exists>m \<le> length xs. fill_entries fill sp ep xs buf =
        Ok (if m = 0 then ep else fst (xs ! (m - 1)) + 1, buf @ take m (map snd xs)) \<and>
      (buf = [] \<longrightarrow> xs \<noteq> [] \<longrightarrow> 0 < m)"
proof (induction xs arbitrary: ep buf)
  case (Cons x xs)
  obtain p name info where x: "x = (p, name, info)" by (cases x)
  show ?case
  proof (cases "fill buf name info")
    case None
    have "buf @ [(name, info)] \<noteq> [] \<longrightarrow> sp \<noteq> p + 1" using Cons.prems(1) by (simp add: x)
    then obtain m where m: "m \<le> length xs" "fill_entries fill sp (p + 1) xs (buf @ [(name, info)]) =
        Ok (if m = 0 then p + 1 else fst (xs ! (m - 1)) + 1, (buf @ [(name, info)]) @ take m (map snd xs))"
      using Cons.IH [of "buf @ [(name, info)]" "p + 1"] Cons.prems(1) by auto
    then show ?thesis by (intro exI [of _ "Suc m"]) (auto simp: x None nth_Cons' simp del: One_nat_def)
  next
    case (Some e)
    then have e: "e = E_BUFFER" and "buf \<noteq> []" using assms(1) [of buf name info] assms(2) by auto
    then show ?thesis using Cons.prems(2) Some by (intro exI [of _ 0]) (simp add: x)
  qed
qed simp

text \<open>The loop of the service: it asks until a page is empty.\<close>

fun enum_pages ::
  "nat \<Rightarrow> (mount_context \<Rightarrow> hresult \<times> filled option \<times> mount_context) \<Rightarrow> mount_context \<Rightarrow> filled option" where
  "enum_pages 0 get c = None"
| "enum_pages (Suc fuel) get c =
     (case get c of
        (S_OK, Some [], c) \<Rightarrow> Some []
      | (S_OK, Some ds, c) \<Rightarrow> map_option ((@) ds) (enum_pages fuel get c)
      | _ \<Rightarrow> None)"

lemma get_page:
  assumes "\<And>buf n i. fill buf n i = None \<or> fill buf n i = Some E_BUFFER" "\<And>n i. fill [] n i = None"
    and "map_of (enumerations c) g = Some d"
  shows "\<exists>m d' c'. get_directory_enumeration name_match fill True False g expression c =
      (S_OK, Some (take m (map snd (enumerate_dir name_match d expression))), c') \<and>
    map_of (enumerations c') g = Some d' \<and>
    enumerate_dir name_match d' expression = drop m (enumerate_dir name_match d expression) \<and>
    (enumerate_dir name_match d expression \<noteq> [] \<longrightarrow> 0 < m) \<and>
    m \<le> length (enumerate_dir name_match d expression)"
proof -
  let ?xs = "enumerate_dir name_match d expression"
  have pos: "\<forall>x \<in> set ?xs. enum_pos d \<le> fst x" unfolding enumerate_dir_filter by simp
  obtain m where m: "m \<le> length ?xs" "?xs \<noteq> [] \<longrightarrow> 0 < m"
    and f: "fill_entries fill (enum_pos d) (enum_pos d) ?xs [] =
      Ok (if m = 0 then enum_pos d else fst (?xs ! (m - 1)) + 1, take m (map snd ?xs))"
    using fill_entries_take [of fill ?xs "enum_pos d" "[]" "enum_pos d"] assms(1,2) pos by auto
  let ?d = "set_pos d (if m = 0 then enum_pos d else fst (?xs ! (m - 1)) + 1)"
  have nxt: "enumerate_dir name_match ?d expression = drop m ?xs"
  proof (cases "m = 0")
    case True
    have "drop (min (enum_pos d) (length (enum_index d))) (zip [0..<length (enum_index d)] (enum_index d)) =
        drop (enum_pos d) (zip [0..<length (enum_index d)] (enum_index d))" by (simp add: min_def)
    then have "enumerate_dir name_match (set_pos d (enum_pos d)) expression = ?xs"
      by (simp add: enumerate_dir_def set_pos_def del: drop_zip)
    then show ?thesis using True by simp
  next
    case False
    then show ?thesis using enumerate_dir_resume m(1) by simp
  qed
  show ?thesis
    using m nxt
    by (intro exI [of _ m] exI [of _ ?d])
      (simp add: get_directory_enumeration_def call_def assms(3) Let_def f update_conv')
qed

lemma enum_pages_all:
  assumes "\<And>buf n i. fill buf n i = None \<or> fill buf n i = Some E_BUFFER" "\<And>n i. fill [] n i = None"
  shows "map_of (enumerations c) g = Some d \<Longrightarrow> length (enumerate_dir name_match d expression) < fuel \<Longrightarrow>
    enum_pages fuel (get_directory_enumeration name_match fill True False g expression) c =
      Some (map snd (enumerate_dir name_match d expression))"
proof (induction fuel arbitrary: c d)
  case (Suc fuel)
  let ?xs = "enumerate_dir name_match d expression"
  obtain m d' c' where g: "get_directory_enumeration name_match fill True False g expression c =
      (S_OK, Some (take m (map snd ?xs)), c')"
    and d': "map_of (enumerations c') g = Some d'" "enumerate_dir name_match d' expression = drop m ?xs"
    and m: "?xs \<noteq> [] \<longrightarrow> 0 < m" "m \<le> length ?xs"
    using get_page [where fill = fill and c = c and g = g and d = d and name_match = name_match
        and expression = expression] assms Suc.prems(1) by blast
  show ?case
  proof (cases "?xs = []")
    case True
    then show ?thesis using g by simp
  next
    case False
    have "0 < length ?xs" using False by blast
    then have "length ?xs - m < fuel" using Suc.prems(2) m False by linarith
    then have "length (enumerate_dir name_match d' expression) < fuel" unfolding d'(2) by simp
    from Suc.IH [OF d'(1) this]
    have "enum_pages fuel (get_directory_enumeration name_match fill True False g expression) c' =
        Some (map snd (drop m ?xs))" unfolding d'(2) .
    moreover have "map snd ?xs = take m (map snd ?xs) @ map snd (drop m ?xs)"
      by (metis append_take_drop_id drop_map)
    moreover have "take m (map snd ?xs) \<noteq> []" using False m(1) by simp
    ultimately show ?thesis using g by (cases "take m (map snd ?xs)") simp_all
  qed
qed simp


lemma sorted_matching: "sorted cmp xs \<Longrightarrow> sorted cmp (filter P xs)"
proof (induction xs)
  case (Cons x xs)
  have "sorted cmp (filter P xs)" by (rule Cons.IH [OF sorted_Cons_imp_sorted [OF Cons.prems]])
  moreover have "compare cmp x y \<noteq> Greater" if "filter P xs = y # ys" for y ys
  proof -
    have "y \<in> set (filter P xs)" unfolding that by simp
    then show ?thesis using sorted_Cons_imp_not_less [OF Cons.prems] by simp
  qed
  ultimately show ?case by (auto intro: sorted_ConsI)
qed simp

lemma enumeration_complete:
  assumes "open_dir esearch path c = Ok es"
    and names: "\<forall>e \<in> set es. 0 \<notin> set (encode_utf16 (entry_name e))"
    and fill: "\<And>buf n i. fill buf n i = None \<or> fill buf n i = Some E_BUFFER" "\<And>n i. fill [] n i = None"
  shows "\<exists>c' ps. start_directory_enumeration cmp esearch True path g c = (S_OK, Some (), c') \<and>
    enum_pages (Suc (length es)) (get_directory_enumeration name_match fill True False g expression) c' = Some ps \<and>
    mset ps = mset (matching name_match expression
      (map (\<lambda>e. (encode_utf16 (entry_name e), file_basic_info e)) es)) \<and>
    sorted (key fst cmp) ps"
proof -
  let ?d = "from_dir_iter cmp es" and ?es = "map (\<lambda>e. (encode_utf16 (entry_name e), file_basic_info e)) es"
  let ?c = "c\<lparr>enumerations := AList.update g ?d (enumerations c)\<rparr>"
  note d = from_dir_iter_names [OF names, of cmp]
  have st: "start_directory_enumeration cmp esearch True path g c = (S_OK, Some (), ?c)"
    by (simp add: start_directory_enumeration_def call_def assms(1))
  have m: "map_of (enumerations ?c) g = Some ?d" by (simp add: update_conv')
  note xs = enumerate_dir_start [OF d(3), of name_match expression]
  have ms: "mset (matching name_match expression (entry_names ?d)) = mset (matching name_match expression ?es)"
    unfolding matching_def mset_filter d(1) by (rule refl)
  have "length (entry_names ?d) = length es" using arg_cong [OF d(1), of size] by (simp only: size_mset length_map)
  then have "length (matching name_match expression (entry_names ?d)) < Suc (length es)"
    using length_filter_le [of _ "entry_names ?d"] unfolding matching_def by (metis le_imp_less_Suc)
  then have lt: "length (enumerate_dir name_match ?d expression) < Suc (length es)"
    by (simp flip: xs)
  have "enum_pages (Suc (length es)) (get_directory_enumeration name_match fill True False g expression) ?c =
      Some (map snd (enumerate_dir name_match ?d expression))"
    by (rule enum_pages_all [OF _ _ m lt]) (rule fill)+
  then show ?thesis
    using st ms sorted_matching [OF d(2)] unfolding xs matching_def by blast
qed

section \<open>Reads\<close>

text \<open>How a command of a read ends when its pieces are to be written: with success when all of them
  were, and with a failure when one was not.\<close>

definition read_ends :: "(u64 \<Rightarrow> bytes \<Rightarrow> hresult option) \<Rightarrow> (bytes \<times> u32) list \<Rightarrow> hresult \<times> (u64 \<times> bytes) list option" where
  "read_ends write_data ps =
     (if \<forall>(b, off) \<in> set ps. write_data (ucast off) b = None then (S_OK, Some (map (\<lambda>(b, off). (ucast off, b)) ps))
      else (E_FAIL, None))"

lemma deliver_writes:
  "deliver (write_piece write_data) ps s =
     (if \<forall>(b, off) \<in> set ps. write_data (ucast off) b = None then Ok (s @ map (\<lambda>(b, off). (ucast off, b)) ps)
      else Err (MCallback 0))"
proof (induction ps arbitrary: s)
  case (Cons p ps)
  then show ?case by (cases p; cases "write_data (ucast (snd p)) (fst p)") (auto simp: write_piece_def)
qed simp

lemma get_file_data_pending:
  assumes "lookup DvdbndConfig_SEPARATORS esearch (mc_fs c) path = Ok i"
  shows "get_file_data esearch decrypt_block open_file write_data mp True True cmd (Some path) offset len c =
    (E_PENDING, None, c\<lparr>completed := completed c @
       [(cmd, complete_read decrypt_block open_file write_data i offset len mp c)]\<rparr>)"
  by (simp add: get_file_data_def call_def call_async_def lookup_path_def assms)

section \<open>Tear-down\<close>

definition busy :: "(nat \<Rightarrow> (nat option, unit) outcome) \<Rightarrow> nat \<Rightarrow> bool" where
  "busy rm j \<longleftrightarrow> (\<exists>code. rm j = Err code \<and> in_use code)"

lemma remove_loop_idle: "\<not> busy rm k \<Longrightarrow> remove_loop rm k = Some (obind (rm k) (\<lambda>_. Ok k))"
  by (subst remove_loop.simps) (auto simp: busy_def split: outcome.split)

lemma remove_loop_busy: "busy rm k \<Longrightarrow> remove_loop rm k = remove_loop rm (k + 1)"
  by (subst remove_loop.simps) (auto simp: busy_def)

lemma remove_loop_first:
  "(\<forall>j. k \<le> j \<longrightarrow> j < n \<longrightarrow> busy rm j) \<Longrightarrow> \<not> busy rm n \<Longrightarrow> k \<le> n \<Longrightarrow>
     remove_loop rm k = Some (obind (rm n) (\<lambda>_. Ok n))"
proof (induction "n - k" arbitrary: k)
  case (Suc m)
  then have "remove_loop rm (k + 1) = Some (obind (rm n) (\<lambda>_. Ok n))" by (intro Suc.hyps(1)) simp_all
  then show ?case using remove_loop_busy [of rm k] Suc.hyps(2) Suc.prems by simp
qed (simp add: remove_loop_idle)

lemma remove_loop_stops:
  assumes "remove_loop rm k = Some r"
  shows "\<exists>j \<ge> k. \<not> busy rm j"
proof (rule remove_loop.raw_induct [of "\<lambda>rm k r. \<exists>j \<ge> k. \<not> busy rm j", OF _ assms])
  fix loop rm k and r :: "(nat option, nat) outcome"
  assume IH: "\<And>rm k r. loop rm k = Some r \<Longrightarrow> \<exists>j \<ge> k. \<not> busy rm j"
    and "(case rm k of Ok _ \<Rightarrow> Some (Ok k) | Err code \<Rightarrow>
        if \<not> in_use code then Some (Err code) else loop rm (k + 1) | Panic \<Rightarrow> Some Panic) = Some r"
  then show "\<exists>j \<ge> k. \<not> busy rm j"
  proof (cases "busy rm k")
    case True
    then have "loop rm (k + 1) = Some r" using \<open>_ = Some r\<close> by (auto simp: busy_def)
    from IH [OF this] show ?thesis by (meson add_leE)
  qed blast
qed

section \<open>Properties\<close>

text \<open>C31: an enumeration of a directory lists, over however many pages, exactly the entries of the
  directory whose name matches the expression, each once, in the order of the service.\<close>

theorem projfs_enumeration_complete:
  assumes "open_dir esearch path c = Ok es"
    and "\<forall>e \<in> set es. 0 \<notin> set (encode_utf16 (entry_name e))"
    and "\<And>buf n i. fill buf n i = None \<or> fill buf n i = Some E_BUFFER" "\<And>n i. fill [] n i = None"
  shows "\<exists>c' ps. start_directory_enumeration cmp esearch True path g c = (S_OK, Some (), c') \<and>
    enum_pages (Suc (length es)) (get_directory_enumeration name_match fill True False g expression) c' = Some ps \<and>
    mset ps = mset (matching name_match expression
      (map (\<lambda>e. (encode_utf16 (entry_name e), file_basic_info e)) es)) \<and>
    sorted (key fst cmp) ps"
  using assms by (rule enumeration_complete)

text \<open>A read of the service is pending, and its task writes consecutive pieces, at their offsets, that
  are exactly the requested range of the plaintext of the file, and completes the command with
  success when the service took all of them, else with a failure.\<close>

theorem projfs_read_exact:
  assumes "lookup DvdbndConfig_SEPARATORS esearch (mc_fs c) path = Ok i"
    and "file_entry_of (mc_mount c) i = Ok file" "bdt_open open_file (m_bdts (mc_mount c)) file mp = Ok (bdt, mp')"
    and "archive_ok bdt data file" "plaintext_of decrypt_block (mc_mount c) file data rs pt"
    and "whole_blocks rs (req_start file offset) (req_stop file offset len)"
  shows "\<exists>ps. get_file_data esearch decrypt_block open_file write_data mp True True cmd (Some path) offset len c =
      (E_PENDING, None, c\<lparr>completed := completed c @ [(cmd, read_ends write_data ps)]\<rparr>) \<and>
    consecutive pt (req_start file offset) ps \<and>
    concat (map fst ps) = slice (req_start file offset) (req_stop file offset len) pt"
proof -
  obtain ps where ps: "read_file decrypt_block open_file (mc_mount c) i offset len (write_piece write_data) mp [] =
      deliver (write_piece write_data) ps []" "consecutive pt (req_start file offset) ps"
    "concat (map fst ps) = slice (req_start file offset) (req_stop file offset len) pt"
    using read_file_plaintext [OF assms(2-6), of "write_piece write_data" "[]"]
    by blast
  then have "complete_read decrypt_block open_file write_data i offset len mp c = read_ends write_data ps"
    by (simp add: complete_read_def deliver_writes read_ends_def)
  then show ?thesis using ps(2,3) get_file_data_pending [OF assms(1)] by auto
qed

text \<open>The tear-down returns exactly when some attempt to remove the directory does not find it
  in use, and then with the result of the first such attempt and, if that succeeded, of
  creating the directory.\<close>

theorem interrupt_returns:
  "interrupt rm create =
     (if \<forall>j. busy rm j then None else Some (obind (rm (LEAST j. \<not> busy rm j)) (\<lambda>_. create)))"
proof (cases "\<forall>j. busy rm j")
  case True
  then have "remove_loop rm 0 = None" using remove_loop_stops [of rm 0] by (cases "remove_loop rm 0") auto
  then show ?thesis using True by (simp add: interrupt_def)
next
  case False
  let ?n = "LEAST j. \<not> busy rm j"
  obtain k where "\<not> busy rm k" using False by blast
  then have idle: "\<not> busy rm ?n" by (rule LeastI)
  have before: "\<forall>j. 0 \<le> j \<longrightarrow> j < ?n \<longrightarrow> busy rm j" by (auto dest: not_less_Least)
  have "remove_loop rm 0 = Some (obind (rm ?n) (\<lambda>_. Ok ?n))" by (rule remove_loop_first [OF before idle le0])
  then show ?thesis using False by (simp add: interrupt_def obind_assoc)
qed

text \<open>The identifier of a mount point is stable: what one mount made or found, every later
  mount finds, and nothing is written again.\<close>

theorem mount_guid_stable:
  assumes "get_or_create_mount_guid fresh open_file mountpoint disk = (Ok guid, disk')"
  shows "get_or_create_mount_guid fresh' open_file' mountpoint disk' = (Ok guid, disk')"
proof -
  let ?path = "guid_path mountpoint"
  have "of_nat (unat guid mod 256 ^ 16) = guid" using unsigned_less [of guid, where 'a = nat] by simp
  then have g: "of_nat (le_nat (nat_le 16 (unat guid))) = guid" by (simp only: le_nat_nat_le)
  have "map_of disk' ?path = Some bs \<Longrightarrow> length bs = 16 \<Longrightarrow> of_nat (le_nat bs) = guid \<Longrightarrow> ?thesis" for bs
    by (simp add: get_or_create_mount_guid_def Let_def)
  moreover have "create_mount_guid fresh open_file ?path disk'' = (Ok guid, disk') \<Longrightarrow>
      map_of disk' ?path = Some (nat_le 16 (unat guid))" for disk''
    by (auto simp: create_mount_guid_def update_conv' split: outcome.splits)
  moreover have "(\<exists>bs. map_of disk ?path = Some bs \<and> length bs = 16 \<and> of_nat (le_nat bs) = guid \<and> disk' = disk) \<or>
      (\<exists>disk''. create_mount_guid fresh open_file ?path disk'' = (Ok guid, disk'))"
  proof (cases "map_of disk ?path")
    case (Some bs)
    then show ?thesis using assms by (cases "length bs = 16") (auto simp: get_or_create_mount_guid_def Let_def)
  qed (use assms in \<open>auto simp: get_or_create_mount_guid_def Let_def\<close>)
  moreover have "length (nat_le 16 (unat guid)) = 16" by simp
  ultimately show ?thesis using g by blast
qed


section \<open>Concrete runs\<close>

definition sample_context :: mount_context where
  "sample_context = mount_context_new sample_served"

lemma sample_context_fs [simp]: "mc_mount sample_context = sample_served"
  by (simp add: sample_context_def mount_context_new_def)

definition sample_info :: basic_info where
  "sample_info = \<lparr>is_directory = False, info_size = 5\<rparr>"

lemma sample_open_dir:
  "open_dir linear_search (Some []) sample_context =
     Ok [\<lparr>inode = 0, entry_name = ''a'', kind = EFile sample_plain_file\<rparr>,
         \<lparr>inode = 1, entry_name = ''b'', kind = EFile sample_plain_file\<rparr>]"
  using sample_served_root sample_served_entries(1) sample_served_nodes
  by (simp add: open_dir_def lookup_path_def lookup_def INODE_ROOT_def)

lemma sample_names: "encode_utf16 ''a'' = [97]" "encode_utf16 ''b'' = [98]"
  by (simp_all add: encode_utf16_def utf16_units_def)

theorem projfs_enumeration_complete_witness:
  "\<exists>c' ps. start_directory_enumeration flat linear_search True (Some []) 7 sample_context = (S_OK, Some (), c') \<and>
     enum_pages 3 (get_directory_enumeration (\<lambda>n x. n = x)
       (\<lambda>buf n i. if buf = [] then None else Some E_BUFFER) True False 7 None) c' = Some ps \<and>
     mset ps = {#([97], sample_info), ([98], sample_info)#}"
proof -
  let ?es = "[\<lparr>inode = 0, entry_name = ''a'', kind = EFile sample_plain_file\<rparr>,
    \<lparr>inode = 1, entry_name = ''b'', kind = EFile sample_plain_file\<rparr>]"
  have z: "\<forall>e \<in> set ?es. 0 \<notin> set (encode_utf16 (entry_name e))" by (simp add: sample_names)
  have i: "map (\<lambda>e. (encode_utf16 (entry_name e), file_basic_info e)) ?es = [([97], sample_info), ([98], sample_info)]"
    by (simp add: sample_names file_basic_info_def sample_info_def sample_plain_file_def unpadded_len_def)
  have "\<exists>c' ps. start_directory_enumeration flat linear_search True (Some []) 7 sample_context = (S_OK, Some (), c') \<and>
     enum_pages (Suc (length ?es)) (get_directory_enumeration (\<lambda>n x. n = x)
       (\<lambda>buf n i. if buf = [] then None else Some E_BUFFER) True False 7 None) c' = Some ps \<and>
     mset ps = mset (matching (\<lambda>n x. n = x) None (map (\<lambda>e. (encode_utf16 (entry_name e), file_basic_info e)) ?es)) \<and>
     sorted (key fst flat) ps"
    by (rule projfs_enumeration_complete [OF sample_open_dir z]) simp_all
  then show ?thesis
    unfolding i by (auto simp: matching_def numeral_3_eq_3 simp del: enum_pages.simps)
qed

theorem projfs_read_exact_witness:
  "\<exists>c'. get_file_data linear_search (\<lambda>k b. b) (\<lambda>_. Ok sample_bdt) (\<lambda>_ _. None) [] True True 8 (Some ''a'') 0 3
     sample_context = (E_PENDING, None, c') \<and> (\<exists>ps. completed c' = [(8, S_OK, Some ps)] \<and> concat (map snd ps) = [3, 4, 5])"
proof -
  have l: "lookup DvdbndConfig_SEPARATORS linear_search (mc_fs sample_context) ''a'' = Ok 2"
    using sample_served_lookup by (simp add: lookup_def INODE_ROOT_def)
  have f: "file_entry_of (mc_mount sample_context) 2 = Ok sample_plain_file"
    using sample_served_entries(2) by (simp add: file_entry_of_def)
  have c: "completed sample_context = []" by (simp add: sample_context_def mount_context_new_def)
  have "\<exists>ps. get_file_data linear_search (\<lambda>k b. b) (\<lambda>_. Ok sample_bdt) (\<lambda>_ _. None) [] True True 8 (Some ''a'') 0 3
      sample_context = (E_PENDING, None, sample_context\<lparr>completed := completed sample_context @
        [(8, read_ends (\<lambda>_ _. None) ps)]\<rparr>) \<and>
      consecutive [3, 4, 5, 6, 7, 8] (req_start sample_plain_file 0) ps \<and>
      concat (map fst ps) = slice (req_start sample_plain_file 0) (req_stop sample_plain_file 0 3) [3, 4, 5, 6, 7, 8]"
    by (rule projfs_read_exact [where rs = "[]", OF l f _ sample_served_archive(1)]) (simp_all add: sample_served_archive(2,3))
  then obtain ps where ps: "get_file_data linear_search (\<lambda>k b. b) (\<lambda>_. Ok sample_bdt) (\<lambda>_ _. None) [] True True 8 (Some ''a'') 0 3
      sample_context = (E_PENDING, None, sample_context\<lparr>completed := completed sample_context @
        [(8, S_OK, Some (map (\<lambda>(b, off :: u32). (ucast off :: u64, b)) ps))]\<rparr>)"
    "concat (map fst ps) = slice (req_start sample_plain_file 0) (req_stop sample_plain_file 0 3) [3, 4, 5, 6, 7, 8]"
    by (elim exE conjE) (rule that, simp_all add: read_ends_def)
  moreover have "slice (req_start sample_plain_file 0) (req_stop sample_plain_file 0 3) [3, 4, 5, 6, 7, 8] = [3, 4, 5 :: u8]"
    by (simp add: req_start_def req_stop_def unpadded_len_def sample_plain_file_def slice_def)
  moreover have "map snd (map (\<lambda>(b, off :: u32). (ucast off :: u64, b)) ps) = map fst ps" by (induction ps) auto
  ultimately show ?thesis using c by (auto simp del: map_map)
qed

theorem mount_guid_stable_witness:
  "get_or_create_mount_guid (Ok 5) (\<lambda>_. Ok ()) ''Z:/mnt'' [] =
     (Ok 5, [(''Z:/~mnt.GUID'', nat_le 16 5)]) \<and>
   get_or_create_mount_guid (Err None) (\<lambda>_. Ok ()) ''Z:/mnt'' [(''Z:/~mnt.GUID'', nat_le 16 5)] =
     (Ok 5, [(''Z:/~mnt.GUID'', nat_le 16 5)])"
proof -
  have p: "guid_path ''Z:/mnt'' = ''Z:/~mnt.GUID''" by code_simp
  have "get_or_create_mount_guid (Ok 5) (\<lambda>_. Ok ()) ''Z:/mnt'' [] = (Ok 5, [(''Z:/~mnt.GUID'', nat_le 16 5)])"
    by (simp add: get_or_create_mount_guid_def p create_mount_guid_def del: nat_le.simps)
  with mount_guid_stable [OF this] show ?thesis by blast
qed

end
