(* ===== verification/Dirs.thy ===== *)
theory Dirs
  imports DvdbndFs
begin

text \<open>
  Files on disk: the archives of a mount (\<open>src/dvdbnd/path.rs\<close>), the breadth-first walk over
  a directory and the names taken from a path (\<open>src/dvdbnd.rs\<close>), and the dictionary read
  from a directory (\<open>src/dvdbnd/dict.rs\<close>). Paths are strings with \<open>/\<close> as the separator; the
  listing of a directory and the contents of a file are parameters.
\<close>

section \<open>Paths\<close>

text \<open>\<open>Path::file_name\<close> splits a name at its last dot, unless the dot starts it.\<close>

definition rsplit_dot :: "string \<Rightarrow> string \<times> string option" where
  "rsplit_dot name =
     (let ext = takeWhile (\<lambda>c. c \<noteq> CHR ''.'') (rev name);
          before = take (length name - length ext - 1) name
      in if length ext = length name \<or> before = [] then (name, None) else (before, Some (rev ext)))"

definition path_extension :: "string \<Rightarrow> string option" where
  "path_extension path = Option.bind (path_file_name path) (\<lambda>name. snd (rsplit_dot name))"

text \<open>The path without the separators and \<open>.\<close> components behind its last component, which
  \<open>Path\<close> ignores.\<close>

fun trim_end :: "string \<Rightarrow> string" where
  "trim_end r =
     (case r of
        CHR ''/'' # r' \<Rightarrow> trim_end r'
      | CHR ''.'' # CHR ''/'' # r' \<Rightarrow> trim_end (CHR ''/'' # r')
      | _ \<Rightarrow> r)"

definition with_extension :: "string \<Rightarrow> string \<Rightarrow> string" where
  "with_extension ext path =
     (case path_file_name path of
        None \<Rightarrow> path
      | Some name \<Rightarrow>
          (let trimmed = rev (trim_end (rev path))
           in take (length trimmed - length name) trimmed @ fst (rsplit_dot name) @
              (if ext = [] then [] else CHR ''.'' # ext)))"

text \<open>\<open>Path::parent\<close>, as far as its last component is looked at: the name of the directory a
  file lies in.\<close>

definition parent_name :: "string \<Rightarrow> string option" where
  "parent_name path =
     (case rev (filter (\<lambda>c. c \<noteq> [] \<and> c \<noteq> ''.'') (split_on ''/'' path)) of
        _ # c # _ \<Rightarrow> if c = ''..'' then None else Some c
      | _ \<Rightarrow> None)"

section \<open>Archives\<close>

type_synonym bhd_path = string

definition to_bdt :: "bhd_path \<Rightarrow> string" where
  "to_bdt path = with_extension ''bdt'' path"

text \<open>\<open>ArchivePaths::new\<close>: an index map keeps the position of the first path with a name and
  the value of the last.\<close>

definition archive_entry :: "string \<Rightarrow> (string \<times> bhd_path) option" where
  "archive_entry path =
     Option.bind (path_file_name path) (\<lambda>name.
     Option.bind (strip_bhd_extension name) (\<lambda>name.
       Some (to_ascii_lowercase name, path)))"

definition archive_paths :: "string list \<Rightarrow> (string \<times> bhd_path) list" where
  "archive_paths paths = map_extend [] (List.map_filter archive_entry paths)"

section \<open>Walking a directory\<close>

type_synonym 'a io = "(nat, 'a) outcome"

text \<open>What \<open>read_dir\<close> yields for an entry: its path and whether it is a directory, each of
  which can fail.\<close>

type_synonym dir_entry = "(string \<times> bool io) io"

text \<open>\<open>map_result\<close>: a directory is queued, everything else is handed on.\<close>

definition map_result :: "dir_entry \<Rightarrow> string list \<Rightarrow> string io option \<times> string list" where
  "map_result entry dirs =
     (case entry of
        Err e \<Rightarrow> (Some (Err e), dirs)
      | Panic \<Rightarrow> (Some Panic, dirs)
      | Ok (path, ty) \<Rightarrow>
          (case ty of
             Ok is_dir \<Rightarrow> if is_dir then (None, dirs @ [path]) else (Some (Ok path), dirs)
           | Err e \<Rightarrow> (Some (Err e), dirs)
           | Panic \<Rightarrow> (Some Panic, dirs)))"

text \<open>All the items the iterator yields, from the entries left of the current directory and the
  directories queued; the walk over an endless hierarchy does not return.\<close>

partial_function (option) walk_dirs ::
  "(string \<Rightarrow> dir_entry list io) \<Rightarrow> dir_entry list \<Rightarrow> string list \<Rightarrow> string io list option" where
  "walk_dirs read_dir iter dirs =
     (case iter of
        entry # iter \<Rightarrow>
          (case map_result entry dirs of
             (Some res, dirs) \<Rightarrow> Option.bind (walk_dirs read_dir iter dirs) (\<lambda>rest. Some (res # rest))
           | (None, dirs) \<Rightarrow> walk_dirs read_dir iter dirs)
      | [] \<Rightarrow>
          (case dirs of
             [] \<Rightarrow> Some []
           | dir # dirs \<Rightarrow>
               (case read_dir dir of
                  Ok next \<Rightarrow> walk_dirs read_dir next dirs
                | Err e \<Rightarrow> Option.bind (walk_dirs read_dir [] dirs) (\<lambda>rest. Some (Err e # rest))
                | Panic \<Rightarrow> Some [Panic])))"

definition recursive_read_files ::
  "(string \<Rightarrow> dir_entry list io) \<Rightarrow> string \<Rightarrow> string io list option io" where
  "recursive_read_files read_dir dir = obind (read_dir dir) (\<lambda>iter. Ok (walk_dirs read_dir iter []))"

text \<open>\<open>prefix_and_parent_to_lowercase\<close>.\<close>

definition unwrap_or_default :: "string option \<Rightarrow> string" where
  "unwrap_or_default x = (case x of Some s \<Rightarrow> s | None \<Rightarrow> [])"

definition prefix_and_parent_to_lowercase :: "string \<Rightarrow> string \<times> string" where
  "prefix_and_parent_to_lowercase path =
     (let pre = unwrap_or_default (path_file_prefix path);
          parent = unwrap_or_default (parent_name path)
      in (to_ascii_lowercase pre, to_ascii_lowercase parent))"

section \<open>The dictionary of a game\<close>

definition extension_is :: "string \<Rightarrow> string \<Rightarrow> bool" where
  "extension_is ext path \<longleftrightarrow> (case path_extension path of Some x \<Rightarrow> eq_ignore_ascii_case x ext | None \<Rightarrow> False)"

fun read_dictionary ::
  "(string \<Rightarrow> string io) \<Rightarrow> string \<Rightarrow> string io list \<Rightarrow> dictionary \<Rightarrow> dictionary io" where
  "read_dictionary read_to_string game [] by_bnd = Ok by_bnd"
| "read_dictionary read_to_string game (f # fs) by_bnd =
     obind f (\<lambda>path.
       if extension_is ''txt'' path
       then (case prefix_and_parent_to_lowercase path of
               (pre, parent) \<Rightarrow>
                 if \<not> eq_ignore_ascii_case game parent then read_dictionary read_to_string game fs by_bnd
                 else obind (read_to_string path) (\<lambda>contents.
                        read_dictionary read_to_string game fs (AList.update pre contents by_bnd)))
       else read_dictionary read_to_string game fs by_bnd)"

text \<open>The loop over the files of the directory, when the walk over it returns.\<close>

definition from_dir_and_game ::
  "(string \<Rightarrow> dir_entry list io) \<Rightarrow> (string \<Rightarrow> string io) \<Rightarrow> string \<Rightarrow> string \<Rightarrow> dictionary io option" where
  "from_dir_and_game read_dir read_to_string dir game =
     (case recursive_read_files read_dir dir of
        Err e \<Rightarrow> Some (Err e)
      | Panic \<Rightarrow> Some Panic
      | Ok fs \<Rightarrow> map_option (\<lambda>fs. read_dictionary read_to_string game fs []) fs)"

section \<open>The walk finds every file once\<close>

text \<open>A hierarchy of directories, and that the listings are those of the hierarchy.\<close>

datatype dtree = DFile string | DDir string "dtree list"

fun item_of :: "dtree \<Rightarrow> dir_entry" where
  "item_of (DFile p) = Ok (p, Ok False)"
| "item_of (DDir p ts) = Ok (p, Ok True)"

fun files_of :: "dtree \<Rightarrow> string list" where
  "files_of (DFile p) = [p]"
| "files_of (DDir p ts) = concat (map files_of ts)"

fun served :: "(string \<Rightarrow> dir_entry list io) \<Rightarrow> dtree \<Rightarrow> bool" where
  "served read_dir (DFile p) \<longleftrightarrow> True"
| "served read_dir (DDir p ts) \<longleftrightarrow> read_dir p = Ok (map item_of ts) \<and> (\<forall>t \<in> set ts. served read_dir t)"

fun dir_path :: "dtree \<Rightarrow> string" where
  "dir_path (DFile p) = p"
| "dir_path (DDir p ts) = p"

fun is_dir :: "dtree \<Rightarrow> bool" where
  "is_dir (DFile p) = False"
| "is_dir (DDir p ts) = True"

text \<open>The weight of what is left: a directory counts for more than its entries.\<close>

fun weight :: "dtree \<Rightarrow> nat" where
  "weight (DFile p) = 2"
| "weight (DDir p ts) = 2 + sum_list (map weight ts)"

fun queued :: "dtree \<Rightarrow> nat" where
  "queued (DFile p) = 1"
| "queued (DDir p ts) = 1 + sum_list (map weight ts)"

lemma walk_dirs_all:
  assumes "\<forall>t \<in> set ts. served read_dir t" "\<forall>d \<in> set ds. served read_dir d \<and> is_dir d"
  shows "\<exists>fs. walk_dirs read_dir (map item_of ts) (map dir_path ds) = Some (map Ok fs) \<and>
    mset fs = mset (concat (map files_of (ts @ ds)))"
  using assms
proof (induction "sum_list (map weight ts) + sum_list (map queued ds)" arbitrary: ts ds rule: less_induct)
  case less
  show ?case
  proof (cases ts)
    case Nil
    show ?thesis
    proof (cases ds)
      case Nil
      then show ?thesis using \<open>ts = []\<close> by (subst walk_dirs.simps) simp
    next
      case (Cons d ds')
      then obtain p us where d: "d = DDir p us" using less.prems(2) by (cases d) auto
      have us: "read_dir p = Ok (map item_of us)" "\<forall>t \<in> set us. served read_dir t"
        using less.prems(2) by (auto simp: Cons d)
      obtain fs where "walk_dirs read_dir (map item_of us) (map dir_path ds') = Some (map Ok fs)"
        "mset fs = mset (concat (map files_of (us @ ds')))"
        using less.hyps [of us ds'] less.prems us(2) by (auto simp: \<open>ts = []\<close> Cons d)
      then show ?thesis by (subst walk_dirs.simps) (auto simp: \<open>ts = []\<close> Cons d us(1) intro!: exI [of _ fs])
    qed
  next
    case (Cons t ts')
    show ?thesis
    proof (cases t)
      case (DFile p)
      obtain fs where "walk_dirs read_dir (map item_of ts') (map dir_path ds) = Some (map Ok fs)"
        "mset fs = mset (concat (map files_of (ts' @ ds)))"
        using less.hyps [of ts' ds] less.prems by (auto simp: Cons DFile)
      then show ?thesis
        by (subst walk_dirs.simps) (auto simp: Cons DFile map_result_def intro!: exI [of _ "p # fs"])
    next
      case (DDir p us)
      obtain fs where "walk_dirs read_dir (map item_of ts') (map dir_path (ds @ [t])) = Some (map Ok fs)"
        "mset fs = mset (concat (map files_of (ts' @ ds @ [t])))"
        using less.hyps [of ts' "ds @ [t]"] less.prems by (auto simp: Cons DDir)
      then show ?thesis
        by (subst walk_dirs.simps) (auto simp: Cons DDir map_result_def ac_simps)
    qed
  qed
qed

lemma recursive_read_files_all:
  assumes "served read_dir (DDir dir ts)"
  shows "\<exists>fs. recursive_read_files read_dir dir = Ok (Some (map Ok fs)) \<and> mset fs = mset (files_of (DDir dir ts))"
  using walk_dirs_all [of ts read_dir "[]"] assms by (auto simp: recursive_read_files_def)


section \<open>Properties\<close>

text \<open>C32: on a hierarchy of directories the walk returns, without an error, and yields every file
  in it exactly once, however deep it lies.\<close>

theorem recursive_read_files_complete:
  assumes "served read_dir (DDir dir ts)"
  shows "\<exists>fs. recursive_read_files read_dir dir = Ok (Some (map Ok fs)) \<and> mset fs = mset (files_of (DDir dir ts))"
  using assms by (rule recursive_read_files_all)

definition sample_dir :: "string \<Rightarrow> dir_entry list io" where
  "sample_dir path =
     (if path = ''d'' then Ok [Ok (''d/er'', Ok True), Ok (''d/x.txt'', Ok False)]
      else if path = ''d/er'' then Ok [Ok (''d/er/Data0.txt'', Ok False)]
      else Err 2)"

lemma sample_dir_served: "served sample_dir (DDir ''d'' [DDir ''d/er'' [DFile ''d/er/Data0.txt''], DFile ''d/x.txt''])"
  by (simp add: sample_dir_def)

theorem recursive_read_files_complete_witness:
  "\<exists>fs. recursive_read_files sample_dir ''d'' = Ok (Some (map Ok fs)) \<and> mset fs = {#''d/x.txt'', ''d/er/Data0.txt''#}"
  using recursive_read_files_complete [OF sample_dir_served] by (simp add: add_mset_commute)

text \<open>The files of a game in a hierarchy, by the key they get in its dictionary.\<close>

definition game_file :: "string \<Rightarrow> string \<Rightarrow> string \<Rightarrow> bool" where
  "game_file game k path \<longleftrightarrow> extension_is ''txt'' path \<and>
     (\<exists>parent. prefix_and_parent_to_lowercase path = (k, parent) \<and> eq_ignore_ascii_case game parent)"

lemma read_dictionary_files:
  "read_dictionary read_to_string game (map Ok fs) m = Ok d \<Longrightarrow>
     (\<forall>k v. map_of d k = Some v \<longrightarrow> map_of m k = Some v \<or>
        (\<exists>path \<in> set fs. game_file game k path \<and> read_to_string path = Ok v)) \<and>
     (\<forall>k. map_of m k \<noteq> None \<or> (\<exists>path \<in> set fs. game_file game k path) \<longrightarrow> map_of d k \<noteq> None)"
proof (induction fs arbitrary: m)
  case (Cons path fs)
  obtain pre parent where p: "prefix_and_parent_to_lowercase path = (pre, parent)" by fastforce
  show ?case
  proof (cases "extension_is ''txt'' path \<and> eq_ignore_ascii_case game parent")
    case True
    then obtain contents where c: "read_to_string path = Ok contents"
      "read_dictionary read_to_string game (map Ok fs) (AList.update pre contents m) = Ok d"
      using Cons.prems p by (cases "read_to_string path") auto
    have "game_file game k path \<longleftrightarrow> k = pre" for k using True p by (auto simp: game_file_def)
    with Cons.IH [OF c(2)] c(1) show ?thesis by (auto simp: update_conv' split: if_splits)
  next
    case False
    then have "\<not> game_file game k path" for k using p by (auto simp: game_file_def)
    moreover have "read_dictionary read_to_string game (map Ok fs) m = Ok d"
      using False Cons.prems p by (auto split: if_splits)
    ultimately show ?thesis using Cons.IH by auto
  qed
qed simp

text \<open>C33: the dictionary of a game holds, for every name, the contents of a text file of that name
  in a directory of the game, and misses none of those names.\<close>

theorem dictionary_of_game:
  assumes "served read_dir (DDir dir ts)"
    and "from_dir_and_game read_dir read_to_string dir game = Some (Ok d)"
  shows "(\<forall>k v. map_of d k = Some v \<longrightarrow>
      (\<exists>path \<in> set (files_of (DDir dir ts)). game_file game k path \<and> read_to_string path = Ok v)) \<and>
    (\<forall>path \<in> set (files_of (DDir dir ts)). \<forall>k. game_file game k path \<longrightarrow> map_of d k \<noteq> None)"
proof -
  obtain fs where fs: "recursive_read_files read_dir dir = Ok (Some (map Ok fs))"
    "mset fs = mset (files_of (DDir dir ts))" using recursive_read_files_all [OF assms(1)] by blast
  have "read_dictionary read_to_string game (map Ok fs) [] = Ok d"
    using assms(2) by (simp add: from_dir_and_game_def fs(1))
  moreover have "set fs = set (files_of (DDir dir ts))" using fs(2) by (metis set_mset_mset)
  ultimately show ?thesis
    using read_dictionary_files [of read_to_string game fs "[]" d] by (simp only: map_of.simps) blast
qed

theorem dictionary_of_game_witness:
  "\<exists>d. from_dir_and_game sample_dir (\<lambda>_. Ok ''/a'') ''d'' ''ER'' = Some (Ok d) \<and> map_of d ''data0'' \<noteq> None"
proof -
  obtain fs where fs: "recursive_read_files sample_dir ''d'' = Ok (Some (map Ok fs))"
    using recursive_read_files_all [OF sample_dir_served] by blast
  have "\<exists>d. read_dictionary (\<lambda>_. Ok ''/a'') ''ER'' (map Ok xs) m = Ok d" for xs m
    by (induction xs arbitrary: m) (auto split: prod.split)
  then obtain d where d: "from_dir_and_game sample_dir (\<lambda>_. Ok ''/a'') ''d'' ''ER'' = Some (Ok d)"
    using fs by (auto simp: from_dir_and_game_def)
  have "extension_is ''txt'' ''d/er/Data0.txt''"
    "prefix_and_parent_to_lowercase ''d/er/Data0.txt'' = (''data0'', ''er'')"
    "eq_ignore_ascii_case ''ER'' ''er''" by code_simp+
  then have "game_file ''ER'' ''data0'' ''d/er/Data0.txt''" by (simp add: game_file_def)
  with dictionary_of_game [OF sample_dir_served d] d show ?thesis by auto
qed

end
