(* ===== verification/Keys.thy ===== *)
theory Keys
  imports Dirs Rsa Mount
begin

text \<open>
  The keys of the archives (\<open>src/dvdbnd/keys.rs\<close>): the PEM files of a directory grouped by the
  game whose directory they lie in, and the search for the key that opens each header, with
  the keys read so far and the game settled on as the state of the loop. The walk over the
  directory, the contents of the files and the check of a key on a header are parameters; the
  check the program uses is \<open>header_opens\<close>.
\<close>

datatype key_error = KIo nat | KDecode decode_error

record key_set =
  keys_game :: "string option"
  keys_by_path :: "(bhd_path \<times> rsa_key option) list"

type_synonym pem_path_map = "(string \<times> string list) list"

section \<open>PEM files by game\<close>

text \<open>\<open>binary_search_by_key\<close> of a slice sorted by the key: where it is, or where it belongs.\<close>

definition binary_search :: "string \<Rightarrow> string list \<Rightarrow> nat + nat" where
  "binary_search x xs =
     (let i = length (takeWhile (\<lambda>y. y < x) xs)
      in if i < length xs \<and> xs ! i = x then Inl i else Inr i)"

fun group_pems :: "string io list \<Rightarrow> pem_path_map \<Rightarrow> pem_path_map io" where
  "group_pems [] m = Ok m"
| "group_pems (f # fs) m =
     (case f of
        Err e \<Rightarrow> Err e
      | Panic \<Rightarrow> Panic
      | Ok path \<Rightarrow>
          if \<not> extension_is ''pem'' path then group_pems fs m
          else let game = to_ascii_lowercase (unwrap_or_default (parent_name path))
               in case binary_search game (map fst m) of
                    Inl i \<Rightarrow> group_pems fs (m[i := (fst (m ! i), snd (m ! i) @ [path])])
                  | Inr i \<Rightarrow> group_pems fs (take i m @ (game, [path]) # drop i m))"

definition find_pem_paths :: "(string \<Rightarrow> dir_entry list io) \<Rightarrow> string \<Rightarrow> pem_path_map io option" where
  "find_pem_paths read_dir keys_dir =
     (case recursive_read_files read_dir keys_dir of
        Err e \<Rightarrow> Some (Err e)
      | Panic \<Rightarrow> Some Panic
      | Ok fs \<Rightarrow> map_option (\<lambda>fs. group_pems fs []) fs)"

section \<open>Matching keys\<close>

type_synonym key_check = "bhd_path \<Rightarrow> rsa_key option \<Rightarrow> (key_error, bool) outcome"

record key_state =
  ks_game :: "string option"
  ks_game_index :: "nat option"
  ks_cache :: "(string \<times> rsa_key) list"
  ks_by_path :: "(bhd_path \<times> rsa_key option) list"

text \<open>The key of a PEM file, read once.\<close>

definition load_key ::
  "(string \<Rightarrow> bytes option) \<Rightarrow> (string \<Rightarrow> string io) \<Rightarrow> string \<Rightarrow> (string \<times> rsa_key) list \<Rightarrow>
     (key_error, rsa_key \<times> (string \<times> rsa_key) list) outcome" where
  "load_key base64 read_to_string pem_path cache =
     (case map_of cache pem_path of
        Some rk \<Rightarrow> Ok (rk, cache)
      | None \<Rightarrow>
          obind (map_err KIo (read_to_string pem_path)) (\<lambda>pem.
          obind (map_err KDecode (decode_from_pem base64 pem)) (\<lambda>rk.
            Ok (rk, AList.update pem_path rk cache))))"

text \<open>The inner loop tries all keys of a game and does not stop at a match: a later key replaces
  an earlier one.\<close>

fun try_pems ::
  "(string \<Rightarrow> bytes option) \<Rightarrow> (string \<Rightarrow> string io) \<Rightarrow> key_check \<Rightarrow> bhd_path \<Rightarrow> string \<Rightarrow> string list \<Rightarrow>
     key_state \<Rightarrow> (key_error, key_state) outcome" where
  "try_pems base64 read_to_string f bhd game_name [] st = Ok st"
| "try_pems base64 read_to_string f bhd game_name (pem_path # rest) st =
     obind (load_key base64 read_to_string pem_path (ks_cache st)) (\<lambda>(rk, cache).
       let st = st\<lparr>ks_cache := cache\<rparr>
       in obind (f bhd (Some rk)) (\<lambda>ok.
            try_pems base64 read_to_string f bhd game_name rest
              (if ok then st\<lparr>ks_by_path := AList.update bhd (Some rk) (ks_by_path st),
                            ks_game := (case ks_game st of None \<Rightarrow> Some game_name | g \<Rightarrow> g)\<rparr>
               else st)))"

fun try_games ::
  "(string \<Rightarrow> bytes option) \<Rightarrow> (string \<Rightarrow> string io) \<Rightarrow> key_check \<Rightarrow> bhd_path \<Rightarrow> pem_path_map \<Rightarrow>
     key_state \<Rightarrow> (key_error, key_state) outcome" where
  "try_games base64 read_to_string f bhd [] st = Ok st"
| "try_games base64 read_to_string f bhd ((game_name, pem_paths) # rest) st =
     obind (try_pems base64 read_to_string f bhd game_name pem_paths st)
       (try_games base64 read_to_string f bhd rest)"

text \<open>The game to look in: the one settled on, looked up once it is known, else all of them.\<close>

definition settle_game :: "pem_path_map \<Rightarrow> key_state \<Rightarrow> key_state" where
  "settle_game pem_paths st =
     (case ks_game_index st of
        Some i \<Rightarrow> st
      | None \<Rightarrow> st\<lparr>ks_game_index :=
          Option.bind (ks_game st) (\<lambda>game.
            case binary_search game (map fst pem_paths) of Inl i \<Rightarrow> Some i | Inr _ \<Rightarrow> None)\<rparr>)"

definition games_to_try :: "pem_path_map \<Rightarrow> key_state \<Rightarrow> pem_path_map" where
  "games_to_try pem_paths st = (case ks_game_index st of Some i \<Rightarrow> [pem_paths ! i] | None \<Rightarrow> pem_paths)"

fun match_archives ::
  "(string \<Rightarrow> bytes option) \<Rightarrow> (string \<Rightarrow> string io) \<Rightarrow> key_check \<Rightarrow> pem_path_map \<Rightarrow> bhd_path list \<Rightarrow>
     key_state \<Rightarrow> (key_error, key_state) outcome" where
  "match_archives base64 read_to_string f pem_paths [] st = Ok st"
| "match_archives base64 read_to_string f pem_paths (bhd # rest) st =
     obind (f bhd None) (\<lambda>plain.
       if plain
       then match_archives base64 read_to_string f pem_paths rest
              (st\<lparr>ks_by_path := AList.update bhd None (ks_by_path st)\<rparr>)
       else let st = settle_game pem_paths st
            in obind (try_games base64 read_to_string f bhd (games_to_try pem_paths st) st)
                 (match_archives base64 read_to_string f pem_paths rest))"

definition into_keys_for_game_with_filter ::
  "(string \<Rightarrow> dir_entry list io) \<Rightarrow> (string \<Rightarrow> bytes option) \<Rightarrow> (string \<Rightarrow> string io) \<Rightarrow> key_check \<Rightarrow>
     (string \<times> bhd_path) list \<Rightarrow> string \<Rightarrow> string option \<Rightarrow> (key_error, key_set) outcome option" where
  "into_keys_for_game_with_filter read_dir base64 read_to_string f archives keys_dir game =
     map_option (\<lambda>pem_paths.
       obind (map_err KIo pem_paths) (\<lambda>pem_paths.
       obind (match_archives base64 read_to_string f pem_paths (map snd archives)
                \<lparr>ks_game = game, ks_game_index = None, ks_cache = [], ks_by_path = []\<rparr>) (\<lambda>st.
         Ok \<lparr>keys_game = ks_game st, keys_by_path = ks_by_path st\<rparr>)))
       (find_pem_paths read_dir keys_dir)"

text \<open>The check on a header: its first bytes, decrypted when there is a key, are a valid header.
  \<open>open_file\<close> gives what the reads of the file return.\<close>

definition header_opens :: "(bhd_path \<Rightarrow> bytes list io) \<Rightarrow> key_check" where
  "header_opens open_file bhd rk =
     obind (map_err KIo (open_file bhd)) (\<lambda>reads.
       let res = (case rk of
                    Some rk \<Rightarrow>
                      (case rsa_read rk BHD5_HEADER_LEN (rsa_decryptor_new rk reads) of
                         Ok (bs, _) \<Rightarrow> Ok bs | Err e \<Rightarrow> Err () | Panic \<Rightarrow> Panic)
                  | None \<Rightarrow>
                      (let bs = concat (takeWhile (\<lambda>c. c \<noteq> []) reads)
                       in if length bs < BHD5_HEADER_LEN then Err () else Ok (take BHD5_HEADER_LEN bs)))
       in case res of
            Err _ \<Rightarrow> Ok False
          | Panic \<Rightarrow> Panic
          | Ok hb \<Rightarrow>
              Ok ((case try_ref_header LE hb of Ok _ \<Rightarrow> True | _ \<Rightarrow> False) \<or>
                  (case try_ref_header BE hb of Ok _ \<Rightarrow> True | _ \<Rightarrow> False)))"

definition into_keys_for_game ::
  "(string \<Rightarrow> dir_entry list io) \<Rightarrow> (string \<Rightarrow> bytes option) \<Rightarrow> (string \<Rightarrow> string io) \<Rightarrow> (bhd_path \<Rightarrow> bytes list io) \<Rightarrow>
     (string \<times> bhd_path) list \<Rightarrow> string \<Rightarrow> string option \<Rightarrow> (key_error, key_set) outcome option" where
  "into_keys_for_game read_dir base64 read_to_string open_file =
     into_keys_for_game_with_filter read_dir base64 read_to_string (header_opens open_file)"


section \<open>The map of PEM files\<close>

text \<open>Sorted by game without repetition, which is what the binary search asks for; every game listed
  has a file.\<close>

definition pem_map_ok :: "pem_path_map \<Rightarrow> bool" where
  "pem_map_ok m \<longleftrightarrow> sorted_wrt (<) (map fst m) \<and> (\<forall>x \<in> set m. snd x \<noteq> [])"

lemma binary_search_found: "binary_search x xs = Inl i \<Longrightarrow> i < length xs \<and> xs ! i = x"
  by (auto simp: binary_search_def Let_def split: if_splits)

lemma binary_search_missing:
  assumes "sorted_wrt (<) xs" "binary_search x xs = Inr i"
  shows "x \<notin> set xs \<and> i \<le> length xs \<and> (\<forall>y \<in> set (take i xs). y < x) \<and> (\<forall>y \<in> set (drop i xs). x < y)"
proof -
  have i: "i = length (takeWhile (\<lambda>y. y < x) xs)" and ne: "\<not> (i < length xs \<and> xs ! i = x)"
    using assms(2) by (auto simp: binary_search_def Let_def split: if_splits)
  have t: "take i xs = takeWhile (\<lambda>y. y < x) xs" unfolding i by (rule takeWhile_eq_take [symmetric])
  have d: "drop i xs = dropWhile (\<lambda>y. y < x) xs" unfolding i by (rule dropWhile_eq_drop [symmetric])
  have le: "i \<le> length xs" by (simp add: i length_takeWhile_le)
  have lt: "\<forall>y \<in> set (take i xs). y < x" unfolding t by (auto dest: set_takeWhileD)
  have gt: "x < y" if "y \<in> set (drop i xs)" for y
  proof -
    have "drop i xs \<noteq> []"
    proof
      assume "drop i xs = []"
      with that show False by (simp only: list.set empty_iff)
    qed
    then obtain z zs where z: "drop i xs = z # zs" by (auto simp only: neq_Nil_conv)
    then have "i < length xs" by (metis drop_eq_Nil list.distinct(1) not_less)
    then have zi: "xs ! i = z" using z by (metis nth_via_drop)
    have "\<not> z < x" using z hd_dropWhile [of "\<lambda>y. y < x" xs] unfolding d by simp
    moreover have "z \<noteq> x" using ne \<open>i < length xs\<close> zi by blast
    ultimately have "x < z" by (simp add: less_le not_less)
    moreover have "sorted_wrt (<) (z # zs)" using sorted_wrt_drop [OF assms(1), of i] z by simp
    ultimately show ?thesis using that z by fastforce
  qed
  have "x \<notin> set (take i xs) \<and> x \<notin> set (drop i xs)" using lt gt by (meson less_irrefl)
  then have "x \<notin> set (take i xs @ drop i xs)" by (simp only: set_append Un_iff simp_thms)
  then show ?thesis using le lt gt by (simp only: append_take_drop_id) blast
qed

lemma sorted_insert:
  fixes xs :: "string list"
  assumes "sorted_wrt (<) xs" "\<forall>y \<in> set (take i xs). y < x" "\<forall>y \<in> set (drop i xs). x < y"
  shows "sorted_wrt (<) (take i xs @ x # drop i xs)"
proof -
  have "y < z" if "y \<in> set (take i xs)" "z \<in> set (drop i xs)" for y z
  proof -
    have "y < x" using assms(2) that(1) by blast
    also have "x < z" using assms(3) that(2) by blast
    finally show ?thesis .
  qed
  moreover have "sorted_wrt (<) (take i xs)" "sorted_wrt (<) (drop i xs)"
    using assms(1) by (simp_all add: sorted_wrt_take sorted_wrt_drop)
  ultimately show ?thesis using assms(2,3) unfolding sorted_wrt_append by simp
qed

text \<open>The PEM files in a map, with their games.\<close>

definition pem_files :: "pem_path_map \<Rightarrow> (string \<times> string) multiset" where
  "pem_files m = (\<Sum>(game, paths) \<leftarrow> m. mset (map (Pair game) paths))"

lemma pem_files_mem: "(g, ps) \<in> set m \<Longrightarrow> p \<in> set ps \<Longrightarrow> (g, p) \<in># pem_files m"
  by (induction m) (auto simp: pem_files_def)

lemma pem_files_insert: "pem_files (take i m @ (g, [p]) # drop i m) = add_mset (g, p) (pem_files m)"
proof -
  have "pem_files m = pem_files (take i m @ drop i m)" by simp
  also have "\<dots> = pem_files (take i m) + pem_files (drop i m)"
    by (simp only: pem_files_def map_append sum_list_append)
  finally show ?thesis by (simp add: pem_files_def)
qed

lemma pem_files_update:
  "i < length m \<Longrightarrow> pem_files (m[i := (fst (m ! i), snd (m ! i) @ [p])]) = add_mset (fst (m ! i), p) (pem_files m)"
proof (induction m arbitrary: i)
  case (Cons x m)
  then show ?case by (cases i; cases x) (auto simp: pem_files_def)
qed simp

definition pem_game :: "string \<Rightarrow> string" where
  "pem_game path = to_ascii_lowercase (unwrap_or_default (parent_name path))"

lemma group_pems_ok:
  "pem_map_ok m \<Longrightarrow> \<exists>m'. group_pems (map Ok fs) m = Ok m' \<and> pem_map_ok m' \<and>
     pem_files m' = pem_files m + mset (map (\<lambda>p. (pem_game p, p)) (filter (extension_is ''pem'') fs))"
proof (induction fs arbitrary: m)
  case (Cons p fs)
  show ?case
  proof (cases "extension_is ''pem'' p")
    case True
    show ?thesis
    proof (cases "binary_search (pem_game p) (map fst m)")
      case (Inl i)
      then have i: "i < length m" "fst (m ! i) = pem_game p" using binary_search_found [OF Inl] by auto
      let ?m = "m[i := (fst (m ! i), snd (m ! i) @ [p])]"
      have "map fst ?m = map fst m" using i by (simp add: map_update list_update_id flip: i(2)) (metis list_update_id nth_map)
      moreover have "\<forall>x \<in> set ?m. snd x \<noteq> []"
        using Cons.prems set_update_subset_insert [of m i] by (fastforce simp: pem_map_ok_def)
      ultimately have "pem_map_ok ?m" using Cons.prems by (simp add: pem_map_ok_def)
      from Cons.IH [OF this] show ?thesis
        using True Inl i pem_files_update [OF i(1), of p]
        by (auto simp: pem_game_def [symmetric] Let_def)
    next
      case (Inr i)
      let ?m = "take i m @ (pem_game p, [p]) # drop i m"
      have b: "\<forall>y \<in> set (take i (map fst m)). y < pem_game p" "\<forall>y \<in> set (drop i (map fst m)). pem_game p < y"
        using binary_search_missing [OF _ Inr] Cons.prems by (auto simp: pem_map_ok_def)
      have "\<forall>x \<in> set ?m. snd x \<noteq> []"
        using Cons.prems by (auto simp: pem_map_ok_def dest: in_set_takeD in_set_dropD)
      then have "pem_map_ok ?m"
        using sorted_insert [OF _ b] Cons.prems by (simp add: pem_map_ok_def take_map drop_map)
      from Cons.IH [OF this] show ?thesis
        using True Inr pem_files_insert [of i m "pem_game p" p]
        by (auto simp: pem_game_def [symmetric] Let_def)
    qed
  next
    case False
    with Cons show ?thesis by simp
  qed
qed simp

lemma find_pem_paths_ok:
  assumes "served read_dir (DDir dir ts)"
  shows "\<exists>m. find_pem_paths read_dir dir = Some (Ok m) \<and> pem_map_ok m \<and>
    pem_files m = mset (map (\<lambda>p. (pem_game p, p)) (filter (extension_is ''pem'') (files_of (DDir dir ts))))"
proof -
  obtain fs where fs: "recursive_read_files read_dir dir = Ok (Some (map Ok fs))"
    "mset fs = mset (files_of (DDir dir ts))" using recursive_read_files_all [OF assms] by blast
  obtain m where m: "group_pems (map Ok fs) [] = Ok m" "pem_map_ok m"
    "pem_files m = mset (map (\<lambda>p. (pem_game p, p)) (filter (extension_is ''pem'') fs))"
    using group_pems_ok [of "[]" fs] by (auto simp: pem_map_ok_def pem_files_def)
  have "mset (map g (filter P fs)) = mset (map g (filter P (files_of (DDir dir ts))))" for g :: "string \<Rightarrow> string \<times> string" and P
    using fs(2) by (metis mset_filter mset_map)
  then show ?thesis using m fs(1) by (auto simp: find_pem_paths_def)
qed


section \<open>Keys that open their archives\<close>

definition pem_key :: "(string \<Rightarrow> bytes option) \<Rightarrow> (string \<Rightarrow> string io) \<Rightarrow> string \<Rightarrow> rsa_key \<Rightarrow> bool" where
  "pem_key base64 read_to_string p k \<longleftrightarrow>
     (\<exists>pem. read_to_string p = Ok pem \<and> decode_from_pem base64 pem = Ok k)"

text \<open>What holds of the state of the loop: the cache holds the keys of PEM files; every archive matched
  is one of the mount and is opened by its key, the key of a PEM file, which it has only when it is
  not plain, and only once a game is settled on; a game asked for is the one settled on, and only its
  keys are used when it has any; a game that was not asked for has a key that opens an archive.\<close>

definition keys_inv ::
  "(string \<Rightarrow> bytes option) \<Rightarrow> (string \<Rightarrow> string io) \<Rightarrow> key_check \<Rightarrow> pem_path_map \<Rightarrow> string option \<Rightarrow>
     bhd_path set \<Rightarrow> key_state \<Rightarrow> bool" where
  "keys_inv base64 read_to_string f m game archives st \<longleftrightarrow>
     (\<forall>p k. map_of (ks_cache st) p = Some k \<longrightarrow> pem_key base64 read_to_string p k) \<and>
     (\<forall>bhd ko. map_of (ks_by_path st) bhd = Some ko \<longrightarrow> bhd \<in> archives \<and> f bhd ko = Ok True \<and>
        (\<forall>k. ko = Some k \<longrightarrow> f bhd None = Ok False \<and> ks_game st \<noteq> None \<and>
           (\<exists>g p. (g, p) \<in># pem_files m \<and> pem_key base64 read_to_string p k \<and>
              (\<forall>g0. game = Some g0 \<longrightarrow> g0 \<in> fst ` set m \<longrightarrow> g = g0)))) \<and>
     (\<forall>i. ks_game_index st = Some i \<longrightarrow> i < length m \<and> ks_game st = Some (fst (m ! i))) \<and>
     (\<forall>g. game = Some g \<longrightarrow> ks_game st = Some g) \<and>
     (\<forall>g. game = None \<longrightarrow> ks_game st = Some g \<longrightarrow>
        (\<exists>bhd \<in> archives. \<exists>p k. (g, p) \<in># pem_files m \<and> pem_key base64 read_to_string p k \<and> f bhd (Some k) = Ok True))"

text \<open>Archives matched stay matched, and a game settled on stays settled on.\<close>

definition keeps :: "key_state \<Rightarrow> key_state \<Rightarrow> bool" where
  "keeps st st' \<longleftrightarrow> dom (map_of (ks_by_path st)) \<subseteq> dom (map_of (ks_by_path st')) \<and>
     (\<forall>g. ks_game st = Some g \<longrightarrow> ks_game st' = Some g)"

lemma keeps_refl [simp]: "keeps st st"
  by (simp add: keeps_def)

lemma keeps_trans: "keeps a b \<Longrightarrow> keeps b c \<Longrightarrow> keeps a c"
  unfolding keeps_def by (blast intro: order_trans)

lemma load_key_ok:
  assumes "load_key base64 rts p cache = Ok (k, cache')"
    and "\<forall>q k. map_of cache q = Some k \<longrightarrow> pem_key base64 rts q k"
  shows "pem_key base64 rts p k \<and> (\<forall>q k. map_of cache' q = Some k \<longrightarrow> pem_key base64 rts q k)"
proof (cases "map_of cache p")
  case None
  then obtain pem where "rts p = Ok pem" "decode_from_pem base64 pem = Ok k" "cache' = AList.update p k cache"
    using assms(1) by (auto simp: load_key_def map_err_def split: outcome.splits)
  then have "pem_key base64 rts p k" "cache' = AList.update p k cache" by (auto simp: pem_key_def)
  then show ?thesis using assms(2) by (auto simp: update_conv' split: if_splits)
qed (use assms in \<open>auto simp: load_key_def\<close>)

lemma pem_key_unique: "pem_key base64 rts p k \<Longrightarrow> pem_key base64 rts p k' \<Longrightarrow> k = k'"
  by (auto simp: pem_key_def)

lemma keys_invD:
  assumes "keys_inv base64 rts f m game archives st"
  shows "map_of (ks_cache st) p = Some k \<Longrightarrow> pem_key base64 rts p k"
    and "map_of (ks_by_path st) bhd = Some ko \<Longrightarrow> bhd \<in> archives \<and> f bhd ko = Ok True"
    and "map_of (ks_by_path st) bhd = Some (Some k) \<Longrightarrow> f bhd None = Ok False \<and> ks_game st \<noteq> None \<and>
      (\<exists>g p. (g, p) \<in># pem_files m \<and> pem_key base64 rts p k \<and> (\<forall>g0. game = Some g0 \<longrightarrow> g0 \<in> fst ` set m \<longrightarrow> g = g0))"
    and "ks_game_index st = Some i \<Longrightarrow> i < length m \<and> ks_game st = Some (fst (m ! i))"
    and "game = Some g \<Longrightarrow> ks_game st = Some g"
    and "game = None \<Longrightarrow> ks_game st = Some g \<Longrightarrow>
      \<exists>bhd \<in> archives. \<exists>p k. (g, p) \<in># pem_files m \<and> pem_key base64 rts p k \<and> f bhd (Some k) = Ok True"
proof -
  note i = assms [unfolded keys_inv_def]
  note c = conjunct1 [OF i] conjunct1 [OF conjunct2 [OF i]] conjunct1 [OF conjunct2 [OF conjunct2 [OF i]]]
    conjunct1 [OF conjunct2 [OF conjunct2 [OF conjunct2 [OF i]]]] conjunct2 [OF conjunct2 [OF conjunct2 [OF conjunct2 [OF i]]]]
  show "map_of (ks_cache st) p = Some k \<Longrightarrow> pem_key base64 rts p k" using c(1) by blast
  show "map_of (ks_by_path st) bhd = Some ko \<Longrightarrow> bhd \<in> archives \<and> f bhd ko = Ok True" using c(2) by blast
  show "map_of (ks_by_path st) bhd = Some (Some k) \<Longrightarrow> f bhd None = Ok False \<and> ks_game st \<noteq> None \<and>
      (\<exists>g p. (g, p) \<in># pem_files m \<and> pem_key base64 rts p k \<and> (\<forall>g0. game = Some g0 \<longrightarrow> g0 \<in> fst ` set m \<longrightarrow> g = g0))"
    using c(2) by fast
  show "ks_game_index st = Some i \<Longrightarrow> i < length m \<and> ks_game st = Some (fst (m ! i))" using c(3) by blast
  show "game = Some g \<Longrightarrow> ks_game st = Some g" using c(4) by blast
  show "\<exists>bhd \<in> archives. \<exists>p k. (g, p) \<in># pem_files m \<and> pem_key base64 rts p k \<and> f bhd (Some k) = Ok True"
    if "game = None" "ks_game st = Some g" using c(5) that by fast
qed

text \<open>A key that opens an archive is recorded for it, and its game unless one is settled on.\<close>

lemma keys_inv_match:
  assumes inv: "keys_inv base64 rts f m game archives st"
    and "bhd \<in> archives" "f bhd None = Ok False" "f bhd (Some k) = Ok True"
    and gp: "(g, p) \<in># pem_files m" "pem_key base64 rts p k" "\<forall>g0. game = Some g0 \<longrightarrow> g0 \<in> fst ` set m \<longrightarrow> g = g0"
    and cache: "\<forall>q k. map_of cache q = Some k \<longrightarrow> pem_key base64 rts q k"
  shows "keys_inv base64 rts f m game archives (st\<lparr>ks_cache := cache, ks_by_path := AList.update bhd (Some k) (ks_by_path st),
    ks_game := (case ks_game st of None \<Rightarrow> Some g | x \<Rightarrow> x)\<rparr>)" (is "keys_inv _ _ _ _ _ _ ?st")
  unfolding keys_inv_def
proof (intro conjI allI impI)
  fix q k'
  show "pem_key base64 rts q k'" if "map_of (ks_cache ?st) q = Some k'" using that cache by simp
next
  fix bhd' ko
  assume m: "map_of (ks_by_path ?st) bhd' = Some ko"
  show "bhd' \<in> archives" "f bhd' ko = Ok True"
    using m assms(2,4) keys_invD(2) [OF inv, of bhd' ko] by (auto simp: update_conv' split: if_splits)
  fix k'
  assume ko: "ko = Some k'"
  show "f bhd' None = Ok False"
    using m ko assms(3) keys_invD(3) [OF inv, of bhd' k'] by (auto simp: update_conv' split: if_splits)
  show "ks_game ?st \<noteq> None" by (simp split: option.split)
  show "\<exists>g p. (g, p) \<in># pem_files m \<and> pem_key base64 rts p k' \<and> (\<forall>g0. game = Some g0 \<longrightarrow> g0 \<in> fst ` set m \<longrightarrow> g = g0)"
  proof (cases "bhd' = bhd")
    case True
    then have "k' = k" using m ko by (simp add: update_conv')
    then show ?thesis using gp by blast
  next
    case False
    then have "map_of (ks_by_path st) bhd' = Some (Some k')" using m ko by (simp add: update_conv')
    then show ?thesis using keys_invD(3) [OF inv] by blast
  qed
next
  fix i
  assume "ks_game_index ?st = Some i"
  then show "i < length m" "ks_game ?st = Some (fst (m ! i))" using keys_invD(4) [OF inv, of i] by simp_all
next
  fix g0
  assume "game = Some g0"
  then show "ks_game ?st = Some g0" using keys_invD(5) [OF inv] by simp
next
  fix g0
  assume n: "game = None" and g: "ks_game ?st = Some g0"
  show "\<exists>bhd \<in> archives. \<exists>p k. (g0, p) \<in># pem_files m \<and> pem_key base64 rts p k \<and> f bhd (Some k) = Ok True"
  proof (cases "ks_game st")
    case None
    then show ?thesis using g gp(1,2) assms(2,4) by auto
  next
    case (Some g1)
    then show ?thesis using g keys_invD(6) [OF inv n, of g0] by simp
  qed
qed

lemma keys_inv_cache:
  assumes "keys_inv base64 rts f m game archives st" "\<forall>q k. map_of cache q = Some k \<longrightarrow> pem_key base64 rts q k"
  shows "keys_inv base64 rts f m game archives (st\<lparr>ks_cache := cache\<rparr>)"
  using assms unfolding keys_inv_def by simp

lemma keys_inv_plain:
  assumes inv: "keys_inv base64 rts f m game archives st" and "bhd \<in> archives" "f bhd None = Ok True"
  shows "keys_inv base64 rts f m game archives (st\<lparr>ks_by_path := AList.update bhd None (ks_by_path st)\<rparr>)"
proof -
  have "bhd' \<in> archives \<and> f bhd' ko = Ok True \<and> (\<forall>k. ko = Some k \<longrightarrow> map_of (ks_by_path st) bhd' = Some (Some k))"
    if "map_of (AList.update bhd None (ks_by_path st)) bhd' = Some ko" for bhd' ko
    using that assms(2,3) keys_invD(2) [OF inv, of bhd' ko] by (auto simp: update_conv' split: if_splits)
  then show ?thesis using inv unfolding keys_inv_def by simp
qed

lemma keys_inv_index:
  assumes "keys_inv base64 rts f m game archives st" "\<forall>i. x = Some i \<longrightarrow> i < length m \<and> ks_game st = Some (fst (m ! i))"
  shows "keys_inv base64 rts f m game archives (st\<lparr>ks_game_index := x\<rparr>)"
  using assms unfolding keys_inv_def by simp

lemma try_pems_ok:
  assumes "bhd \<in> archives" "f bhd None = Ok False" "\<forall>g0. game = Some g0 \<longrightarrow> g0 \<in> fst ` set m \<longrightarrow> g = g0"
  shows "try_pems base64 rts f bhd g ps st = Ok st' \<Longrightarrow> keys_inv base64 rts f m game archives st \<Longrightarrow>
    \<forall>p \<in> set ps. (g, p) \<in># pem_files m \<Longrightarrow>
    keys_inv base64 rts f m game archives st' \<and> keeps st st' \<and>
    (\<forall>p \<in> set ps. \<forall>k. pem_key base64 rts p k \<longrightarrow> f bhd (Some k) = Ok True \<longrightarrow>
       bhd \<in> dom (map_of (ks_by_path st')))"
proof (induction ps arbitrary: st)
  case (Cons p ps)
  obtain k cache where l: "load_key base64 rts p (ks_cache st) = Ok (k, cache)"
    using Cons.prems(1) by (cases "load_key base64 rts p (ks_cache st)") auto
  then obtain ok where ok: "f bhd (Some k) = Ok ok"
    using Cons.prems(1) by (cases "f bhd (Some k)") auto
  define st1 where "st1 = (if ok then st\<lparr>ks_cache := cache, ks_by_path := AList.update bhd (Some k) (ks_by_path st),
      ks_game := (case ks_game st of None \<Rightarrow> Some g | x \<Rightarrow> x)\<rparr> else st\<lparr>ks_cache := cache\<rparr>)"
  have run: "try_pems base64 rts f bhd g ps st1 = Ok st'"
    using Cons.prems(1) l ok by (simp add: st1_def Let_def split: if_splits)
  have "\<forall>q k. map_of (ks_cache st) q = Some k \<longrightarrow> pem_key base64 rts q k" using keys_invD(1) [OF Cons.prems(2)] by blast
  then have k: "pem_key base64 rts p k" "\<forall>q k. map_of cache q = Some k \<longrightarrow> pem_key base64 rts q k"
    using load_key_ok [OF l] by blast+
  have gp: "(g, p) \<in># pem_files m" using Cons.prems(3) by simp
  have inv: "keys_inv base64 rts f m game archives st1"
    using keys_inv_match [OF Cons.prems(2) assms(1,2) _ gp k(1) assms(3) k(2)] keys_inv_cache [OF Cons.prems(2) k(2)] ok
    by (simp add: st1_def)
  have kp: "keeps st st1" by (auto simp: st1_def keeps_def update_conv' split: option.splits)
  have IH: "keys_inv base64 rts f m game archives st'" "keeps st1 st'"
    "\<forall>p \<in> set ps. \<forall>k. pem_key base64 rts p k \<longrightarrow> f bhd (Some k) = Ok True \<longrightarrow> bhd \<in> dom (map_of (ks_by_path st'))"
    using Cons.IH [OF run inv] Cons.prems(3) by auto
  have "bhd \<in> dom (map_of (ks_by_path st'))" if "pem_key base64 rts p k'" "f bhd (Some k') = Ok True" for k'
  proof -
    have "ok" using ok that(2) pem_key_unique [OF k(1) that(1)] by simp
    then have "bhd \<in> dom (map_of (ks_by_path st1))" by (auto simp: st1_def update_conv')
    then show ?thesis using IH(2) by (auto simp: keeps_def)
  qed
  then show ?case using IH keeps_trans [OF kp IH(2)] by auto
qed simp

lemma try_games_ok:
  assumes "bhd \<in> archives" "f bhd None = Ok False"
  shows "try_games base64 rts f bhd gs st = Ok st' \<Longrightarrow> keys_inv base64 rts f m game archives st \<Longrightarrow>
    set gs \<subseteq> set m \<and> (\<forall>g0. game = Some g0 \<longrightarrow> g0 \<in> fst ` set m \<longrightarrow> fst ` set gs \<subseteq> {g0}) \<Longrightarrow>
    keys_inv base64 rts f m game archives st' \<and> keeps st st' \<and>
    (\<forall>(g, ps) \<in> set gs. \<forall>p \<in> set ps. \<forall>k. pem_key base64 rts p k \<longrightarrow> f bhd (Some k) = Ok True \<longrightarrow>
       bhd \<in> dom (map_of (ks_by_path st')))"
proof (induction gs arbitrary: st)
  case (Cons x gs)
  obtain g ps where x: "x = (g, ps)" by (cases x)
  obtain st1 where st1: "try_pems base64 rts f bhd g ps st = Ok st1" "try_games base64 rts f bhd gs st1 = Ok st'"
    using Cons.prems(1) by (auto simp: x)
  have "(g, ps) \<in> set m" using Cons.prems(3) by (simp add: x)
  then have files: "\<forall>p \<in> set ps. (g, p) \<in># pem_files m" by (blast intro: pem_files_mem)
  have asked: "\<forall>g0. game = Some g0 \<longrightarrow> g0 \<in> fst ` set m \<longrightarrow> g = g0" using Cons.prems(3) by (simp add: x)
  note p = try_pems_ok [where f = f, OF assms asked st1(1) Cons.prems(2) files]
  have rest: "set gs \<subseteq> set m \<and> (\<forall>g0. game = Some g0 \<longrightarrow> g0 \<in> fst ` set m \<longrightarrow> fst ` set gs \<subseteq> {g0})"
    using Cons.prems(3) by simp
  note IH = Cons.IH [OF st1(2) conjunct1 [OF p] rest]
  have kp: "keeps st st'" using p IH keeps_trans by blast
  have sub: "dom (map_of (ks_by_path st1)) \<subseteq> dom (map_of (ks_by_path st'))" using IH by (simp add: keeps_def)
  have "bhd \<in> dom (map_of (ks_by_path st'))"
    if "p \<in> set ps" "pem_key base64 rts p k" "f bhd (Some k) = Ok True" for p k
    using p that subsetD [OF sub] by blast
  then show ?case using IH kp unfolding x by simp
qed simp

lemma settle_game_ok:
  assumes "keys_inv base64 rts f m game archives st" "pem_map_ok m"
  defines "st' \<equiv> settle_game m st"
  shows "keys_inv base64 rts f m game archives st'" "keeps st st'" "ks_by_path st' = ks_by_path st"
    "set (games_to_try m st') \<subseteq> set m \<and> (\<forall>g0. game = Some g0 \<longrightarrow> g0 \<in> fst ` set m \<longrightarrow> fst ` set (games_to_try m st') \<subseteq> {g0})"
    "\<forall>(g, ps) \<in> set m. ks_game st' = Some g \<or> ks_game_index st' = None \<longrightarrow> (g, ps) \<in> set (games_to_try m st')"
proof -
  have s: "st' = st\<lparr>ks_game_index := ks_game_index st'\<rparr>"
    by (simp add: st'_def settle_game_def split: option.splits)
  have ix: "i < length m \<and> ks_game st = Some (fst (m ! i))" if "ks_game_index st' = Some i" for i
    using that keys_invD(4) [OF assms(1), of i] unfolding st'_def settle_game_def
    by (auto split: option.splits sum.splits bind_splits dest: binary_search_found)
  have game: "ks_game st' = ks_game st" by (subst s) simp
  show path: "ks_by_path st' = ks_by_path st" by (subst s) simp
  show "keys_inv base64 rts f m game archives st'"
    using keys_inv_index [OF assms(1), of "ks_game_index st'"] ix s by simp
  show "keeps st st'" by (simp add: keeps_def path game)
  have sub: "set (games_to_try m st') \<subseteq> set m"
    using ix by (auto simp: games_to_try_def split: option.splits)
  have only: "fst ` set (games_to_try m st') \<subseteq> {g0}" if g0: "game = Some g0" "g0 \<in> fst ` set m" for g0
  proof -
    have g: "ks_game st = Some g0" by (rule keys_invD(5) [OF assms(1) g0(1)])
    have "\<exists>i. ks_game_index st' = Some i"
    proof (cases "ks_game_index st")
      case None
      obtain i where "binary_search g0 (map fst m) = Inl i"
      proof (cases "binary_search g0 (map fst m)")
        case (Inr i)
        then have "g0 \<notin> set (map fst m)" using binary_search_missing [OF _ Inr] assms(2) by (simp add: pem_map_ok_def)
        then show ?thesis using g0(2) by simp
      qed (rule that)
      then show ?thesis using None g by (simp add: st'_def settle_game_def)
    qed (simp add: st'_def settle_game_def)
    then obtain i where i: "ks_game_index st' = Some i" ..
    then have "fst (m ! i) = g0" using ix [OF i] g by simp
    then show ?thesis using i by (simp add: games_to_try_def)
  qed
  show "set (games_to_try m st') \<subseteq> set m \<and> (\<forall>g0. game = Some g0 \<longrightarrow> g0 \<in> fst ` set m \<longrightarrow> fst ` set (games_to_try m st') \<subseteq> {g0})"
    using sub only by blast
  have d: "distinct (map fst m)" using assms(2) by (simp add: pem_map_ok_def strict_sorted_iff)
  show "\<forall>(g, ps) \<in> set m. ks_game st' = Some g \<or> ks_game_index st' = None \<longrightarrow> (g, ps) \<in> set (games_to_try m st')"
  proof clarify
    fix g ps
    assume mem: "(g, ps) \<in> set m" and or: "ks_game st' = Some g \<or> ks_game_index st' = None"
    show "(g, ps) \<in> set (games_to_try m st')"
    proof (cases "ks_game_index st'")
      case None
      then show ?thesis using mem by (simp add: games_to_try_def)
    next
      case (Some i)
      with or ix [OF Some] game have "i < length m" "fst (m ! i) = g" by auto
      then have "m ! i = (g, ps)"
        using mem d by (metis eq_key_imp_eq_value nth_mem prod.collapse)
      then show ?thesis using Some by (simp add: games_to_try_def)
    qed
  qed
qed

text \<open>What opens an archive: a key of a game of the map.\<close>

definition opened_by ::
  "(string \<Rightarrow> bytes option) \<Rightarrow> (string \<Rightarrow> string io) \<Rightarrow> key_check \<Rightarrow> pem_path_map \<Rightarrow> string \<Rightarrow> bhd_path \<Rightarrow> bool" where
  "opened_by base64 rts f m g bhd \<longleftrightarrow>
     (\<exists>ps. (g, ps) \<in> set m \<and> (\<exists>p \<in> set ps. \<exists>k. pem_key base64 rts p k \<and> f bhd (Some k) = Ok True))"

text \<open>An archive that opens is matched, except when a game with keys is settled on and none of them
  opens it.\<close>

definition matched_or_left ::
  "(string \<Rightarrow> bytes option) \<Rightarrow> (string \<Rightarrow> string io) \<Rightarrow> key_check \<Rightarrow> pem_path_map \<Rightarrow> key_state \<Rightarrow> bhd_path \<Rightarrow> bool" where
  "matched_or_left base64 rts f m st bhd \<longleftrightarrow>
     (f bhd None = Ok True \<longrightarrow> bhd \<in> dom (map_of (ks_by_path st))) \<and>
     (\<forall>g. opened_by base64 rts f m g bhd \<longrightarrow> bhd \<in> dom (map_of (ks_by_path st)) \<or>
        (\<exists>g'. ks_game st = Some g' \<and> g' \<in> fst ` set m \<and> \<not> opened_by base64 rts f m g' bhd))"

lemma tried_or_left:
  assumes inv: "keys_inv base64 rts f m game archives st" and m: "pem_map_ok m" and plain: "f bhd None = Ok False"
    and tried: "\<forall>(g, ps) \<in> set (games_to_try m (settle_game m st)). \<forall>p \<in> set ps. \<forall>k.
      pem_key base64 rts p k \<longrightarrow> f bhd (Some k) = Ok True \<longrightarrow> bhd \<in> dom (map_of (ks_by_path st1))"
    and kp: "keeps (settle_game m st) st'" "keeps st1 st'"
  shows "matched_or_left base64 rts f m st' bhd"
proof -
  let ?st = "settle_game m st"
  note s = settle_game_ok [OF inv m]
  have found: "bhd \<in> dom (map_of (ks_by_path st'))"
    if o: "opened_by base64 rts f m g bhd" and g: "ks_game ?st = Some g \<or> ks_game_index ?st = None" for g
  proof -
    obtain ps p k where p: "(g, ps) \<in> set m" "p \<in> set ps" "pem_key base64 rts p k" "f bhd (Some k) = Ok True"
      using o unfolding opened_by_def by blast
    then have "(g, ps) \<in> set (games_to_try m ?st)" using s(5) g by blast
    then have "bhd \<in> dom (map_of (ks_by_path st1))" using tried p(2-4) by blast
    then show ?thesis using kp(2) unfolding keeps_def by blast
  qed
  have "bhd \<in> dom (map_of (ks_by_path st')) \<or>
      (\<exists>g'. ks_game st' = Some g' \<and> g' \<in> fst ` set m \<and> \<not> opened_by base64 rts f m g' bhd)"
    if o: "opened_by base64 rts f m g bhd" for g
  proof (cases "ks_game_index ?st")
    case None
    then show ?thesis using found [OF o] by simp
  next
    case (Some i)
    note i = keys_invD(4) [OF s(1) Some]
    have "ks_game st' = Some (fst (m ! i))" "fst (m ! i) \<in> fst ` set m" using i kp(1) by (simp_all add: keeps_def)
    then show ?thesis using found [of "fst (m ! i)"] i by blast
  qed
  then show ?thesis using plain by (simp add: matched_or_left_def)
qed

lemma match_archives_ok:
  assumes "pem_map_ok m"
  shows "match_archives base64 rts f m bs st = Ok st' \<Longrightarrow> keys_inv base64 rts f m game archives st \<Longrightarrow>
    set bs \<subseteq> archives \<Longrightarrow>
    keys_inv base64 rts f m game archives st' \<and> keeps st st' \<and> (\<forall>bhd \<in> set bs. matched_or_left base64 rts f m st' bhd)"
proof (induction bs arbitrary: st)
  case (Cons bhd bs)
  obtain plain where plain: "f bhd None = Ok plain"
    using Cons.prems(1) by (cases "f bhd None") auto
  have bhd: "bhd \<in> archives" and bs: "set bs \<subseteq> archives" using Cons.prems(3) by auto
  show ?case
  proof (cases plain)
    case True
    let ?st = "st\<lparr>ks_by_path := AList.update bhd None (ks_by_path st)\<rparr>"
    have run: "match_archives base64 rts f m bs ?st = Ok st'" using Cons.prems(1) plain True by simp
    have inv: "keys_inv base64 rts f m game archives ?st"
      using keys_inv_plain [OF Cons.prems(2) bhd] plain True by simp
    have kp: "keeps st ?st" "bhd \<in> dom (map_of (ks_by_path ?st))" by (auto simp: keeps_def update_conv')
    note IH = Cons.IH [OF run inv bs]
    have "bhd \<in> dom (map_of (ks_by_path st'))"
      using IH kp(2) unfolding keeps_def by blast
    then have "matched_or_left base64 rts f m st' bhd" by (simp add: matched_or_left_def)
    then show ?thesis using IH keeps_trans [OF kp(1)] by auto
  next
    case False
    let ?st = "settle_game m st"
    have no: "f bhd None = Ok False" using plain False by simp
    note s = settle_game_ok [OF Cons.prems(2) assms]
    obtain st1 where st1: "try_games base64 rts f bhd (games_to_try m ?st) ?st = Ok st1"
      and run: "match_archives base64 rts f m bs st1 = Ok st'"
      using Cons.prems(1) no by (auto simp: Let_def)
    note t = try_games_ok [where f = f, OF bhd no st1 s(1,4)]
    note IH = Cons.IH [OF run conjunct1 [OF t] bs]
    have kp: "keeps st1 st'" "keeps ?st st1" using t IH by blast+
    have kp': "keeps ?st st'" by (rule keeps_trans [OF kp(2,1)])
    have "matched_or_left base64 rts f m st' bhd"
      using tried_or_left [OF Cons.prems(2) assms no _ kp' kp(1)] t by blast
    then show ?thesis using IH keeps_trans [OF s(2) kp'] by simp
  qed
qed simp

lemma keys_inv_start: "keys_inv base64 rts f m game archives \<lparr>ks_game = game, ks_game_index = None, ks_cache = [], ks_by_path = []\<rparr>"
  by (simp add: keys_inv_def)

text \<open>Without errors of the files and of the check, the loops reach their end.\<close>

lemma load_key_returns: "pem_key base64 rts p k \<Longrightarrow> \<exists>x. load_key base64 rts p cache = Ok x"
  by (auto simp: load_key_def pem_key_def map_err_def split: option.splits)

lemma try_pems_returns:
  assumes "\<forall>ko. \<exists>b. f bhd ko = Ok b"
  shows "\<forall>p \<in> set ps. \<exists>k. pem_key base64 rts p k \<Longrightarrow> \<exists>st'. try_pems base64 rts f bhd g ps st = Ok st'"
proof (induction ps arbitrary: st)
  case (Cons p ps)
  obtain k c where l: "load_key base64 rts p (ks_cache st) = Ok (k, c)"
    using Cons.prems load_key_returns [of base64 rts p] by fastforce
  obtain b where b: "f bhd (Some k) = Ok b" using assms by blast
  show ?case using l b Cons by (simp add: Let_def)
qed simp

lemma try_games_returns:
  assumes "\<forall>ko. \<exists>b. f bhd ko = Ok b"
  shows "\<forall>(g, ps) \<in> set gs. \<forall>p \<in> set ps. \<exists>k. pem_key base64 rts p k \<Longrightarrow> \<exists>st'. try_games base64 rts f bhd gs st = Ok st'"
proof (induction gs arbitrary: st)
  case (Cons x gs)
  obtain g ps where x: "x = (g, ps)" by (cases x)
  obtain st1 where "try_pems base64 rts f bhd g ps st = Ok st1"
    using try_pems_returns [where f = f and bhd = bhd and ps = ps and rts = rts and g = g and st = st and ?base64.0 = base64, OF assms] Cons.prems
    unfolding x by auto
  moreover obtain st2 where "try_games base64 rts f bhd gs st1 = Ok st2" using Cons.IH [of st1] Cons.prems by auto
  ultimately show ?case by (simp add: x)
qed simp

lemma match_archives_returns:
  assumes "pem_map_ok m" "\<forall>(g, ps) \<in> set m. \<forall>p \<in> set ps. \<exists>k. pem_key base64 rts p k"
  shows "keys_inv base64 rts f m game archives st \<Longrightarrow> set bs \<subseteq> archives \<Longrightarrow>
    \<forall>bhd \<in> set bs. \<forall>ko. \<exists>b. f bhd ko = Ok b \<Longrightarrow> \<exists>st'. match_archives base64 rts f m bs st = Ok st'"
proof (induction bs arbitrary: st)
  case (Cons bhd bs)
  have fb: "\<forall>ko. \<exists>b. f bhd ko = Ok b" using Cons.prems(3) by simp
  then obtain plain where plain: "f bhd None = Ok plain" by blast
  have bhd: "bhd \<in> archives" and bs: "set bs \<subseteq> archives" using Cons.prems(2) by auto
  show ?case
  proof (cases plain)
    case True
    let ?st = "st\<lparr>ks_by_path := AList.update bhd None (ks_by_path st)\<rparr>"
    have "keys_inv base64 rts f m game archives ?st"
      using keys_inv_plain [OF Cons.prems(1) bhd] plain True by simp
    then show ?thesis using Cons.IH [of ?st] bs Cons.prems(3) plain True by simp
  next
    case False
    let ?st = "settle_game m st"
    have no: "f bhd None = Ok False" using plain False by simp
    note s = settle_game_ok [OF Cons.prems(1) assms(1)]
    have "\<forall>(g, ps) \<in> set (games_to_try m ?st). \<forall>p \<in> set ps. \<exists>k. pem_key base64 rts p k"
      using assms(2) conjunct1 [OF s(4)] by blast
    from try_games_returns [where f = f and bhd = bhd, OF fb this] obtain st1
      where st1: "try_games base64 rts f bhd (games_to_try m ?st) ?st = Ok st1" by blast
    have "keys_inv base64 rts f m game archives st1" using try_games_ok [where f = f, OF bhd no st1 s(1,4)] by blast
    then show ?thesis using Cons.IH [of st1] bs Cons.prems(3) plain False st1 by (simp add: Let_def)
  qed
qed simp

text \<open>A key of a game: a PEM file in a directory of that name.\<close>

definition key_of_game ::
  "(string \<Rightarrow> bytes option) \<Rightarrow> (string \<Rightarrow> string io) \<Rightarrow> string list \<Rightarrow> string \<Rightarrow> rsa_key \<Rightarrow> bool" where
  "key_of_game base64 rts fs g k \<longleftrightarrow>
     (\<exists>p \<in> set fs. extension_is ''pem'' p \<and> pem_game p = g \<and> pem_key base64 rts p k)"

lemma key_of_game_iff:
  assumes "pem_files m = mset (map (\<lambda>p. (pem_game p, p)) (filter (extension_is ''pem'') fs))"
  shows "key_of_game base64 rts fs g k \<longleftrightarrow> (\<exists>p. (g, p) \<in># pem_files m \<and> pem_key base64 rts p k)"
  unfolding assms by (auto simp: key_of_game_def)

lemma pem_files_elim: "x \<in># pem_files m \<Longrightarrow> \<exists>ps. (fst x, ps) \<in> set m \<and> snd x \<in> set ps"
proof (induction m)
  case (Cons y m)
  have "x \<in># pem_files (y # m) \<longleftrightarrow> x \<in> Pair (fst y) ` set (snd y) \<or> x \<in># pem_files m"
    by (cases y) (simp add: pem_files_def)
  then show ?case using Cons by (cases y) auto
qed (simp add: pem_files_def)

text \<open>A game has keys when a PEM file is in a directory of its name.\<close>

definition has_keys :: "string list \<Rightarrow> string \<Rightarrow> bool" where
  "has_keys fs g \<longleftrightarrow> (\<exists>p \<in> set fs. extension_is ''pem'' p \<and> pem_game p = g)"

definition game_opens ::
  "(string \<Rightarrow> bytes option) \<Rightarrow> (string \<Rightarrow> string io) \<Rightarrow> key_check \<Rightarrow> string list \<Rightarrow> string \<Rightarrow> bhd_path \<Rightarrow> bool" where
  "game_opens base64 rts f fs g bhd \<longleftrightarrow> (\<exists>k. key_of_game base64 rts fs g k \<and> f bhd (Some k) = Ok True)"

text \<open>The result of the search: every archive in it is one of the mount and opens with what it is given,
  a key only when it does not open plain; a plain archive is in it; an archive that a key of any game
  opens is in it, unless a game with keys was asked for or detected and none of its keys opens the
  archive; the game asked for is settled on and, when it has keys, no other game's are given; a game
  not asked for has a key that opens one of the archives, and there is one when a key is given.\<close>

definition keys_ok ::
  "(string \<Rightarrow> bytes option) \<Rightarrow> (string \<Rightarrow> string io) \<Rightarrow> key_check \<Rightarrow> string list \<Rightarrow> bhd_path set \<Rightarrow> string option \<Rightarrow> key_set \<Rightarrow> bool" where
  "keys_ok base64 rts f fs archives game ks \<longleftrightarrow>
     (\<forall>bhd ko. map_of (keys_by_path ks) bhd = Some ko \<longrightarrow> bhd \<in> archives \<and> f bhd ko = Ok True \<and>
        (\<forall>k. ko = Some k \<longrightarrow> f bhd None = Ok False \<and> keys_game ks \<noteq> None \<and>
           (\<exists>g. key_of_game base64 rts fs g k \<and> (\<forall>g0. game = Some g0 \<longrightarrow> has_keys fs g0 \<longrightarrow> g = g0)))) \<and>
     (\<forall>bhd \<in> archives. f bhd None = Ok True \<longrightarrow> map_of (keys_by_path ks) bhd = Some None) \<and>
     (\<forall>bhd \<in> archives. \<forall>g. game_opens base64 rts f fs g bhd \<longrightarrow> map_of (keys_by_path ks) bhd \<noteq> None \<or>
        (\<exists>g'. keys_game ks = Some g' \<and> has_keys fs g' \<and> \<not> game_opens base64 rts f fs g' bhd)) \<and>
     (\<forall>g. game = Some g \<longrightarrow> keys_game ks = Some g) \<and>
     (\<forall>g. game = None \<longrightarrow> keys_game ks = Some g \<longrightarrow> (\<exists>bhd \<in> archives. game_opens base64 rts f fs g bhd))"

lemma has_keys_iff:
  assumes "pem_files m = mset (map (\<lambda>p. (pem_game p, p)) (filter (extension_is ''pem'') fs))" "pem_map_ok m"
  shows "has_keys fs g \<longleftrightarrow> g \<in> fst ` set m"
proof
  assume "has_keys fs g"
  then obtain p where "(g, p) \<in># pem_files m" unfolding assms(1) by (auto simp: has_keys_def)
  from pem_files_elim [OF this] show "g \<in> fst ` set m" by force
next
  assume "g \<in> fst ` set m"
  then obtain ps where ps: "(g, ps) \<in> set m" by force
  then have "ps \<noteq> []" using assms(2) by (fastforce simp: pem_map_ok_def)
  then obtain p where "p \<in> set ps" by (meson last_in_set)
  from pem_files_mem [OF ps this] show "has_keys fs g" unfolding assms(1) by (auto simp: has_keys_def)
qed

lemma game_opens_iff:
  assumes "pem_files m = mset (map (\<lambda>p. (pem_game p, p)) (filter (extension_is ''pem'') fs))"
  shows "game_opens base64 rts f fs g bhd \<longleftrightarrow> opened_by base64 rts f m g bhd"
  using pem_files_elim pem_files_mem unfolding game_opens_def opened_by_def key_of_game_iff [OF assms] by fastforce

lemma keys_inv_result:
  assumes m: "pem_files m = mset (map (\<lambda>p. (pem_game p, p)) (filter (extension_is ''pem'') fs))" "pem_map_ok m"
    and inv: "keys_inv base64 rts f m game archives st" and left: "\<forall>bhd \<in> archives. matched_or_left base64 rts f m st bhd"
  shows "keys_ok base64 rts f fs archives game \<lparr>keys_game = ks_game st, keys_by_path = ks_by_path st\<rparr>"
proof -
  note iff = has_keys_iff [OF m] game_opens_iff [OF m(1)] key_of_game_iff [OF m(1)]
  have plain: "map_of (ks_by_path st) bhd = Some None" if "bhd \<in> archives" "f bhd None = Ok True" for bhd
  proof -
    have "bhd \<in> dom (map_of (ks_by_path st))" using left that by (simp add: matched_or_left_def)
    then obtain ko where ko: "map_of (ks_by_path st) bhd = Some ko" by blast
    then show ?thesis using keys_invD(3) [OF inv, of bhd] that(2) by (cases ko) auto
  qed
  have given: "bhd \<in> archives \<and> f bhd ko = Ok True \<and> (\<forall>k. ko = Some k \<longrightarrow> f bhd None = Ok False \<and> ks_game st \<noteq> None \<and>
      (\<exists>g. (\<exists>p. (g, p) \<in># pem_files m \<and> pem_key base64 rts p k) \<and> (\<forall>g0. game = Some g0 \<longrightarrow> g0 \<in> fst ` set m \<longrightarrow> g = g0)))"
    if "map_of (ks_by_path st) bhd = Some ko" for bhd ko
    using keys_invD(2) [OF inv that] keys_invD(3) [OF inv, of bhd] that by blast
  have left_out: "map_of (ks_by_path st) bhd \<noteq> None \<or> (\<exists>g'. ks_game st = Some g' \<and> g' \<in> fst ` set m \<and> \<not> opened_by base64 rts f m g' bhd)"
    if "bhd \<in> archives" "opened_by base64 rts f m g bhd" for bhd g
    using left that unfolding matched_or_left_def dom_def by blast
  have detected: "\<exists>bhd \<in> archives. opened_by base64 rts f m g bhd" if g: "game = None" "ks_game st = Some g" for g
    using keys_invD(6) [OF inv g] unfolding game_opens_iff [OF m(1), symmetric] game_opens_def iff(3) by blast
  show ?thesis unfolding keys_ok_def iff key_set.select_convs
  proof (intro conjI)
    show "\<forall>bhd ko. map_of (ks_by_path st) bhd = Some ko \<longrightarrow> bhd \<in> archives \<and> f bhd ko = Ok True \<and>
        (\<forall>k. ko = Some k \<longrightarrow> f bhd None = Ok False \<and> ks_game st \<noteq> None \<and>
          (\<exists>g. (\<exists>p. (g, p) \<in># pem_files m \<and> pem_key base64 rts p k) \<and> (\<forall>g0. game = Some g0 \<longrightarrow> g0 \<in> fst ` set m \<longrightarrow> g = g0)))"
      by (intro allI impI) (rule given)
    show "\<forall>bhd \<in> archives. \<forall>g. opened_by base64 rts f m g bhd \<longrightarrow> map_of (ks_by_path st) bhd \<noteq> None \<or>
        (\<exists>g'. ks_game st = Some g' \<and> g' \<in> fst ` set m \<and> \<not> opened_by base64 rts f m g' bhd)"
      by (intro ballI allI impI) (rule left_out)
    show "\<forall>bhd \<in> archives. f bhd None = Ok True \<longrightarrow> map_of (ks_by_path st) bhd = Some None" using plain by blast
    show "\<forall>g. game = Some g \<longrightarrow> ks_game st = Some g" using keys_invD(5) [OF inv] by blast
    show "\<forall>g. game = None \<longrightarrow> ks_game st = Some g \<longrightarrow> (\<exists>bhd \<in> archives. opened_by base64 rts f m g bhd)"
      using detected by blast
  qed
qed

lemma keys_with_filter_ok:
  assumes "served read_dir (DDir dir ts)"
  defines "fs \<equiv> files_of (DDir dir ts)"
  shows "into_keys_for_game_with_filter read_dir base64 rts f archives dir game = Some (Ok ks) \<Longrightarrow>
      keys_ok base64 rts f fs (snd ` set archives) game ks"
    and "\<forall>p \<in> set fs. extension_is ''pem'' p \<longrightarrow> (\<exists>k. pem_key base64 rts p k) \<Longrightarrow>
      \<forall>bhd \<in> snd ` set archives. \<forall>ko. \<exists>b. f bhd ko = Ok b \<Longrightarrow>
      \<exists>ks. into_keys_for_game_with_filter read_dir base64 rts f archives dir game = Some (Ok ks)"
proof -
  obtain m where m: "find_pem_paths read_dir dir = Some (Ok m)" "pem_map_ok m"
    "pem_files m = mset (map (\<lambda>p. (pem_game p, p)) (filter (extension_is ''pem'') fs))"
    using find_pem_paths_ok [OF assms(1)] unfolding fs_def by blast
  let ?st0 = "\<lparr>ks_game = game, ks_game_index = None, ks_cache = [], ks_by_path = []\<rparr>"
  let ?A = "snd ` set archives"
  have run: "into_keys_for_game_with_filter read_dir base64 rts f archives dir game =
      Some (obind (match_archives base64 rts f m (map snd archives) ?st0)
        (\<lambda>st. Ok \<lparr>keys_game = ks_game st, keys_by_path = ks_by_path st\<rparr>))"
    by (simp add: into_keys_for_game_with_filter_def m(1) map_err_def)
  have sub: "set (map snd archives) \<subseteq> ?A" by simp
  show "keys_ok base64 rts f fs ?A game ks"
    if returns: "into_keys_for_game_with_filter read_dir base64 rts f archives dir game = Some (Ok ks)"
  proof -
    obtain st where st: "match_archives base64 rts f m (map snd archives) ?st0 = Ok st"
      and ks: "ks = \<lparr>keys_game = ks_game st, keys_by_path = ks_by_path st\<rparr>"
      using returns unfolding run by auto
    note M = match_archives_ok [OF m(2) st keys_inv_start sub]
    have "\<forall>bhd \<in> ?A. matched_or_left base64 rts f m st bhd" using M by simp
    then show ?thesis using keys_inv_result [OF m(3,2) conjunct1 [OF M]] by (simp add: ks)
  qed
  show "\<exists>ks. into_keys_for_game_with_filter read_dir base64 rts f archives dir game = Some (Ok ks)"
    if k: "\<forall>p \<in> set fs. extension_is ''pem'' p \<longrightarrow> (\<exists>k. pem_key base64 rts p k)"
      and f: "\<forall>bhd \<in> ?A. \<forall>ko. \<exists>b. f bhd ko = Ok b"
  proof -
    have "\<exists>k. pem_key base64 rts p k" if "(g, ps) \<in> set m" "p \<in> set ps" for g ps p
      using pem_files_mem [OF that] k unfolding m(3) by auto
    then have "\<forall>(g, ps) \<in> set m. \<forall>p \<in> set ps. \<exists>k. pem_key base64 rts p k" by blast
    note R = match_archives_returns [where f = f, OF m(2) this keys_inv_start sub]
    have "\<forall>bhd \<in> set (map snd archives). \<forall>ko. \<exists>b. f bhd ko = Ok b" using f by simp
    from R [OF this, where game = game] obtain st where "match_archives base64 rts f m (map snd archives) ?st0 = Ok st" ..
    then show ?thesis unfolding run by simp
  qed
qed

text \<open>A path is matched once.\<close>

lemma try_pems_distinct:
  "try_pems base64 rts f bhd g ps st = Ok st' \<Longrightarrow> distinct (map fst (ks_by_path st)) \<Longrightarrow> distinct (map fst (ks_by_path st'))"
proof (induction ps arbitrary: st)
  case (Cons p ps)
  obtain k c where l: "load_key base64 rts p (ks_cache st) = Ok (k, c)"
    using Cons.prems(1) by (cases "load_key base64 rts p (ks_cache st)") auto
  then obtain ok where ok: "f bhd (Some k) = Ok ok" using Cons.prems(1) by (cases "f bhd (Some k)") auto
  show ?case using Cons.IH Cons.prems l ok by (cases ok) (auto simp: Let_def distinct_fst_update)
qed simp

lemma try_games_distinct:
  "try_games base64 rts f bhd gs st = Ok st' \<Longrightarrow> distinct (map fst (ks_by_path st)) \<Longrightarrow> distinct (map fst (ks_by_path st'))"
proof (induction gs arbitrary: st)
  case (Cons x gs)
  then show ?case by (cases x) (auto dest: try_pems_distinct)
qed simp

lemma match_archives_distinct:
  "match_archives base64 rts f m bs st = Ok st' \<Longrightarrow> distinct (map fst (ks_by_path st)) \<Longrightarrow> distinct (map fst (ks_by_path st'))"
proof (induction bs arbitrary: st)
  case (Cons bhd bs)
  obtain plain where plain: "f bhd None = Ok plain" using Cons.prems(1) by (cases "f bhd None") auto
  have s: "ks_by_path (settle_game m st) = ks_by_path st" by (simp add: settle_game_def split: option.split)
  show ?case
    using Cons.IH Cons.prems plain by (cases plain) (auto simp: Let_def distinct_fst_update s dest: try_games_distinct)
qed simp

lemma keys_by_path_distinct:
  assumes "into_keys_for_game_with_filter read_dir base64 rts f archives dir game = Some (Ok ks)"
  shows "distinct (map fst (keys_by_path ks))"
proof -
  obtain m where "find_pem_paths read_dir dir = Some m" using assms by (auto simp: into_keys_for_game_with_filter_def)
  then show ?thesis
    using assms by (cases m) (auto simp: into_keys_for_game_with_filter_def map_err_def dest: match_archives_distinct)
qed

section \<open>Properties\<close>

text \<open>C16: for a key directory whose hierarchy is finite and can be listed, with a game asked for or
  none, every archive in the result of the key search is one of the
  mount and opens with what it is given: nothing when its header is plain, else the key of a PEM file,
  of the game asked for when that game has PEM files. Without a game asked for the search detects one:
  it has a key that opens one of the archives. Every plain archive is in the result; an archive that a
  key of any game opens is left out only when a game with PEM files was asked for or detected and none
  of its keys opens it; all this in whatever order archives, games and PEM files are tried. When the
  PEM files can be read and decoded and the check does not fail, the search returns.\<close>

theorem keys_match_archives:
  assumes "served read_dir (DDir dir ts)"
  shows "(\<forall>ks. into_keys_for_game_with_filter read_dir base64 read_to_string f archives dir game = Some (Ok ks) \<longrightarrow>
      keys_ok base64 read_to_string f (files_of (DDir dir ts)) (snd ` set archives) game ks) \<and>
    ((\<forall>p \<in> set (files_of (DDir dir ts)). extension_is ''pem'' p \<longrightarrow> (\<exists>k. pem_key base64 read_to_string p k)) \<longrightarrow>
     (\<forall>bhd \<in> snd ` set archives. \<forall>ko. \<exists>b. f bhd ko = Ok b) \<longrightarrow>
     (\<exists>ks. into_keys_for_game_with_filter read_dir base64 read_to_string f archives dir game = Some (Ok ks)))"
  using keys_with_filter_ok [OF assms] by blast

definition sample_pems :: "string \<Rightarrow> dir_entry list io" where
  "sample_pems path =
     (if path = ''k'' then Ok [Ok (''k/ER'', Ok True)]
      else if path = ''k/ER'' then Ok [Ok (''k/ER/Data0.pem'', Ok False)]
      else Err 2)"

definition sample_base64 :: "string \<Rightarrow> bytes option" where
  "sample_base64 s = Some [0x30, 6, 2, 1, 143, 2, 1, 3]"

theorem keys_match_archives_witness:
  "\<exists>ks. into_keys_for_game_with_filter sample_pems sample_base64 (\<lambda>_. Ok ''x'') (\<lambda>bhd ko. Ok (ko \<noteq> None))
      [(''Data0'', ''g/Data0.bhd'')] ''k'' None = Some (Ok ks) \<and>
    map_of (keys_by_path ks) ''g/Data0.bhd'' \<noteq> None"
proof -
  let ?k = "\<lparr>rsa_n = 143, rsa_e = 3, rsa_len = 1\<rparr>" and ?f = "\<lambda>bhd ko. Ok (ko \<noteq> None)"
  let ?run = "into_keys_for_game_with_filter sample_pems sample_base64 (\<lambda>_. Ok ''x'') ?f [(''Data0'', ''g/Data0.bhd'')] ''k'' None"
  have s: "served sample_pems (DDir ''k'' [DDir ''k/ER'' [DFile ''k/ER/Data0.pem'']])" by (simp add: sample_pems_def)
  have "natural_from_bytes_be [143] = 143" "natural_from_bytes_be [3] = 3"
    by (simp_all add: natural_from_bytes be_nat_def)
  then have "decode_from_pem sample_base64 ''x'' = Ok ?k"
    by (simp add: decode_from_pem_def sample_base64_def DER_SEQ_def DER_INT_def)
  then have k: "pem_key sample_base64 (\<lambda>_. Ok ''x'') p ?k" for p by (simp add: pem_key_def)
  note T = keys_match_archives [OF s, of sample_base64 "\<lambda>_. Ok ''x''" ?f "[(''Data0'', ''g/Data0.bhd'')]" None]
  have "\<exists>ks. ?run = Some (Ok ks)" using T k by auto
  then obtain ks where ks: "?run = Some (Ok ks)" ..
  have ext: "extension_is ''pem'' ''k/ER/Data0.pem''" "pem_game ''k/ER/Data0.pem'' = ''er''" by code_simp+
  have "key_of_game sample_base64 (\<lambda>_. Ok ''x'') (files_of (DDir ''k'' [DDir ''k/ER'' [DFile ''k/ER/Data0.pem'']])) ''er'' ?k"
    using ext k by (simp add: key_of_game_def)
  then have "game_opens sample_base64 (\<lambda>_. Ok ''x'') ?f (files_of (DDir ''k'' [DDir ''k/ER'' [DFile ''k/ER/Data0.pem'']])) ''er''
      ''g/Data0.bhd''" unfolding game_opens_def by blast
  moreover have "keys_ok sample_base64 (\<lambda>_. Ok ''x'') ?f (files_of (DDir ''k'' [DDir ''k/ER'' [DFile ''k/ER/Data0.pem'']]))
      (snd ` set [(''Data0'', ''g/Data0.bhd'')]) None ks"
    using T ks by blast
  ultimately have "map_of (keys_by_path ks) ''g/Data0.bhd'' \<noteq> None"
    unfolding keys_ok_def by (simp del: files_of.simps) blast
  then show ?thesis using ks by blast
qed

end
