(* ===== verification/Thread.thy ===== *)
theory Thread
  imports Prelude
begin

text \<open>
  Waiting for the interrupt (\<open>src/thread.rs\<close>): the main thread, the handler that runs on its own
  thread for every signal, and the reader of standard input of a piped mount, sharing a flag
  behind a mutex with a condition variable. A step relation interleaves the three; signals,
  spurious wake-ups and the end of the input are steps of the environment. The budget of signals
  and spurious wake-ups in a state is arbitrary but finite. A panic that unwinds with the guard
  alive poisons the mutex, and locking a poisoned mutex panics, because every lock is unwrapped.
\<close>

datatype thread_id = MainThread | HandlerThread | ReaderThread

text \<open>What \<open>read_exact\<close> of one byte sees: nothing yet, a byte, or the end or an error.\<close>

datatype stdin = Open | Byte | Closed

datatype main_pc = SetHandler | SpawnReader | MainLock | Check | Waiting | Relock | Interrupt
  | Done "(nat, unit) outcome"

datatype handler_pc = Unset | Idle | HandlerLock | HandlerSet | HandlerNotify | HandlerUnlock | HandlerDead

datatype reader_pc = NoReader | Reading | ReaderLock stdin | ReaderExpect stdin | ReaderSet | ReaderNotify
  | ReaderUnlock | ReaderDone | ReaderDead

record threads =
  piped :: bool
  interrupted :: bool
  owner :: "thread_id option"
  poisoned :: bool
  main_at :: main_pc
  handler_at :: handler_pc
  reader_at :: reader_pc
  pending :: nat
  std_in :: stdin
  signals :: nat
  spurious :: nat

text \<open>What is not in this file: the results of \<open>ctrlc::set_handler\<close> and of \<open>run.interrupt()\<close>, and
  whether anyone writes to standard input.\<close>

record outside =
  set_handler_result :: "(nat, unit) outcome"
  interrupt_result :: "(nat, unit) outcome"
  stdin_written :: bool

definition threads_new :: "bool \<Rightarrow> nat \<Rightarrow> nat \<Rightarrow> threads" where
  "threads_new p n m = \<lparr>piped = p, interrupted = False, owner = None, poisoned = False, main_at = SetHandler,
     handler_at = Unset, reader_at = NoReader, pending = 0, std_in = Open, signals = n, spurious = m\<rparr>"

section \<open>Steps\<close>

text \<open>\<open>notify_all\<close> wakes the main thread when it waits.\<close>

definition notify_all :: "threads \<Rightarrow> threads" where
  "notify_all s = (if main_at s = Waiting then s\<lparr>main_at := Relock\<rparr> else s)"

inductive main_step :: "outside \<Rightarrow> threads \<Rightarrow> threads \<Rightarrow> bool" for env where
  set_handler: "main_at s = SetHandler \<Longrightarrow>
     main_step env s (case set_handler_result env of
                        Ok _ \<Rightarrow> s\<lparr>main_at := SpawnReader, handler_at := Idle\<rparr>
                      | r \<Rightarrow> s\<lparr>main_at := Done r\<rparr>)"
| spawn: "main_at s = SpawnReader \<Longrightarrow>
     main_step env s (s\<lparr>main_at := MainLock, reader_at := if piped s then Reading else NoReader\<rparr>)"
| lock: "main_at s = MainLock \<or> main_at s = Relock \<Longrightarrow> owner s = None \<Longrightarrow>
     main_step env s (if poisoned s then s\<lparr>main_at := Done Panic\<rparr> else s\<lparr>main_at := Check, owner := Some MainThread\<rparr>)"
| check: "main_at s = Check \<Longrightarrow>
     main_step env s (if interrupted s then s\<lparr>main_at := Interrupt\<rparr> else s\<lparr>main_at := Waiting, owner := None\<rparr>)"
| interrupt: "main_at s = Interrupt \<Longrightarrow>
     main_step env s (s\<lparr>main_at := Done (interrupt_result env), owner := None,
                        poisoned := poisoned s \<or> interrupt_result env = Panic\<rparr>)"

inductive handler_step :: "threads \<Rightarrow> threads \<Rightarrow> bool" where
  start: "handler_at s = Idle \<Longrightarrow> pending s = Suc n \<Longrightarrow> handler_step s (s\<lparr>handler_at := HandlerLock, pending := n\<rparr>)"
| lock: "handler_at s = HandlerLock \<Longrightarrow> owner s = None \<Longrightarrow>
     handler_step s (if poisoned s then s\<lparr>handler_at := HandlerDead\<rparr>
                     else s\<lparr>handler_at := HandlerSet, owner := Some HandlerThread\<rparr>)"
| set: "handler_at s = HandlerSet \<Longrightarrow> handler_step s (s\<lparr>handler_at := HandlerNotify, interrupted := True\<rparr>)"
| notify_main: "handler_at s = HandlerNotify \<Longrightarrow> handler_step s (notify_all (s\<lparr>handler_at := HandlerUnlock\<rparr>))"
| unlock: "handler_at s = HandlerUnlock \<Longrightarrow> handler_step s (s\<lparr>handler_at := Idle, owner := None\<rparr>)"

text \<open>The reader takes the lock before it unwraps the result of the read.\<close>

inductive reader_step :: "threads \<Rightarrow> threads \<Rightarrow> bool" where
  read: "reader_at s = Reading \<Longrightarrow> std_in s \<noteq> Open \<Longrightarrow> reader_step s (s\<lparr>reader_at := ReaderLock (std_in s)\<rparr>)"
| lock: "reader_at s = ReaderLock res \<Longrightarrow> owner s = None \<Longrightarrow>
     reader_step s (if poisoned s then s\<lparr>reader_at := ReaderDead\<rparr>
                    else s\<lparr>reader_at := ReaderExpect res, owner := Some ReaderThread\<rparr>)"
| expect_err: "reader_at s = ReaderExpect res \<Longrightarrow>
     reader_step s (if res = Byte then s\<lparr>reader_at := ReaderDead, owner := None, poisoned := True\<rparr>
                    else s\<lparr>reader_at := ReaderSet\<rparr>)"
| set: "reader_at s = ReaderSet \<Longrightarrow> reader_step s (s\<lparr>reader_at := ReaderNotify, interrupted := True\<rparr>)"
| notify_main: "reader_at s = ReaderNotify \<Longrightarrow> reader_step s (notify_all (s\<lparr>reader_at := ReaderUnlock\<rparr>))"
| unlock: "reader_at s = ReaderUnlock \<Longrightarrow> reader_step s (s\<lparr>reader_at := ReaderDone, owner := None\<rparr>)"

inductive env_step :: "outside \<Rightarrow> threads \<Rightarrow> threads \<Rightarrow> bool" for env where
  signal: "handler_at s \<noteq> Unset \<Longrightarrow> signals s = Suc n \<Longrightarrow> env_step env s (s\<lparr>signals := n, pending := pending s + 1\<rparr>)"
| close_stdin: "std_in s = Open \<Longrightarrow> env_step env s (s\<lparr>std_in := Closed\<rparr>)"
| write_byte: "std_in s = Open \<Longrightarrow> stdin_written env \<Longrightarrow> env_step env s (s\<lparr>std_in := Byte\<rparr>)"
| wake: "main_at s = Waiting \<Longrightarrow> spurious s = Suc n \<Longrightarrow> env_step env s (s\<lparr>main_at := Relock, spurious := n\<rparr>)"

definition prog_step :: "outside \<Rightarrow> threads \<Rightarrow> threads \<Rightarrow> bool" where
  "prog_step env s s' \<longleftrightarrow> main_step env s s' \<or> handler_step s s' \<or> reader_step s s'"

definition run_step :: "outside \<Rightarrow> threads \<Rightarrow> threads \<Rightarrow> bool" where
  "run_step env s s' \<longleftrightarrow> prog_step env s s' \<or> env_step env s s'"

definition run_until_interrupted :: "outside \<Rightarrow> bool \<Rightarrow> nat \<Rightarrow> nat \<Rightarrow> threads \<Rightarrow> bool" where
  "run_until_interrupted env p n m s \<longleftrightarrow> (run_step env)\<^sup>*\<^sup>* (threads_new p n m) s"

text \<open>What every execution reaches, however the threads and the environment are scheduled: the
  program can go on as long as it has not got there, and every step leads closer.\<close>

inductive inevitable :: "outside \<Rightarrow> (threads \<Rightarrow> bool) \<Rightarrow> threads \<Rightarrow> bool" for env P where
  now: "P s \<Longrightarrow> inevitable env P s"
| later: "\<exists>s'. prog_step env s s' \<Longrightarrow> (\<And>s'. run_step env s s' \<Longrightarrow> inevitable env P s') \<Longrightarrow> inevitable env P s"

lemmas step_defs = run_step_def prog_step_def

inductive_cases main_stepE: "main_step env s s'"
inductive_cases handler_stepE: "handler_step s s'"
inductive_cases reader_stepE: "reader_step s s'"
inductive_cases env_stepE: "env_step env s s'"

lemmas step_elims = main_stepE handler_stepE reader_stepE env_stepE


section \<open>The mutex and the flag\<close>

text \<open>Where a thread stands when it holds the lock.\<close>

definition main_holds :: "threads \<Rightarrow> bool" where
  "main_holds s \<longleftrightarrow> main_at s = Check \<or> main_at s = Interrupt"

definition handler_holds :: "threads \<Rightarrow> bool" where
  "handler_holds s \<longleftrightarrow> handler_at s = HandlerSet \<or> handler_at s = HandlerNotify \<or> handler_at s = HandlerUnlock"

definition reader_holds :: "threads \<Rightarrow> bool" where
  "reader_holds s \<longleftrightarrow> (\<exists>r. reader_at s = ReaderExpect r) \<or> reader_at s = ReaderSet \<or> reader_at s = ReaderNotify \<or>
     reader_at s = ReaderUnlock"

definition mutex_ok :: "threads \<Rightarrow> bool" where
  "mutex_ok s \<longleftrightarrow> (main_holds s \<longleftrightarrow> owner s = Some MainThread) \<and> (handler_holds s \<longleftrightarrow> owner s = Some HandlerThread) \<and>
     (reader_holds s \<longleftrightarrow> owner s = Some ReaderThread)"

lemmas holds_defs = main_holds_def handler_holds_def reader_holds_def mutex_ok_def

text \<open>Who got past the flag has seen or set it; nobody waits behind a flag that is set without a
  wake-up on its way.\<close>

definition flag_ok :: "threads \<Rightarrow> bool" where
  "flag_ok s \<longleftrightarrow>
     (main_at s = Interrupt \<longrightarrow> interrupted s) \<and>
     (handler_at s = HandlerNotify \<or> handler_at s = HandlerUnlock \<longrightarrow> interrupted s) \<and>
     (reader_at s = ReaderNotify \<or> reader_at s = ReaderUnlock \<or> reader_at s = ReaderDone \<longrightarrow> interrupted s)"

definition wake_ok :: "threads \<Rightarrow> bool" where
  "wake_ok s \<longleftrightarrow>
     (interrupted s \<and> main_at s = Waiting \<longrightarrow> handler_at s = HandlerNotify \<or> reader_at s = ReaderNotify)"

text \<open>Someone asked for the interrupt: a signal arrived, or the input of a piped mount ended.\<close>

definition requested :: "nat \<Rightarrow> threads \<Rightarrow> bool" where
  "requested n s \<longleftrightarrow> signals s < n \<or> (piped s \<and> std_in s = Closed)"

definition request_ok :: "nat \<Rightarrow> threads \<Rightarrow> bool" where
  "request_ok n s \<longleftrightarrow>
     signals s \<le> n \<and>
     (pending s > 0 \<or> handler_at s \<notin> {Unset, Idle, HandlerDead} \<longrightarrow> signals s < n) \<and>
     (reader_at s \<noteq> NoReader \<longrightarrow> piped s) \<and>
     (\<forall>r. reader_at s = ReaderLock r \<or> reader_at s = ReaderExpect r \<longrightarrow> r = std_in s \<and> r \<noteq> Open) \<and>
     (reader_at s \<in> {ReaderSet, ReaderNotify, ReaderUnlock, ReaderDone} \<longrightarrow> std_in s = Closed) \<and>
     (interrupted s \<longrightarrow> requested n s) \<and>
     (signals s < n \<longrightarrow> interrupted s \<or> pending s > 0 \<or> handler_at s \<in> {HandlerLock, HandlerSet, HandlerDead})"

definition poison_ok :: "outside \<Rightarrow> threads \<Rightarrow> bool" where
  "poison_ok env s \<longleftrightarrow> (poisoned s \<longrightarrow> std_in s = Byte \<or> main_at s = Done Panic \<and> interrupt_result env = Panic) \<and>
     (handler_at s = HandlerDead \<or> reader_at s = ReaderDead \<longrightarrow> poisoned s)"

definition start_ok :: "outside \<Rightarrow> threads \<Rightarrow> bool" where
  "start_ok env s \<longleftrightarrow>
     (handler_at s = Unset \<longleftrightarrow> main_at s = SetHandler \<or> (\<exists>r. main_at s = Done r \<and> set_handler_result env \<noteq> Ok ())) \<and>
     (piped s \<and> reader_at s = NoReader \<longrightarrow>
        main_at s \<in> {SetHandler, SpawnReader} \<or> (\<exists>r. main_at s = Done r \<and> set_handler_result env \<noteq> Ok ())) \<and>
     (main_at s \<in> {SetHandler, SpawnReader} \<longrightarrow> reader_at s = NoReader) \<and>
     (main_at s \<noteq> SetHandler \<and> (\<forall>r. main_at s \<noteq> Done r) \<longrightarrow> set_handler_result env = Ok ()) \<and>
     (std_in s = Byte \<longrightarrow> stdin_written env)"

definition done_ok :: "outside \<Rightarrow> threads \<Rightarrow> bool" where
  "done_ok env s \<longleftrightarrow>
     (\<forall>r. main_at s = Done r \<longrightarrow> set_handler_result env \<noteq> Ok () \<or> std_in s = Byte \<or> (interrupted s \<and> r = interrupt_result env))"

definition threads_ok :: "outside \<Rightarrow> nat \<Rightarrow> threads \<Rightarrow> bool" where
  "threads_ok env n s \<longleftrightarrow> mutex_ok s \<and> flag_ok s \<and> request_ok n s \<and> poison_ok env s \<and> start_ok env s \<and>
     wake_ok s \<and> done_ok env s"

lemmas threads_ok_defs = threads_ok_def holds_defs flag_ok_def requested_def request_ok_def poison_ok_def start_ok_def
  wake_ok_def done_ok_def

lemma threads_new_ok: "threads_ok env n (threads_new p n m)"
  by (simp add: threads_ok_defs threads_new_def)

lemma notify_all_fields [simp]:
  "piped (notify_all s) = piped s" "interrupted (notify_all s) = interrupted s" "owner (notify_all s) = owner s"
  "poisoned (notify_all s) = poisoned s" "handler_at (notify_all s) = handler_at s"
  "reader_at (notify_all s) = reader_at s" "pending (notify_all s) = pending s" "std_in (notify_all s) = std_in s"
  "signals (notify_all s) = signals s" "spurious (notify_all s) = spurious s"
  "main_at (notify_all s) = (if main_at s = Waiting then Relock else main_at s)"
  by (simp_all add: notify_all_def)

lemmas flag_defs = flag_ok_def
lemmas request_defs = request_ok_def requested_def

lemma main_mutex: "main_step env s s' \<Longrightarrow> mutex_ok s \<Longrightarrow> start_ok env s \<Longrightarrow> mutex_ok s'"
  by (erule main_step.cases; simp add: holds_defs start_ok_def split: outcome.split; auto?)

lemma handler_mutex: "handler_step s s' \<Longrightarrow> mutex_ok s \<Longrightarrow> mutex_ok s'"
  by (erule handler_step.cases; simp add: holds_defs; auto?)

lemma reader_mutex: "reader_step s s' \<Longrightarrow> mutex_ok s \<Longrightarrow> mutex_ok s'"
  by (erule reader_step.cases; simp add: holds_defs; auto?)

lemma env_mutex: "env_step env s s' \<Longrightarrow> mutex_ok s \<Longrightarrow> mutex_ok s'"
  by (erule env_step.cases; simp add: holds_defs; auto?)

lemma main_flag: "main_step env s s' \<Longrightarrow> flag_ok s \<Longrightarrow> flag_ok s'"
  by (erule main_step.cases; simp add: flag_defs split: outcome.split; auto?)

lemma handler_flag: "handler_step s s' \<Longrightarrow> flag_ok s \<Longrightarrow> flag_ok s'"
  by (erule handler_step.cases; simp add: flag_defs; auto?)

lemma reader_flag: "reader_step s s' \<Longrightarrow> flag_ok s \<Longrightarrow> flag_ok s'"
  by (erule reader_step.cases; simp add: flag_defs; auto?)

lemma env_flag: "env_step env s s' \<Longrightarrow> flag_ok s \<Longrightarrow> flag_ok s'"
  by (erule env_step.cases; simp add: flag_defs; auto?)

lemma main_request: "main_step env s s' \<Longrightarrow> request_ok n s \<Longrightarrow> start_ok env s \<Longrightarrow> request_ok n s'"
  by (erule main_step.cases; simp add: request_defs start_ok_def split: outcome.split; auto?)

lemma handler_request: "handler_step s s' \<Longrightarrow> request_ok n s \<Longrightarrow> request_ok n s'"
  by (erule handler_step.cases; simp add: request_defs; auto?)

lemma reader_request: "reader_step s s' \<Longrightarrow> request_ok n s \<Longrightarrow> request_ok n s'"
  by (erule reader_step.cases; simp add: request_defs; cases "std_in s"; simp)

lemma env_request: "env_step env s s' \<Longrightarrow> request_ok n s \<Longrightarrow> request_ok n s'"
  by (erule env_step.cases; simp add: request_defs; auto?)

lemma main_start: "main_step env s s' \<Longrightarrow> start_ok env s \<Longrightarrow> start_ok env s'"
  by (erule main_step.cases; cases "main_at s"; simp add: start_ok_def split: outcome.split; auto?)

lemma handler_start: "handler_step s s' \<Longrightarrow> start_ok env s \<Longrightarrow> start_ok env s'"
  by (erule handler_step.cases; cases "main_at s"; simp add: start_ok_def; auto?)

lemma reader_start: "reader_step s s' \<Longrightarrow> start_ok env s \<Longrightarrow> start_ok env s'"
  by (erule reader_step.cases; cases "main_at s"; simp add: start_ok_def; auto?)

lemma env_start: "env_step env s s' \<Longrightarrow> start_ok env s \<Longrightarrow> start_ok env s'"
  by (erule env_step.cases; cases "main_at s"; simp add: start_ok_def; auto?)

lemma main_done: "main_step env s s' \<Longrightarrow> done_ok env s \<Longrightarrow> flag_ok s \<Longrightarrow> poison_ok env s \<Longrightarrow> done_ok env s'"
  by (erule main_step.cases; cases "main_at s"; simp add: done_ok_def flag_ok_def poison_ok_def split: outcome.split; auto?)

lemma handler_done: "handler_step s s' \<Longrightarrow> done_ok env s \<Longrightarrow> done_ok env s'"
  by (erule handler_step.cases; simp add: done_ok_def; auto?)

lemma reader_done: "reader_step s s' \<Longrightarrow> done_ok env s \<Longrightarrow> done_ok env s'"
  by (erule reader_step.cases; simp add: done_ok_def; auto?)

lemma env_done: "env_step env s s' \<Longrightarrow> done_ok env s \<Longrightarrow> done_ok env s'"
  by (erule env_step.cases; simp add: done_ok_def; auto?)

lemma main_wake: "main_step env s s' \<Longrightarrow> wake_ok s \<Longrightarrow> wake_ok s'"
  by (erule main_step.cases; simp add: wake_ok_def split: outcome.split; auto?)

lemma handler_wake: "handler_step s s' \<Longrightarrow> wake_ok s \<Longrightarrow> wake_ok s'"
  by (erule handler_step.cases; simp add: wake_ok_def; auto?)

lemma reader_wake: "reader_step s s' \<Longrightarrow> wake_ok s \<Longrightarrow> wake_ok s'"
  by (erule reader_step.cases; simp add: wake_ok_def; auto?)

lemma env_wake: "env_step env s s' \<Longrightarrow> wake_ok s \<Longrightarrow> wake_ok s'"
  by (erule env_step.cases; simp add: wake_ok_def; auto?)

lemma main_poison: "main_step env s s' \<Longrightarrow> poison_ok env s \<Longrightarrow> poison_ok env s'"
  by (erule main_step.cases; simp add: poison_ok_def split: outcome.split; auto?)

lemma handler_poison: "handler_step s s' \<Longrightarrow> poison_ok env s \<Longrightarrow> poison_ok env s'"
  by (erule handler_step.cases; simp add: poison_ok_def; auto?)

lemma reader_poison: "reader_step s s' \<Longrightarrow> poison_ok env s \<Longrightarrow> request_ok n s \<Longrightarrow> poison_ok env s'"
  by (erule reader_step.cases; simp add: poison_ok_def request_ok_def; auto?)

lemma env_poison: "env_step env s s' \<Longrightarrow> poison_ok env s \<Longrightarrow> poison_ok env s'"
  by (erule env_step.cases; simp add: poison_ok_def; auto?)

lemma run_step_ok:
  assumes "run_step env s s'" "threads_ok env n s"
  shows "threads_ok env n s'"
proof -
  have ok: "mutex_ok s" "flag_ok s" "request_ok n s" "poison_ok env s" "start_ok env s" "wake_ok s" "done_ok env s"
    using assms(2) by (simp_all add: threads_ok_def)
  consider "main_step env s s'" | "handler_step s s'" | "reader_step s s'" | "env_step env s s'"
    using assms(1) by (auto simp: step_defs)
  then show ?thesis
  proof cases
    case 1
    note main_mutex [OF 1 ok(1,5)] main_flag [OF 1 ok(2)] main_request [OF 1 ok(3,5)] main_poison [OF 1 ok(4)]
      main_start [OF 1 ok(5)] main_wake [OF 1 ok(6)] main_done [OF 1 ok(7,2,4)]
    then show ?thesis by (simp only: threads_ok_def simp_thms)
  next
    case 2
    note handler_mutex [OF 2 ok(1)] handler_flag [OF 2 ok(2)] handler_request [OF 2 ok(3)] handler_poison [OF 2 ok(4)]
      handler_start [OF 2 ok(5)] handler_wake [OF 2 ok(6)] handler_done [OF 2 ok(7)]
    then show ?thesis by (simp only: threads_ok_def simp_thms)
  next
    case 3
    note reader_mutex [OF 3 ok(1)] reader_flag [OF 3 ok(2)] reader_request [OF 3 ok(3)] reader_poison [OF 3 ok(4,3)]
      reader_start [OF 3 ok(5)] reader_wake [OF 3 ok(6)] reader_done [OF 3 ok(7)]
    then show ?thesis by (simp only: threads_ok_def simp_thms)
  next
    case 4
    note env_mutex [OF 4 ok(1)] env_flag [OF 4 ok(2)] env_request [OF 4 ok(3)] env_poison [OF 4 ok(4)]
      env_start [OF 4 ok(5)] env_wake [OF 4 ok(6)] env_done [OF 4 ok(7)]
    then show ?thesis by (simp only: threads_ok_def simp_thms)
  qed
qed

lemma reachable_ok: "run_until_interrupted env p n m s \<Longrightarrow> threads_ok env n s"
  unfolding run_until_interrupted_def
  by (induction rule: rtranclp_induct) (auto intro: threads_new_ok run_step_ok)


section \<open>Every execution ends\<close>

text \<open>Weights such that every step loses some: a wake-up gives the main thread two back, and a
  signal pays for a whole round of the handler.\<close>

fun main_weight :: "main_pc \<Rightarrow> nat" where
  "main_weight SetHandler = 6" | "main_weight SpawnReader = 5" | "main_weight MainLock = 4" | "main_weight Relock = 4"
| "main_weight Check = 3" | "main_weight Waiting = 2" | "main_weight Interrupt = 1" | "main_weight (Done r) = 0"

fun handler_weight :: "handler_pc \<Rightarrow> nat" where
  "handler_weight Unset = 0" | "handler_weight Idle = 0" | "handler_weight HandlerLock = 10"
| "handler_weight HandlerSet = 8" | "handler_weight HandlerNotify = 6" | "handler_weight HandlerUnlock = 2"
| "handler_weight HandlerDead = 0"

fun reader_weight :: "reader_pc \<Rightarrow> nat" where
  "reader_weight NoReader = 20" | "reader_weight Reading = 12" | "reader_weight (ReaderLock r) = 10"
| "reader_weight (ReaderExpect r) = 9" | "reader_weight ReaderSet = 8" | "reader_weight ReaderNotify = 6"
| "reader_weight ReaderUnlock = 2" | "reader_weight ReaderDone = 0" | "reader_weight ReaderDead = 0"

definition weight :: "threads \<Rightarrow> nat" where
  "weight s = main_weight (main_at s) + handler_weight (handler_at s) + reader_weight (reader_at s) +
     12 * pending s + 14 * signals s + 4 * spurious s + (if std_in s = Open then 1 else 0)"

lemma main_step_weight: "main_step env s s' \<Longrightarrow> handler_at s = Unset \<or> main_at s \<noteq> SetHandler \<Longrightarrow>
    reader_at s = NoReader \<or> main_at s \<noteq> SpawnReader \<Longrightarrow> weight s' < weight s"
  by (erule main_step.cases) (auto simp: weight_def split: outcome.split)

lemma handler_step_weight: "handler_step s s' \<Longrightarrow> weight s' < weight s"
  by (erule handler_step.cases) (auto simp: weight_def)

lemma reader_step_weight: "reader_step s s' \<Longrightarrow> weight s' < weight s"
  by (erule reader_step.cases) (auto simp: weight_def)

lemma env_step_weight: "env_step env s s' \<Longrightarrow> weight s' < weight s"
  by (erule env_step.cases) (auto simp: weight_def)

lemma run_step_weight:
  assumes "run_step env s s'" "threads_ok env n s"
  shows "weight s' < weight s"
proof -
  have "start_ok env s" using assms(2) by (simp add: threads_ok_def)
  then have "handler_at s = Unset \<or> main_at s \<noteq> SetHandler" "reader_at s = NoReader \<or> main_at s \<noteq> SpawnReader"
    by (auto simp: start_ok_def)
  then show ?thesis
    using assms(1) main_step_weight [of env s s'] handler_step_weight [of s s'] reader_step_weight [of s s']
      env_step_weight [of env s s'] unfolding step_defs by blast
qed

lemma requested_step: "run_step env s s' \<Longrightarrow> requested n s \<Longrightarrow> requested n s'"
  unfolding step_defs requested_def
  by (elim disjE main_step.cases handler_step.cases reader_step.cases env_step.cases; simp split: outcome.split; auto?)

text \<open>A holder of the lock can go on.\<close>

lemma holder_goes_on:
  assumes "mutex_ok s" "owner s = Some t"
  shows "\<exists>s'. prog_step env s s'"
proof (cases t)
  case MainThread
  then have "main_at s = Check \<or> main_at s = Interrupt" using assms by (simp add: holds_defs)
  then show ?thesis by (auto simp: prog_step_def intro: main_step.check main_step.interrupt)
next
  case HandlerThread
  then have "handler_at s = HandlerSet \<or> handler_at s = HandlerNotify \<or> handler_at s = HandlerUnlock"
    using assms by (simp add: holds_defs)
  then show ?thesis
    by (auto simp: prog_step_def intro: handler_step.set handler_step.notify_main handler_step.unlock)
next
  case ReaderThread
  then have "(\<exists>r. reader_at s = ReaderExpect r) \<or> reader_at s = ReaderSet \<or> reader_at s = ReaderNotify \<or> reader_at s = ReaderUnlock"
    using assms by (simp add: holds_defs)
  then show ?thesis
    by (auto simp: prog_step_def intro: reader_step.set reader_step.notify_main reader_step.unlock reader_step.expect_err)
qed

text \<open>A state from which the interrupt must come.\<close>

definition awaited :: "outside \<Rightarrow> nat \<Rightarrow> threads \<Rightarrow> bool" where
  "awaited env n s \<longleftrightarrow> threads_ok env n s \<and> requested n s \<and> \<not> stdin_written env \<and> set_handler_result env = Ok ()"

definition unmounted :: "outside \<Rightarrow> threads \<Rightarrow> bool" where
  "unmounted env s \<longleftrightarrow> main_at s = Done (interrupt_result env)"

lemma waiting_goes_on:
  assumes "awaited env n s" "main_at s = Waiting" "owner s = None"
  shows "\<exists>s'. prog_step env s s'"
proof -
  have ok: "mutex_ok s" "request_ok n s" "poison_ok env s" "start_ok env s" "wake_ok s"
    using assms(1) by (simp_all add: awaited_def threads_ok_def)
  have np: "\<not> poisoned s"
    using ok(3,4) assms(1,2) by (auto simp: poison_ok_def start_ok_def awaited_def)
  have nh: "\<not> handler_holds s" "\<not> reader_holds s" using ok(1) assms(3) by (simp_all add: mutex_ok_def)
  have h: "handler_at s = Idle \<or> handler_at s = HandlerLock"
    using nh(1) ok(3,4) np assms(2) by (cases "handler_at s") (auto simp: handler_holds_def poison_ok_def start_ok_def)
  have "\<not> interrupted s" using ok(5) assms(2) nh by (auto simp: wake_ok_def handler_holds_def reader_holds_def)
  then have "pending s > 0 \<or> handler_at s = HandlerLock \<or> (piped s \<and> std_in s = Closed)"
    using assms(1) ok(2) h by (auto simp: awaited_def requested_def request_ok_def)
  then consider "handler_at s = HandlerLock" | m where "handler_at s = Idle" "pending s = Suc m" | "piped s" "std_in s = Closed"
    using h by (metis gr0_implies_Suc)
  then show ?thesis
  proof cases
    case 1
    then show ?thesis using assms(3) by (auto simp: prog_step_def intro: handler_step.lock)
  next
    case (2 m)
    then show ?thesis by (auto simp: prog_step_def intro: handler_step.start)
  next
    case 3
    have "reader_at s = Reading \<or> (\<exists>r. reader_at s = ReaderLock r)"
    proof (cases "reader_at s")
      case ReaderDone
      then have "flag_ok s \<longrightarrow> interrupted s" by (simp add: flag_ok_def)
      then show ?thesis using assms(1) \<open>\<not> interrupted s\<close> by (simp add: awaited_def threads_ok_def)
    next
      case NoReader
      then show ?thesis using ok(4) 3(1) assms(1,2) by (simp add: start_ok_def)
    next
      case ReaderDead
      then show ?thesis using ok(3) np by (simp add: poison_ok_def)
    qed (use nh(2) in \<open>auto simp: reader_holds_def\<close>)
    then show ?thesis using assms(3) 3(2)
      by (metis prog_step_def reader_step.lock reader_step.read stdin.distinct(4))
  qed
qed

lemma awaited_goes_on:
  assumes "awaited env n s" "\<not> unmounted env s"
  shows "\<exists>s'. prog_step env s s'"
proof (cases "owner s")
  case (Some t)
  then show ?thesis using assms(1) holder_goes_on by (auto simp: awaited_def threads_ok_def)
next
  case None
  have ok: "mutex_ok s" "poison_ok env s" "start_ok env s" "done_ok env s"
    using assms(1) by (simp_all add: awaited_def threads_ok_def)
  show ?thesis
  proof (cases "main_at s")
    case Waiting
    then show ?thesis using waiting_goes_on [OF assms(1)] None by blast
  next
    case (Done r)
    then show ?thesis using ok(2,3,4) assms by (auto simp: done_ok_def unmounted_def awaited_def poison_ok_def start_ok_def)
  qed (use None in \<open>auto simp: prog_step_def intro: main_step.set_handler main_step.spawn main_step.lock main_step.check main_step.interrupt\<close>)
qed

lemma awaited_step: "awaited env n s \<Longrightarrow> run_step env s s' \<Longrightarrow> awaited env n s'"
  unfolding awaited_def using run_step_ok requested_step by blast

text \<open>Progress and a measure give inevitability.\<close>

locale ranked_run =
  fixes env :: outside and good :: "threads \<Rightarrow> bool" and goal :: "threads \<Rightarrow> bool" and rank :: "threads \<Rightarrow> nat"
  assumes good_step: "good s \<Longrightarrow> run_step env s s' \<Longrightarrow> good s'"
    and rank_step: "good s \<Longrightarrow> run_step env s s' \<Longrightarrow> rank s' < rank s"
    and goes_on: "good s \<Longrightarrow> \<not> goal s \<Longrightarrow> \<exists>s'. prog_step env s s'"
begin

lemma reaches_goal: "good s \<Longrightarrow> inevitable env goal s"
proof (induction "rank s" arbitrary: s rule: less_induct)
  case less
  show ?case
  proof (cases "goal s")
    case False
    show ?thesis
    proof (rule inevitable.later)
      show "\<exists>s'. prog_step env s s'" using goes_on [OF less.prems False] .
      show "inevitable env goal s'" if "run_step env s s'" for s'
        using less.hyps [OF rank_step [OF less.prems that] good_step [OF less.prems that]] .
    qed
  qed (rule inevitable.now)
qed

end

interpretation shutdown: ranked_run env "awaited env n" "unmounted env" weight for env n
proof unfold_locales
  show "awaited env n s'" if "awaited env n s" "run_step env s s'" for s s' using awaited_step [OF that] .
  show "weight s' < weight s" if "awaited env n s" "run_step env s s'" for s s'
    using that run_step_weight unfolding awaited_def by blast
  show "\<exists>s'. prog_step env s s'" if "awaited env n s" "\<not> unmounted env s" for s using awaited_goes_on [OF that] .
qed

text \<open>A reader that got a byte dies with the lock, and wakes nobody.\<close>

definition stuck :: "threads \<Rightarrow> bool" where
  "stuck s \<longleftrightarrow> main_at s = Waiting \<and> spurious s = 0 \<and> \<not> handler_holds s \<and>
     (reader_at s = ReaderExpect Byte \<and> owner s = Some ReaderThread \<or> reader_at s = ReaderDead \<and> poisoned s)"

lemma stuck_step: "stuck s \<Longrightarrow> run_step env s s' \<Longrightarrow> stuck s'"
  unfolding step_defs stuck_def handler_holds_def
  by (elim disjE main_step.cases handler_step.cases reader_step.cases env_step.cases; simp; auto?)

lemma stuck_forever: "(run_step env)\<^sup>*\<^sup>* s t \<Longrightarrow> stuck s \<Longrightarrow> stuck t"
  by (induction rule: rtranclp_induct) (auto intro: stuck_step)


section \<open>Properties\<close>

text \<open>C18: in every interleaving of the main thread, the signal handler and the reader of standard
  input at most one of them holds the lock; the mount is interrupted only when a signal arrived
  or the input of a piped mount ended; the main thread never waits behind a flag that is set
  without a wake-up on its way; and it returns the result of the interrupt, unless the handler
  could not be installed or a thread panicked with the lock.\<close>

theorem threads_safe:
  assumes "run_until_interrupted env p n m s"
  shows "(main_holds s \<longrightarrow> \<not> handler_holds s \<and> \<not> reader_holds s) \<and> (handler_holds s \<longrightarrow> \<not> reader_holds s) \<and>
    (main_at s = Interrupt \<longrightarrow> requested n s) \<and>
    (interrupted s \<and> main_at s = Waiting \<longrightarrow> handler_at s = HandlerNotify \<or> reader_at s = ReaderNotify) \<and>
    (\<forall>r. main_at s = Done r \<longrightarrow>
       set_handler_result env \<noteq> Ok () \<or> stdin_written env \<or> (requested n s \<and> r = interrupt_result env))"
proof (intro conjI)
  have ok: "mutex_ok s" "flag_ok s" "request_ok n s" "poison_ok env s" "start_ok env s" "wake_ok s" "done_ok env s"
    using reachable_ok [OF assms] by (simp_all add: threads_ok_def)
  show "main_holds s \<longrightarrow> \<not> handler_holds s \<and> \<not> reader_holds s" "handler_holds s \<longrightarrow> \<not> reader_holds s"
    using ok(1) by (auto simp: mutex_ok_def)
  have r: "interrupted s \<Longrightarrow> requested n s" using ok(3) by (simp add: request_ok_def)
  show "main_at s = Interrupt \<longrightarrow> requested n s" using r ok(2) by (simp add: flag_ok_def)
  show "interrupted s \<and> main_at s = Waiting \<longrightarrow> handler_at s = HandlerNotify \<or> reader_at s = ReaderNotify"
    using ok(6) by (simp add: wake_ok_def)
  have "std_in s = Byte \<Longrightarrow> stdin_written env" using ok(5) by (simp add: start_ok_def)
  then show "\<forall>r. main_at s = Done r \<longrightarrow>
       set_handler_result env \<noteq> Ok () \<or> stdin_written env \<or> (requested n s \<and> r = interrupt_result env)"
    using ok(7) r unfolding done_ok_def by blast
qed

text \<open>A run to the wait, and on to the panic of the reader.\<close>

definition sample_env :: outside where
  "sample_env = \<lparr>set_handler_result = Ok (), interrupt_result = Ok (), stdin_written = True\<rparr>"

definition sample_wait :: threads where
  "sample_wait = \<lparr>piped = True, interrupted = False, owner = None, poisoned = False, main_at = Waiting,
     handler_at = Idle, reader_at = Reading, pending = 0, std_in = Open, signals = 0, spurious = 0\<rparr>"

definition sample_byte :: threads where
  "sample_byte = sample_wait\<lparr>std_in := Byte, reader_at := ReaderExpect Byte, owner := Some ReaderThread\<rparr>"

lemma run_step_main: "main_step env s s' \<Longrightarrow> run_step env s s'"
  by (simp add: step_defs)

lemma run_step_reader: "reader_step s s' \<Longrightarrow> run_step env s s'"
  by (simp add: step_defs)

lemma run_step_env: "env_step env s s' \<Longrightarrow> run_step env s s'"
  by (simp add: step_defs)

lemmas sample_defs = threads_new_def sample_env_def sample_wait_def sample_byte_def

lemma sample_wait_reached: "run_until_interrupted sample_env True 0 0 sample_wait"
proof -
  let ?s0 = "threads_new True 0 0"
  let ?s1 = "?s0\<lparr>main_at := SpawnReader, handler_at := Idle\<rparr>"
  let ?s2 = "?s1\<lparr>main_at := MainLock, reader_at := Reading\<rparr>"
  let ?s3 = "?s2\<lparr>main_at := Check, owner := Some MainThread\<rparr>"
  have "main_step sample_env ?s0 ?s1" using main_step.set_handler [of ?s0 sample_env] by (simp add: sample_defs)
  moreover have "main_step sample_env ?s1 ?s2" using main_step.spawn [of ?s1 sample_env] by (simp add: sample_defs)
  moreover have "main_step sample_env ?s2 ?s3" using main_step.lock [of ?s2 sample_env] by (simp add: sample_defs)
  moreover have "main_step sample_env ?s3 sample_wait" using main_step.check [of ?s3 sample_env] by (simp add: sample_defs)
  ultimately show ?thesis unfolding run_until_interrupted_def
    by (meson run_step_main rtranclp.rtrancl_into_rtrancl rtranclp.rtrancl_refl)
qed

lemma sample_byte_reached: "run_until_interrupted sample_env True 0 0 sample_byte"
proof -
  let ?s1 = "sample_wait\<lparr>std_in := Byte\<rparr>"
  let ?s2 = "?s1\<lparr>reader_at := ReaderLock Byte\<rparr>"
  have "env_step sample_env sample_wait ?s1" using env_step.write_byte [of sample_wait sample_env] by (simp add: sample_defs)
  moreover have "reader_step ?s1 ?s2" using reader_step.read [of ?s1] by (simp add: sample_defs)
  moreover have "reader_step ?s2 sample_byte" using reader_step.lock [of ?s2 Byte] by (simp add: sample_defs)
  ultimately show ?thesis using sample_wait_reached unfolding run_until_interrupted_def
    by (meson run_step_env run_step_reader rtranclp.rtrancl_into_rtrancl)
qed

theorem threads_safe_witness: "reader_holds sample_byte \<and> \<not> handler_holds sample_byte"
proof -
  have "reader_holds sample_byte" by (simp add: sample_defs reader_holds_def)
  with threads_safe [OF sample_byte_reached] show ?thesis by blast
qed

text \<open>C15: once a signal arrived, or the input of a piped mount ended, every execution goes on until
  the interrupt of the mount has run and its result is returned, whatever further signals and
  spurious wake-ups come between, as long as nobody writes to the input.\<close>

theorem shutdown_inevitable:
  assumes "run_until_interrupted env p n m s" "requested n s" "set_handler_result env = Ok ()" "\<not> stdin_written env"
  shows "inevitable env (unmounted env) s"
  by (rule shutdown.reaches_goal) (use assms reachable_ok in \<open>auto simp: awaited_def\<close>)

lemma closed_at_once: "run_until_interrupted env True 0 0 ((threads_new True 0 0)\<lparr>std_in := Closed\<rparr>)"
  unfolding run_until_interrupted_def
  by (rule r_into_rtranclp, rule run_step_env, rule env_step.close_stdin) (simp add: threads_new_def)

theorem shutdown_inevitable_witness:
  "inevitable \<lparr>set_handler_result = Ok (), interrupt_result = Err 5, stdin_written = False\<rparr>
    (unmounted \<lparr>set_handler_result = Ok (), interrupt_result = Err 5, stdin_written = False\<rparr>)
    ((threads_new True 0 0)\<lparr>std_in := Closed\<rparr>)"
  by (rule shutdown_inevitable [OF closed_at_once]) (simp_all add: requested_def threads_new_def)

text \<open>C34: when a byte is read from the input the reader panics with the lock in its hands and
  without a wake-up: if the main thread waits then, it waits for ever, whatever signals follow,
  unless a wake-up comes from nowhere.\<close>

theorem stdin_byte_hangs:
  assumes "run_until_interrupted env p n m s"
    and "main_at s = Waiting" "reader_at s = ReaderExpect Byte" "spurious s = 0"
    and "(run_step env)\<^sup>*\<^sup>* s t"
  shows "main_at t = Waiting"
proof -
  have "mutex_ok s" using reachable_ok [OF assms(1)] by (simp add: threads_ok_def)
  moreover have "reader_holds s" using assms(3) by (simp add: reader_holds_def)
  ultimately have "owner s = Some ReaderThread" "\<not> handler_holds s" by (auto simp: mutex_ok_def)
  then have "stuck s" using assms(2-4) by (simp add: stuck_def)
  from stuck_forever [OF assms(5) this] show ?thesis by (simp add: stuck_def)
qed

theorem stdin_byte_hangs_witness:
  "main_at (sample_byte\<lparr>reader_at := ReaderDead, owner := None, poisoned := True\<rparr>) = Waiting"
proof -
  have "run_step sample_env sample_byte (sample_byte\<lparr>reader_at := ReaderDead, owner := None, poisoned := True\<rparr>)"
    using reader_step.expect_err [of sample_byte Byte] by (auto simp: sample_byte_def intro: run_step_reader)
  then show ?thesis
    using stdin_byte_hangs [OF sample_byte_reached] by (simp add: sample_defs r_into_rtranclp)
qed

end
