(* ===== verification/Cache.thy ===== *)
theory Cache
  imports Mount
begin

text \<open>
  The cache of processed archives (\<open>src/cache.rs\<close>). The environment of the key-value store, the
  serializer and the compressor are parameters: a record of their operations over a type of
  environments, with what the code relies on as the predicates \<open>heed_ok\<close>, \<open>reads_ok\<close> and
  \<open>codec_ok\<close>. A write transaction works on a copy that its commit publishes; dropping it, as
  every early return does, leaves the environment as it was.
\<close>

record 'env heed =
  read_txn :: "'env \<Rightarrow> (nat, unit) outcome"
  open_database :: "'env \<Rightarrow> string \<Rightarrow> (nat, bool) outcome"
  db_get :: "'env \<Rightarrow> string \<Rightarrow> bytes \<Rightarrow> (nat, bytes option) outcome"
  read_commit :: "'env \<Rightarrow> (nat, unit) outcome"
  write_txn :: "'env \<Rightarrow> (nat, 'env) outcome"
  create_database :: "'env \<Rightarrow> string \<Rightarrow> (nat, 'env) outcome"
  db_put :: "'env \<Rightarrow> string \<Rightarrow> bytes \<Rightarrow> bytes \<Rightarrow> (nat, 'env) outcome"
  write_commit :: "'env \<Rightarrow> (nat, 'env) outcome"

record 'v codec =
  to_bytes :: "'v \<Rightarrow> (nat, bytes) outcome"
  compress_prepend_size :: "bytes \<Rightarrow> bytes"
  decompress_size_prepended :: "bytes \<Rightarrow> (nat, bytes) outcome"
  from_bytes :: "bytes \<Rightarrow> (nat, 'v) outcome"

section \<open>Operations\<close>

record 'env cache =
  env :: "'env option"

text \<open>\<open>Cache::open\<close>: when the environment cannot be opened there is no caching.\<close>

definition cache_open :: "(string \<Rightarrow> (nat, 'env) outcome) \<Rightarrow> string \<Rightarrow> 'env cache" where
  "cache_open open_env path = \<lparr>env = (case open_env path of Ok e \<Rightarrow> Some e | _ \<Rightarrow> None)\<rparr>"

definition cache_empty :: "'env cache" where
  "cache_empty = \<lparr>env = None\<rparr>"

definition get_in_env :: "'env heed \<Rightarrow> 'v codec \<Rightarrow> 'env \<Rightarrow> string \<Rightarrow> bytes \<Rightarrow> (nat, 'v option) outcome" where
  "get_in_env h c e cache_name k =
     obind (read_txn h e) (\<lambda>_.
     obind (open_database h e cache_name) (\<lambda>exists.
       if \<not> exists then Ok None
       else obind (db_get h e cache_name k) (\<lambda>found.
              case found of
                None \<Rightarrow> Ok None
              | Some compressed \<Rightarrow>
                  obind (decompress_size_prepended c compressed) (\<lambda>bytes.
                  obind (read_commit h e) (\<lambda>_.
                  obind (from_bytes c bytes) (\<lambda>v. Ok (Some v)))))))"

definition cache_get :: "'env heed \<Rightarrow> 'v codec \<Rightarrow> 'env cache \<Rightarrow> string \<Rightarrow> bytes \<Rightarrow> 'v option" where
  "cache_get h c cache cache_name k =
     Option.bind (env cache) (\<lambda>e. case get_in_env h c e cache_name k of Ok v \<Rightarrow> v | _ \<Rightarrow> None)"

definition put_in_env :: "'env heed \<Rightarrow> 'v codec \<Rightarrow> 'env \<Rightarrow> string \<Rightarrow> bytes \<Rightarrow> 'v \<Rightarrow> (nat, 'env) outcome" where
  "put_in_env h c e cache_name k v =
     obind (write_txn h e) (\<lambda>w.
     obind (create_database h w cache_name) (\<lambda>w.
     obind (to_bytes c v) (\<lambda>bytes.
     obind (db_put h w cache_name k (compress_prepend_size c bytes)) (\<lambda>w.
       write_commit h w))))"

definition cache_put :: "'env heed \<Rightarrow> 'v codec \<Rightarrow> 'env cache \<Rightarrow> string \<Rightarrow> bytes \<Rightarrow> 'v \<Rightarrow> 'env cache" where
  "cache_put h c cache cache_name k v =
     (case env cache of
        None \<Rightarrow> cache
      | Some e \<Rightarrow> (case put_in_env h c e cache_name k v of Ok e' \<Rightarrow> cache\<lparr>env := Some e'\<rparr> | _ \<Rightarrow> cache))"

section \<open>What the store and the codec promise\<close>

text \<open>The value of a key in a database, absent when the database is.\<close>

definition stored :: "'env heed \<Rightarrow> 'env \<Rightarrow> string \<Rightarrow> bytes \<Rightarrow> (nat, bytes option) outcome" where
  "stored h e db k = obind (open_database h e db) (\<lambda>exists. if exists then db_get h e db k else Ok None)"

definition heed_ok :: "'env heed \<Rightarrow> bool" where
  "heed_ok h \<longleftrightarrow>
     (\<forall>e w. write_txn h e = Ok w \<longrightarrow> w = e) \<and>
     (\<forall>e w. write_commit h e = Ok w \<longrightarrow> w = e) \<and>
     (\<forall>e db w. create_database h e db = Ok w \<longrightarrow>
        open_database h w db = Ok True \<and> (\<forall>db' k. stored h w db' k = stored h e db' k)) \<and>
     (\<forall>e db k v w. open_database h e db = Ok True \<and> db_put h e db k v = Ok w \<longrightarrow>
        stored h w db k = Ok (Some v) \<and> (\<forall>db' k'. (db', k') \<noteq> (db, k) \<longrightarrow> stored h w db' k' = stored h e db' k'))"

definition reads_ok :: "'env heed \<Rightarrow> bool" where
  "reads_ok h \<longleftrightarrow> (\<forall>e. read_txn h e = Ok () \<and> read_commit h e = Ok ())"

definition codec_ok :: "'v codec \<Rightarrow> bool" where
  "codec_ok c \<longleftrightarrow>
     (\<forall>bs. decompress_size_prepended c (compress_prepend_size c bs) = Ok bs) \<and>
     (\<forall>v bs. to_bytes c v = Ok bs \<longrightarrow> from_bytes c bs = Ok v)"

text \<open>A lookup is the value stored, decoded.\<close>

lemma get_in_env_stored:
  assumes "reads_ok h"
  shows "get_in_env h c e db k =
    obind (stored h e db k) (\<lambda>found. case found of None \<Rightarrow> Ok None
      | Some z \<Rightarrow> obind (decompress_size_prepended c z) (\<lambda>bs. obind (from_bytes c bs) (\<lambda>v. Ok (Some v))))"
  using assms by (cases "open_database h e db") (auto simp: get_in_env_def stored_def reads_ok_def)

lemma put_in_env_stored:
  assumes "heed_ok h" "put_in_env h c e db k v = Ok e'"
  shows "\<exists>bs. to_bytes c v = Ok bs \<and> stored h e' db k = Ok (Some (compress_prepend_size c bs)) \<and>
    (\<forall>db' k'. (db', k') \<noteq> (db, k) \<longrightarrow> stored h e' db' k' = stored h e db' k')"
proof -
  obtain w bs w' where p: "create_database h e db = Ok w" "to_bytes c v = Ok bs"
    "db_put h w db k (compress_prepend_size c bs) = Ok w'" "e' = w'"
    using assms unfolding put_in_env_def heed_ok_def obind_eq_Ok by metis
  have w: "open_database h w db = Ok True" "\<forall>db' k. stored h w db' k = stored h e db' k"
    using assms(1) p(1) unfolding heed_ok_def by blast+
  have "stored h w' db k = Ok (Some (compress_prepend_size c bs))"
    "\<forall>db' k'. (db', k') \<noteq> (db, k) \<longrightarrow> stored h w' db' k' = stored h w db' k'"
    using assms(1) w(1) p(3) unfolding heed_ok_def by blast+
  with p w show ?thesis by auto
qed

section \<open>Properties\<close>

text \<open>C35: what is put under a key is what a lookup of that key finds, and every other key of every
  database finds what it found before; a value that cannot be put leaves the cache as it was; and
  a cache without an environment never finds anything.\<close>

theorem cache_round_trip:
  assumes "heed_ok h" "reads_ok h" "codec_ok c"
  shows "(\<forall>e' e. env ch = Some e \<and> put_in_env h c e db k v = Ok e' \<longrightarrow>
      cache_get h c (cache_put h c ch db k v) db k = Some v) \<and>
    (\<forall>db' k'. (db', k') \<noteq> (db, k) \<longrightarrow>
      cache_get h c (cache_put h c ch db k v) db' k' = cache_get h c ch db' k') \<and>
    ((\<forall>e e'. env ch = Some e \<longrightarrow> put_in_env h c e db k v \<noteq> Ok e') \<longrightarrow> cache_put h c ch db k v = ch) \<and>
    cache_get h c (cache_put h c cache_empty db k v) db k = None"
proof (intro conjI allI impI)
  fix e e'
  assume e: "env ch = Some e \<and> put_in_env h c e db k v = Ok e'"
  obtain bs where "to_bytes c v = Ok bs" "stored h e' db k = Ok (Some (compress_prepend_size c bs))"
    using put_in_env_stored [OF assms(1) conjunct2 [OF e]] by blast
  then show "cache_get h c (cache_put h c ch db k v) db k = Some v"
    using e assms(3) by (simp add: cache_get_def cache_put_def get_in_env_stored [OF assms(2)] codec_ok_def)
next
  fix db' k'
  assume ne: "(db', k') \<noteq> (db, k)"
  have "get_in_env h c e' db' k' = get_in_env h c e db' k'" if "put_in_env h c e db k v = Ok e'" for e e'
    using put_in_env_stored [OF assms(1) that] ne unfolding get_in_env_stored [OF assms(2)] by auto
  then show "cache_get h c (cache_put h c ch db k v) db' k' = cache_get h c ch db' k'"
    by (auto simp: cache_get_def cache_put_def split: option.split outcome.split)
next
  assume "\<forall>e e'. env ch = Some e \<longrightarrow> put_in_env h c e db k v \<noteq> Ok e'"
  then show "cache_put h c ch db k v = ch" by (auto simp: cache_put_def split: option.split outcome.split)
next
  show "cache_get h c (cache_put h c cache_empty db k v) db k = None"
    by (simp add: cache_get_def cache_put_def cache_empty_def)
qed

text \<open>A store in memory, and values that are their bytes.\<close>

definition mem_heed :: "(string \<Rightarrow> (bytes \<Rightarrow> bytes option) option) heed" where
  "mem_heed = \<lparr>read_txn = \<lambda>_. Ok (), open_database = \<lambda>e db. Ok (e db \<noteq> None),
     db_get = \<lambda>e db k. Ok (case e db of None \<Rightarrow> None | Some m \<Rightarrow> m k), read_commit = \<lambda>_. Ok (), write_txn = Ok,
     create_database = \<lambda>e db. Ok (case e db of None \<Rightarrow> e(db \<mapsto> (\<lambda>_. None)) | Some _ \<Rightarrow> e),
     db_put = \<lambda>e db k v. case e db of None \<Rightarrow> Err 1 | Some m \<Rightarrow> Ok (e(db \<mapsto> m(k \<mapsto> v))), write_commit = Ok\<rparr>"

definition bytes_codec :: "bytes codec" where
  "bytes_codec = \<lparr>to_bytes = Ok, compress_prepend_size = id, decompress_size_prepended = Ok, from_bytes = Ok\<rparr>"

lemma mem_heed_ok: "heed_ok mem_heed" "reads_ok mem_heed"
  by (auto simp: heed_ok_def reads_ok_def mem_heed_def stored_def split: option.splits if_splits)

lemma bytes_codec_ok: "codec_ok bytes_codec"
  by (simp add: codec_ok_def bytes_codec_def)

theorem cache_round_trip_witness:
  "cache_get mem_heed bytes_codec (cache_put mem_heed bytes_codec \<lparr>env = Some (\<lambda>_. None)\<rparr> ''dvdbnd.rofs'' [7] [5])
     ''dvdbnd.rofs'' [7] = Some [5]"
proof -
  have "\<exists>e'. put_in_env mem_heed bytes_codec (\<lambda>_. None) ''dvdbnd.rofs'' [7] [5] = Ok e'"
    by (simp add: put_in_env_def mem_heed_def bytes_codec_def)
  with cache_round_trip [OF mem_heed_ok bytes_codec_ok, of "\<lparr>env = Some (\<lambda>_. None)\<rparr>" "''dvdbnd.rofs''" "[7]" "[5]"]
  show ?thesis by auto
qed

end
