(* ===== verification/Start.thy ===== *)
theory Start
  imports Keys Cache
begin

text \<open>
  Starting a mount: from the keys and the dictionary to the filesystem and its data archives
  (\<open>DvdbndMount::from_keys_and_dict\<close> in \<open>src/dvdbnd/mount.rs\<close>), with the cache of processed
  archives, and from the command line to the keys, the dictionary and the cache
  (\<open>mount\<close> and \<open>mount_from_args\<close> in \<open>src/dvdbnd.rs\<close>, the arguments in \<open>src/cli.rs\<close>). Reading
  files, their sizes, the hash of a header file, the cache and the parser of the command line (\<open>clap\<close>)
  are parameters. The parallel
  iterators collect in the order of the archives; the maps are iterated in any order.
\<close>

datatype start_error = SIo nat | SRsa rsa_error | SBhd "bhd_error \<times> bhd_error" | SStore store_error | SKey key_error

section \<open>Reading the archives\<close>

text \<open>A header file: its path, its bytes, its identifier and the key that opens it.\<close>

type_synonym source = "bhd_path \<times> bytes \<times> src_id \<times> rsa_key option"

abbreviation source_path :: "source \<Rightarrow> bhd_path" where "source_path f \<equiv> fst f"
abbreviation source_id :: "source \<Rightarrow> src_id" where "source_id f \<equiv> fst (snd (snd f))"

definition read_bhds ::
  "(string \<Rightarrow> bytes io) \<Rightarrow> (bytes \<Rightarrow> 128 word) \<Rightarrow> (bhd_path \<times> rsa_key option) list \<Rightarrow> (start_error, source list) outcome" where
  "read_bhds read hash by_path =
     collect (\<lambda>(path, k). obind (map_err SIo (read path)) (\<lambda>bytes. Ok (path, bytes, src_id_of (hash bytes), k))) by_path"

record bdt =
  bdt_path :: string
  bdt_size :: u64

definition bdt_new :: "(string \<Rightarrow> u64 io) \<Rightarrow> string \<Rightarrow> bdt io" where
  "bdt_new metadata path = obind (metadata path) (\<lambda>size. Ok \<lparr>bdt_path = path, bdt_size = size\<rparr>)"

definition open_bdts :: "(string \<Rightarrow> u64 io) \<Rightarrow> source list \<Rightarrow> (start_error, (src_id \<times> bdt) list) outcome" where
  "open_bdts metadata files =
     obind (collect (\<lambda>(path, bytes, src, k). obind (map_err SIo (bdt_new metadata (to_bdt path))) (\<lambda>bdt. Ok (src, bdt))) files)
       (\<lambda>bdts. Ok (map_extend [] bdts))"

text \<open>\<open>retain\<close>: what the cache holds is taken from it.\<close>

fun take_cached :: "(src_id \<Rightarrow> 'c option) \<Rightarrow> source list \<Rightarrow> source list \<times> (src_id \<times> 'c) list" where
  "take_cached cache_of [] = ([], [])"
| "take_cached cache_of (f # fs) =
     (case take_cached cache_of fs of
        (rest, hits) \<Rightarrow>
          (case cache_of (source_id f) of
             Some c \<Rightarrow> (rest, (source_id f, c) # hits)
           | None \<Rightarrow> (f # rest, hits)))"

definition parse_bhd :: "source \<Rightarrow> (start_error, bhd_path \<times> bhd5_file \<times> src_id) outcome" where
  "parse_bhd = (\<lambda>(path, bytes, src, k).
     obind (case k of
              None \<Rightarrow> Ok bytes
            | Some k \<Rightarrow> obind (map_err SRsa (decrypt_blocks_in_place k bytes)) (\<lambda>(len, bytes). Ok (take len bytes)))
       (\<lambda>bytes. obind (map_err SBhd (bhd5_try_ref_from_bytes bytes)) (\<lambda>bhd. Ok (path, bhd, src))))"

section \<open>The mount\<close>

type_synonym cached_archive = "dvdbnd_file rofs_object \<times> bytes"

text \<open>Everything up to the builder.\<close>

definition prepare ::
  "(string \<Rightarrow> bytes io) \<Rightarrow> (bytes \<Rightarrow> 128 word) \<Rightarrow> (string \<Rightarrow> u64 io) \<Rightarrow> (src_id \<Rightarrow> cached_archive option) \<Rightarrow>
     (bhd_path \<times> rsa_key option) list \<Rightarrow> dictionary option \<Rightarrow> (start_error, builder \<times> (src_id \<times> bdt) list) outcome" where
  "prepare read hash metadata cache_of by_path d =
     obind (read_bhds read hash by_path) (\<lambda>files.
     obind (open_bdts metadata files) (\<lambda>bdts.
       case take_cached cache_of files of
         (files, hits) \<Rightarrow>
           obind (collect parse_bhd files) (\<lambda>parsed.
             Ok (with_cached hits (with_dict d (with_bhds parsed builder_default)), bdts))))"

definition mount_of :: "dvdbnd_rofs \<Rightarrow> (src_id \<times> bdt) list \<Rightarrow> mount" where
  "mount_of fs bdts = \<lparr>m_fs = fs, m_bdts = map (\<lambda>(src, bdt). (src, bdt_path bdt)) bdts\<rparr>"

inductive from_keys_and_dict ::
  "(nat \<Rightarrow> nat list) \<Rightarrow> (string \<Rightarrow> bytes io) \<Rightarrow> (bytes \<Rightarrow> 128 word) \<Rightarrow> (string \<Rightarrow> u64 io) \<Rightarrow> (src_id \<Rightarrow> cached_archive option) \<Rightarrow>
     (bhd_path \<times> rsa_key option) list \<Rightarrow> dictionary option \<Rightarrow> (start_error, mount) outcome \<Rightarrow> bool"
  for layout read hash metadata cache_of by_path d where
  mounted: "mset by_path' = mset by_path \<Longrightarrow> prepare read hash metadata cache_of by_path' d = Ok (b, bdts) \<Longrightarrow> finish layout b fs \<Longrightarrow>
     from_keys_and_dict layout read hash metadata cache_of by_path d (Ok (mount_of fs bdts))"
| not_prepared: "mset by_path' = mset by_path \<Longrightarrow> prepare read hash metadata cache_of by_path' d = Err e \<Longrightarrow>
     from_keys_and_dict layout read hash metadata cache_of by_path d (Err e)"
| not_stored: "mset by_path' = mset by_path \<Longrightarrow> prepare read hash metadata cache_of by_path' d = Ok (b, bdts) \<Longrightarrow>
     finish_objects b = Err e \<Longrightarrow> from_keys_and_dict layout read hash metadata cache_of by_path d (Err (SStore e))"

inductive_cases from_keys_and_dictE: "from_keys_and_dict layout read hash metadata cache_of by_path d (Ok m)"

text \<open>What \<open>finish\<close> writes to the cache: the tree of every archive it processed, with the store
  kept under the identifier of the archive, in any order.\<close>

definition processed_objects :: "builder \<Rightarrow> (store_error, (src_id \<times> dvdbnd_file rofs_object) list) outcome" where
  "processed_objects b =
     obind (collect (\<lambda>(name, bhd, src). case bhd of
                Bhd5_LE k \<Rightarrow> process_bhd (dict b) k name src
              | Bhd5_BE k \<Rightarrow> process_bhd (dict b) k name src) (bhds b)) (collect archive_object)"

definition put_objects ::
  "'env heed \<Rightarrow> cached_archive codec \<Rightarrow> (src_id \<times> bytes) list \<Rightarrow> (src_id \<times> dvdbnd_file rofs_object) list \<Rightarrow> 'env cache \<Rightarrow> 'env cache" where
  "put_objects h c stores objs ch =
     fold (\<lambda>(src, obj) ch. case map_of stores src of
             Some store \<Rightarrow> cache_put h c ch ''dvdbnd.rofs'' src (obj, store) | None \<Rightarrow> ch) objs ch"

inductive finish_cache :: "'env heed \<Rightarrow> cached_archive codec \<Rightarrow> builder \<Rightarrow> 'env cache \<Rightarrow> 'env cache \<Rightarrow> bool" where
  "processed_objects b = Ok objs \<Longrightarrow> finish_objects b = Ok (all_objs, stores) \<Longrightarrow> mset xs = mset objs \<Longrightarrow>
     finish_cache h c b ch (put_objects h c stores xs ch)"

section \<open>A coherent cache\<close>

text \<open>What processing an archive gives now, with the dictionary of this mount.\<close>

definition fresh :: "dictionary option \<Rightarrow> source \<Rightarrow> cached_archive option" where
  "fresh d f =
     (case parse_bhd f of
        Ok (path, bhd, src) \<Rightarrow>
          (case process_bhd d (bhd_of bhd) path src of
             Ok (files, store, _) \<Rightarrow>
               (case rofs_new DvdbndConfig_SEPARATORS files of Ok obj \<Rightarrow> Some (obj, store) | _ \<Rightarrow> None)
           | _ \<Rightarrow> None)
      | _ \<Rightarrow> None)"

definition coherent :: "dictionary option \<Rightarrow> (src_id \<Rightarrow> cached_archive option) \<Rightarrow> source list \<Rightarrow> bool" where
  "coherent d cache_of files \<longleftrightarrow>
     (\<forall>f \<in> set files. \<exists>x. fresh d f = Some x \<and> (cache_of (source_id f) = None \<or> cache_of (source_id f) = Some x))"

lemma take_cached_eq:
  "take_cached cache_of files =
     (filter (\<lambda>f. cache_of (source_id f) = None) files,
      map (\<lambda>f. (source_id f, the (cache_of (source_id f)))) (filter (\<lambda>f. cache_of (source_id f) \<noteq> None) files))"
  by (induction files) (auto split: option.split)

lemma parse_bhd_fields: "parse_bhd f = Ok (path, bhd, src) \<Longrightarrow> path = source_path f \<and> src = source_id f"
  by (cases f) (auto simp: parse_bhd_def)

lemma update_new: "k \<notin> fst ` set m \<Longrightarrow> AList.update k v m = m @ [(k, v)]"
  by (induction m) auto

lemma map_extend_new: "distinct (map fst (m @ kvs)) \<Longrightarrow> map_extend m kvs = m @ kvs"
proof (induction kvs arbitrary: m)
  case (Cons x kvs)
  obtain k v where x: "x = (k, v)" by (cases x)
  have "AList.update k v m = m @ [(k, v)]" using Cons.prems by (intro update_new) (auto simp: x)
  then show ?case using Cons by (simp add: x)
qed simp

lemma collect_map: "\<forall>x \<in> set xs. f (h x) = Ok (g x) \<Longrightarrow> collect f (map h xs) = Ok (map g xs)"
  by (induction xs) auto

lemma distinct_map_parts: "distinct (map f xs) \<Longrightarrow> distinct (map f (filter (\<lambda>x. \<not> P x) xs @ filter P xs))"
  by (induction xs) auto

text \<open>The tree and the store of an archive, by its identifier.\<close>

definition tree_of :: "dictionary option \<Rightarrow> source \<Rightarrow> src_id \<times> dvdbnd_file rofs_object" where
  "tree_of d f = (source_id f, fst (the (fresh d f)))"

definition store_of :: "dictionary option \<Rightarrow> source \<Rightarrow> src_id \<times> bytes" where
  "store_of d f = (source_id f, snd (the (fresh d f)))"

lemma map_of_perm:
  assumes "mset xs = mset ys" "distinct (map fst ys)"
  shows "map_of xs = map_of ys"
proof -
  have "mset (map fst xs) = mset (map fst ys)" using assms(1) by (metis mset_map)
  then have "distinct (map fst xs)" using assms(2) by (metis mset_eq_imp_distinct_iff)
  moreover have "set xs = set ys" using assms(1) by (rule mset_eq_setD)
  ultimately show ?thesis using assms(2) by (metis map_of_inject_set)
qed

text \<open>With a coherent cache the builder yields the trees and the stores of all archives, each as it
  would be made now, whichever of them come from the cache.\<close>

lemma finish_objects_coherent:
  assumes "coherent d cache_of files" "distinct (map source_id files)" "distinct (map source_path files)"
    and "read_bhds read hash by_path = Ok files" "open_bdts metadata files = Ok bdts"
  shows "\<exists>b objs stores. prepare read hash metadata cache_of by_path d = Ok (b, bdts) \<and>
    finish_objects b = Ok (objs, stores) \<and> mset objs = mset (map (tree_of d) files) \<and>
    map_of stores = map_of (map (store_of d) files)"
proof -
  let ?new = "filter (\<lambda>f. cache_of (source_id f) = None) files"
  let ?old = "filter (\<lambda>f. cache_of (source_id f) \<noteq> None) files"
  define bhd where "bhd f = (case parse_bhd f of Ok (p, b, s) \<Rightarrow> b)" for f
  define out where "out f = (case process_bhd d (bhd_of (bhd f)) (source_path f) (source_id f) of Ok (fs, st, s) \<Rightarrow> fs)" for f
  have f: "parse_bhd f = Ok (source_path f, bhd f, source_id f) \<and>
      process_bhd d (bhd_of (bhd f)) (source_path f) (source_id f) = Ok (out f, snd (store_of d f), source_id f) \<and>
      archive_object (out f, snd (store_of d f), source_id f) = Ok (tree_of d f)" if mem: "f \<in> set files" for f
  proof -
    obtain x where "fresh d f = Some x" using assms(1) mem unfolding coherent_def by blast
    moreover from this obtain p b s where "parse_bhd f = Ok (p, b, s)"
      by (auto simp: fresh_def split: outcome.splits)
    moreover from this have "p = source_path f" "s = source_id f" using parse_bhd_fields by blast+
    ultimately show ?thesis
      by (auto simp: fresh_def bhd_def out_def store_of_def tree_of_def archive_object_Ok split: outcome.splits
          dest: process_bhd_src)
  qed
  let ?bhds = "map (\<lambda>f. (source_path f, bhd f, source_id f)) ?new"
  have parse: "collect parse_bhd ?new = Ok ?bhds"
    using collect_map [of ?new parse_bhd "\<lambda>f. f" "\<lambda>f. (source_path f, bhd f, source_id f)"] f by simp
  have dp: "distinct (map fst ?bhds)" using assms(3) by (simp add: comp_def distinct_map_filter)
  have ds: "distinct (map source_id (?old @ ?new))" using assms(2) by (rule distinct_map_parts)
  have part: "mset (map g (?old @ ?new)) = mset (map g files)" for g :: "source \<Rightarrow> 'z"
    by (induction files) auto
  have hit: "the (cache_of (source_id f)) = (snd (tree_of d f), snd (store_of d f))" if "f \<in> set ?old" for f
    using that assms(1) by (auto simp: coherent_def tree_of_def store_of_def)
  let ?b = "\<lparr>bhds = ?bhds, dict = d, cached = map (\<lambda>f. (source_id f, snd (tree_of d f), snd (store_of d f))) ?old\<rparr>"
  have "map (\<lambda>f. (source_id f, the (cache_of (source_id f)))) ?old =
      map (\<lambda>f. (source_id f, snd (tree_of d f), snd (store_of d f))) ?old"
    using hit by (intro map_cong) auto
  then have prep: "prepare read hash metadata cache_of by_path d = Ok (?b, bdts)"
    using map_extend_new [of "[]" ?bhds] dp
    by (simp add: prepare_def assms(4,5) take_cached_eq parse with_cached_def with_dict_def with_bhds_def builder_default_def)
  have proc: "collect (\<lambda>(name, h, src). case h of Bhd5_LE k \<Rightarrow> process_bhd d k name src
      | Bhd5_BE k \<Rightarrow> process_bhd d k name src) ?bhds = Ok (map (\<lambda>f. (out f, snd (store_of d f), source_id f)) ?new)"
  proof (rule collect_map, intro ballI)
    fix f
    assume "f \<in> set ?new"
    with f [of f] show "(case (source_path f, bhd f, source_id f) of (name, h, src) \<Rightarrow>
        case h of Bhd5_LE k \<Rightarrow> process_bhd d k name src | Bhd5_BE k \<Rightarrow> process_bhd d k name src) =
        Ok (out f, snd (store_of d f), source_id f)"
      by (cases "bhd f") (simp_all add: bhd_of_def)
  qed
  have objs: "collect archive_object (map (\<lambda>f. (out f, snd (store_of d f), source_id f)) ?new) = Ok (map (tree_of d) ?new)"
    by (rule collect_map) (use f in auto)
  have fst_id: "map fst (map (tree_of d) zs) = map source_id zs" "map fst (map (store_of d) zs) = map source_id zs" for zs
    by (simp_all add: tree_of_def store_of_def)
  have ext: "map_extend (map_extend [] (map g ?old)) (map g ?new) = map g (?old @ ?new)"
    if g: "\<And>zs. map fst (map g zs) = map source_id zs" for g :: "source \<Rightarrow> src_id \<times> 'z"
  proof -
    have d: "distinct (map fst (map g ?old @ map g ?new))" using ds by (simp only: map_append g [symmetric])
    then have "map_extend [] (map g ?old) = map g ?old" using map_extend_new [of "[]" "map g ?old"] by simp
    then show ?thesis using map_extend_new [OF d] by simp
  qed
  have b: "bhds ?b = ?bhds" "dict ?b = d" by simp_all
  have b1: "map (\<lambda>(src, obj, store). (src, obj)) (cached ?b) = map (tree_of d) ?old"
    by (simp only: builder.simps map_map comp_def prod.case) (simp add: tree_of_def)
  have b2: "map (\<lambda>(src, obj, store). (src, store)) (cached ?b) = map (store_of d) ?old"
    by (simp only: builder.simps map_map comp_def prod.case) (simp add: store_of_def)
  have b3: "map (\<lambda>(files, store, src). (src, store)) (map (\<lambda>f. (out f, snd (store_of d f), source_id f)) ?new) =
      map (store_of d) ?new"
    by (simp only: map_map comp_def prod.case) (simp add: store_of_def)
  have "finish_objects ?b = Ok (map (tree_of d) (?old @ ?new), map (store_of d) (?old @ ?new))"
    by (simp only: finish_objects_def b proc obind.simps objs b1 b2 b3 ext [OF fst_id(1)] ext [OF fst_id(2)])
  moreover have "map_of (map (store_of d) (?old @ ?new)) = map_of (map (store_of d) files)"
    by (rule map_of_perm [OF part]) (use assms(2) in \<open>simp only: fst_id\<close>)
  ultimately show ?thesis using prep part [of "tree_of d"] by blast
qed

text \<open>The order of the archives does not matter.\<close>

lemma collect_perm:
  assumes "collect f xs = Ok ys" "mset xs' = mset xs"
  shows "\<exists>ys'. collect f xs' = Ok ys' \<and> mset ys' = mset ys"
proof -
  define g where "g x = (case f x of Ok y \<Rightarrow> y)" for x
  have fg: "\<forall>x \<in> set xs. f x = Ok (g x)"
    using assms(1) by (auto simp: collect_Ok g_def dest: list_all2_left)
  then have "ys = map g xs" using assms(1) collect_map [of xs f "\<lambda>x. x" g] by simp
  moreover have "collect f xs' = Ok (map g xs')"
    using fg collect_map [of xs' f "\<lambda>x. x" g] mset_eq_setD [OF assms(2)] by simp
  ultimately show ?thesis using assms(2) by (metis mset_map)
qed

lemma read_bhds_perm:
  assumes "read_bhds read hash by_path = Ok files" "mset by_path' = mset by_path"
  shows "\<exists>files'. read_bhds read hash by_path' = Ok files' \<and> mset files' = mset files"
  using assms collect_perm unfolding read_bhds_def by blast

lemma distinct_perm: "mset xs = mset ys \<Longrightarrow> distinct (map f ys) \<Longrightarrow> distinct (map f xs)"
  by (metis mset_map mset_eq_imp_distinct_iff)

lemma coherent_perm: "mset files' = mset files \<Longrightarrow> coherent d cache_of files \<Longrightarrow> coherent d cache_of files'"
  unfolding coherent_def by (metis mset_eq_setD)

text \<open>A mount that was made, and what it was made from.\<close>

lemma mounted_from:
  assumes "from_keys_and_dict layout read hash metadata cache_of by_path d (Ok m)"
    and "read_bhds read hash by_path = Ok files"
    and "distinct (map source_id files)" "distinct (map source_path files)" "coherent d cache_of files"
  obtains by_path' files' bdts objs stores fs xs obj where
    "mset by_path' = mset by_path" "mset files' = mset files" "read_bhds read hash by_path' = Ok files'"
    "open_bdts metadata files' = Ok bdts" "m = mount_of \<lparr>inner_fs = fs, encryption_stores = stores\<rparr> bdts"
    "mset objs = mset (map (tree_of d) files)" "map_of stores = map_of (map (store_of d) files)"
    "mset xs = mset (map snd objs)" "reduces xs obj" "into_rofs layout obj = Ok fs"
proof -
  obtain by_path' b bdts fs where 1: "m = mount_of fs bdts" "mset by_path' = mset by_path"
    "prepare read hash metadata cache_of by_path' d = Ok (b, bdts)" "finish layout b fs"
    using assms(1) by (auto elim: from_keys_and_dictE)
  obtain files' where files': "read_bhds read hash by_path' = Ok files'" "mset files' = mset files"
    using read_bhds_perm [OF assms(2) 1(2)] by blast
  have ob: "open_bdts metadata files' = Ok bdts"
    using 1(3) by (cases "take_cached cache_of files'") (auto simp: prepare_def files'(1))
  note ds = distinct_perm [OF files'(2)]
  obtain b' objs stores where p: "prepare read hash metadata cache_of by_path' d = Ok (b', bdts)"
    "finish_objects b' = Ok (objs, stores)" "mset objs = mset (map (tree_of d) files')"
    "map_of stores = map_of (map (store_of d) files')"
    using finish_objects_coherent [OF coherent_perm [OF files'(2) assms(5)] ds [OF assms(3)] ds [OF assms(4)] files'(1) ob]
    by blast
  then have "b' = b" using 1(3) by simp
  with 1(4) p(2) obtain xs obj rofs where f: "mset xs = mset (map snd objs)" "reduces xs obj" "into_rofs layout obj = Ok rofs"
    "fs = \<lparr>inner_fs = rofs, encryption_stores = stores\<rparr>"
    by (auto elim: finishE)
  have "map_of (map (store_of d) files') = map_of (map (store_of d) files)"
  proof (rule map_of_perm)
    show "mset (map (store_of d) files') = mset (map (store_of d) files)" using files'(2) by simp
    show "distinct (map fst (map (store_of d) files))" using assms(3) by (simp add: comp_def store_of_def)
  qed
  then show ?thesis using that [OF 1(2) files'(2,1) ob _ _ _ f(1,2,3)] p(3,4) f(4) 1(1) files'(2) by simp
qed

lemma coherent_cache_exchange:
  assumes "from_keys_and_dict layout read hash metadata cache_of by_path d (Ok m)"
    and "read_bhds read hash by_path = Ok files"
    and "distinct (map source_id files)" "distinct (map source_path files)" "coherent d cache_of files" "coherent d cache_of' files"
  shows "\<exists>m'. from_keys_and_dict layout read hash metadata cache_of' by_path d (Ok m') \<and>
    m_bdts m' = m_bdts m \<and> inner_fs (m_fs m') = inner_fs (m_fs m) \<and> encryption_store (m_fs m') = encryption_store (m_fs m)"
  using assms(1-5)
proof (rule mounted_from)
  fix by_path' files' bdts objs stores fs xs obj
  assume p: "mset by_path' = mset by_path" "mset files' = mset files" "read_bhds read hash by_path' = Ok files'"
    "open_bdts metadata files' = Ok bdts" "m = mount_of \<lparr>inner_fs = fs, encryption_stores = stores\<rparr> bdts"
    "mset objs = mset (map (tree_of d) files)" "map_of stores = map_of (map (store_of d) files)"
    "mset xs = mset (map snd objs)" "reduces xs obj" "into_rofs layout obj = Ok fs"
  note ds = distinct_perm [OF p(2)]
  obtain b objs' stores' where q: "prepare read hash metadata cache_of' by_path' d = Ok (b, bdts)"
    "finish_objects b = Ok (objs', stores')" "mset objs' = mset (map (tree_of d) files')"
    "map_of stores' = map_of (map (store_of d) files')"
    using finish_objects_coherent [OF coherent_perm [OF p(2) assms(6)] ds [OF assms(3)] ds [OF assms(4)] p(3,4)] by blast
  have "mset objs' = mset objs" using q(3) p(2,6) by simp
  then have "mset xs = mset (map snd objs')" using p(8) by simp
  from finish.intros [OF q(2) this p(9,10)]
  have fin: "finish layout b \<lparr>inner_fs = fs, encryption_stores = stores'\<rparr>" .
  have "map_of (map (store_of d) files') = map_of (map (store_of d) files)"
    by (rule map_of_perm) (use p(2) assms(3) in \<open>simp_all add: comp_def store_of_def\<close>)
  then have "map_of stores' = map_of stores" using q(4) p(7) by simp
  then show ?thesis
    using from_keys_and_dict.mounted [OF p(1) q(1) fin]
    by (intro exI [of _ "mount_of \<lparr>inner_fs = fs, encryption_stores = stores'\<rparr> bdts"])
      (simp add: p(5) mount_of_def encryption_store_def fun_eq_iff)
qed

text \<open>The data archive lies beside its header file.\<close>

lemma open_bdts_path:
  assumes "open_bdts metadata files = Ok bdts" "distinct (map source_id files)" "f \<in> set files"
  shows "\<exists>bdt. map_of bdts (source_id f) = Some bdt \<and> bdt_path bdt = to_bdt (source_path f)"
proof -
  let ?g = "\<lambda>(path, bytes, src, k). obind (map_err SIo (bdt_new metadata (to_bdt path))) (\<lambda>bdt. Ok (src, bdt))"
  obtain ys where ys: "collect ?g files = Ok ys" "bdts = map_extend [] ys"
    using assms(1) by (auto simp: open_bdts_def)
  have all: "list_all2 (\<lambda>f y. fst y = source_id f \<and> bdt_path (snd y) = to_bdt (source_path f)) files ys"
    using ys(1) unfolding collect_Ok
    by (rule list_all2_mono) (auto simp: bdt_new_def map_err_def split: outcome.splits)
  then have k: "map fst ys = map source_id files"
    by (induction rule: list_all2_induct) auto
  then have d: "distinct (map fst ys)" using assms(2) by simp
  then have "bdts = ys" using map_extend_new [of "[]" ys] ys(2) by simp
  moreover obtain y where "y \<in> set ys" "fst y = source_id f" "bdt_path (snd y) = to_bdt (source_path f)"
    using list_all2_left [OF all assms(3)] by blast
  ultimately show ?thesis using d by (metis map_of_eq_Some_iff prod.collapse)
qed

text \<open>The archives read, and their data archives, are exactly those of the keys.\<close>

lemma read_bhds_mem:
  assumes "read_bhds read hash by_path = Ok files"
  shows "f \<in> set files \<Longrightarrow> \<exists>bytes ko. (source_path f, ko) \<in> set by_path \<and> read (source_path f) = Ok bytes \<and>
      source_id f = src_id_of (hash bytes)"
    and "(bhd, ko) \<in> set by_path \<Longrightarrow> \<exists>bytes. read bhd = Ok bytes \<and> src_id_of (hash bytes) \<in> source_id ` set files"
proof -
  have all: "list_all2 (\<lambda>x f. \<exists>bytes. x = (source_path f, snd x) \<and> read (fst x) = Ok bytes \<and>
      source_id f = src_id_of (hash bytes)) by_path files"
    using assms unfolding read_bhds_def collect_Ok
    by (rule list_all2_mono) (auto simp: map_err_def split: outcome.splits)
  show "\<exists>bytes ko. (source_path f, ko) \<in> set by_path \<and> read (source_path f) = Ok bytes \<and> source_id f = src_id_of (hash bytes)"
    if mem: "f \<in> set files"
  proof -
    obtain x where "x \<in> set by_path" "\<exists>bytes. x = (source_path f, snd x) \<and> read (fst x) = Ok bytes \<and> source_id f = src_id_of (hash bytes)"
      using list_all2_right [OF all mem] by blast
    then show ?thesis by (metis fst_conv)
  qed
  show "\<exists>bytes. read bhd = Ok bytes \<and> src_id_of (hash bytes) \<in> source_id ` set files" if mem: "(bhd, ko) \<in> set by_path"
    using list_all2_left [OF all mem] by force
qed

lemma open_bdts_mem:
  assumes "open_bdts metadata files = Ok bdts"
  shows "(src, bdt) \<in> set bdts \<Longrightarrow> \<exists>f \<in> set files. src = source_id f \<and> bdt_path bdt = to_bdt (source_path f)"
    and "source_id ` set files = fst ` set bdts"
proof -
  let ?g = "\<lambda>(path, bytes, src, k). obind (map_err SIo (bdt_new metadata (to_bdt path))) (\<lambda>bdt. Ok (src, bdt))"
  obtain ys where ys: "collect ?g files = Ok ys" "bdts = map_extend [] ys"
    using assms(1) by (auto simp: open_bdts_def)
  have all: "list_all2 (\<lambda>f y. fst y = source_id f \<and> bdt_path (snd y) = to_bdt (source_path f)) files ys"
    using ys(1) unfolding collect_Ok
    by (rule list_all2_mono) (auto simp: bdt_new_def map_err_def split: outcome.splits)
  show "\<exists>f \<in> set files. src = source_id f \<and> bdt_path bdt = to_bdt (source_path f)" if mem: "(src, bdt) \<in> set bdts"
  proof -
    have "(src, bdt) \<in> set ys" using mem set_map_extend [of "[]" ys] unfolding ys(2) by auto
    from list_all2_right [OF all this] show ?thesis by auto
  qed
  have "map fst ys = map source_id files" using all by (induction rule: list_all2_induct) auto
  then have "fst ` set ys = source_id ` set files" by (metis set_map)
  moreover have "dom (map_of bdts) = dom (map_of (rev ys))"
    by (auto simp: ys(2) map_of_map_extend split: option.splits)
  then have "fst ` set bdts = fst ` set ys" by (simp add: dom_map_of_conv_image_fst)
  ultimately show "source_id ` set files = fst ` set bdts" by simp
qed

text \<open>Without a cache every archive is parsed.\<close>

lemma prepare_cold:
  assumes "prepare read hash metadata (\<lambda>_. None) by_path d = Ok (b, bdts)" "read_bhds read hash by_path = Ok files"
    and "distinct (map source_id files)" "distinct (map source_path files)"
  shows "dict b = d \<and> cached b = [] \<and> distinct (map (snd \<circ> snd) (bhds b)) \<and>
    (\<forall>f \<in> set files. \<forall>x. parse_bhd f = Ok x \<longrightarrow> x \<in> set (bhds b))"
proof -
  have t: "take_cached (\<lambda>_. None :: cached_archive option) files = (files, [])" by (simp add: take_cached_eq)
  obtain parsed where p: "collect parse_bhd files = Ok parsed"
    "b = with_cached [] (with_dict d (with_bhds parsed builder_default))"
    using assms(1) by (auto simp: prepare_def assms(2) t)
  have all: "list_all2 (\<lambda>f x. fst x = source_path f \<and> snd (snd x) = source_id f) files parsed"
    using p(1) unfolding collect_Ok by (rule list_all2_mono) (auto dest: parse_bhd_fields)
  then have k: "map fst parsed = map source_path files" "map (snd \<circ> snd) parsed = map source_id files"
    by (induction rule: list_all2_induct) auto
  have "bhds b = parsed"
    using map_extend_new [of "[]" parsed] k(1) assms(4)
    by (simp add: p(2) with_cached_def with_dict_def with_bhds_def builder_default_def)
  moreover have "x \<in> set parsed" if x: "f \<in> set files" "parse_bhd f = Ok x" for f x
  proof -
    have "list_all2 (\<lambda>f y. parse_bhd f = Ok y) files parsed" using p(1) by (simp add: collect_Ok)
    from list_all2_left [OF this x(1)] x(2) show ?thesis by auto
  qed
  ultimately show ?thesis
    using k(2) assms(3) by (simp add: p(2) with_cached_def with_dict_def with_bhds_def builder_default_def)
qed

lemma mounted_archive:
  assumes "from_keys_and_dict layout read hash metadata cache_of by_path d (Ok m)"
    and "read_bhds read hash by_path = Ok files"
    and "distinct (map source_id files)" "distinct (map source_path files)" "coherent d cache_of files"
    and "eytzinger_ok layout esearch" "(path, bytes, src, k) \<in> set files" "parse_bhd (path, bytes, src, k) = Ok (path, bhd, src)"
    and "process_bhd d (bhd_of bhd) path src = Ok (fs, store, src)" "i < length fs" "unshadowed DvdbndConfig_SEPARATORS fs i"
    and "\<forall>xs obj. mset xs = mset (map (snd \<circ> tree_of d) files) \<longrightarrow> reduces xs obj \<longrightarrow> small_tree (Branch (obj_root obj))"
    and "\<forall>f \<in> set files. source_id f \<noteq> src \<longrightarrow>
      object_free (snd (tree_of d f)) (stored_path DvdbndConfig_SEPARATORS (fst (fs ! i)))"
  shows "encryption_store (m_fs m) src = Some store \<and> map_of (m_bdts m) src = Some (to_bdt path) \<and>
    (\<exists>ino e. lookup DvdbndConfig_SEPARATORS esearch (inner_fs (m_fs m)) (fst (fs ! i)) = Ok ino \<and>
       rofs_entry (inner_fs (m_fs m)) ino = Ok e \<and> kind e = EFile (snd (fs ! i)))"
  using assms(1-5)
proof (rule mounted_from)
  fix by_path' files' bdts objs stores rofs xs obj
  assume p: "mset by_path' = mset by_path" "mset files' = mset files" "read_bhds read hash by_path' = Ok files'"
    "open_bdts metadata files' = Ok bdts" "m = mount_of \<lparr>inner_fs = rofs, encryption_stores = stores\<rparr> bdts"
    "mset objs = mset (map (tree_of d) files)" "map_of stores = map_of (map (store_of d) files)"
    "mset xs = mset (map snd objs)" "reduces xs obj" "into_rofs layout obj = Ok rofs"
  note ds = distinct_perm [OF p(2)]
  have mem: "(path, bytes, src, k) \<in> set files'" using assms(7) mset_eq_setD [OF p(2)] by simp
  have cold: "coherent d (\<lambda>_. None) files'"
    using coherent_perm [OF p(2) assms(5)] unfolding coherent_def by blast
  obtain b objs' stores' where q: "prepare read hash metadata (\<lambda>_. None) by_path' d = Ok (b, bdts)"
    "finish_objects b = Ok (objs', stores')" "mset objs' = mset (map (tree_of d) files')"
    "map_of stores' = map_of (map (store_of d) files')"
    using finish_objects_coherent [OF cold ds [OF assms(3)] ds [OF assms(4)] p(3,4)] by blast
  have b: "dict b = d" "cached b = []" "distinct (map (snd \<circ> snd) (bhds b))" "(path, bhd, src) \<in> set (bhds b)"
    using prepare_cold [OF q(1) p(3) ds [OF assms(3)] ds [OF assms(4)]] mem assms(8) by auto
  have sets: "set objs' = tree_of d ` set files" using q(3) p(2) by (metis mset_eq_setD set_map)
  have "mset objs' = mset objs" using q(3) p(2,6) by simp
  then have xs: "mset xs = mset (map snd objs')" using p(8) by simp
  moreover have "mset (map snd objs') = mset (map (snd \<circ> tree_of d) files)"
    using q(3) p(2) by (metis map_map mset_map)
  ultimately have small: "small_tree (Branch (obj_root obj))" using assms(12) p(9) by simp
  have free: "\<forall>(src', t) \<in> set objs'. src' \<noteq> src \<longrightarrow> object_free t (stored_path DvdbndConfig_SEPARATORS (fst (fs ! i)))"
    using assms(13) unfolding sets by (auto simp: tree_of_def)
  have pr: "process_bhd (dict b) (bhd_of bhd) path src = Ok (fs, store, src)" using assms(9) b(1) by simp
  have inv: "\<forall>(src, obj, store) \<in> set (cached b). object_inv DvdbndConfig_SEPARATORS obj" using b(2) by simp
  note S = archive_file_served [OF assms(6) q(2) xs p(9,10) small inv b(3,4) pr assms(10,11) free]
  have "map_of (map (store_of d) files') = map_of (map (store_of d) files)"
    by (rule map_of_perm) (use p(2) assms(3) in \<open>simp_all add: comp_def store_of_def\<close>)
  then have "map_of stores = map_of stores'" using q(4) p(7) by simp
  moreover obtain bdt where "map_of bdts src = Some bdt" "bdt_path bdt = to_bdt path"
    using open_bdts_path [OF p(4) ds [OF assms(3)] mem] by auto
  ultimately show ?thesis
    using S by (simp add: p(5) mount_of_def encryption_store_def map_of_map)
qed

section \<open>The whole start\<close>

text \<open>The arguments of the command (\<open>DvdbndArgs\<close> and \<open>CacheArgs\<close>).\<close>

record cache_args =
  arg_cache :: "string option"
  no_cache :: "bool option"

record dvdbnd_args =
  archive :: "string list"
  mountpoint :: string
  game :: "string option"
  keys_arg :: "string option"
  dict_arg :: "string option"
  cache_arg :: cache_args
  piped_arg :: "bool option"

text \<open>The attributes of the fields: \<open>short\<close> and \<open>long\<close> name an option by its first letter and by its field,
  with a hyphen for an underscore; an option takes a value unless it has \<open>num_args(0)\<close>.\<close>

datatype arg_id = MountpointArg | GameArg | KeysArg | DictArg | CacheArg | NoCacheArg | PipedArg

fun arg_names :: "arg_id \<Rightarrow> string list" where
  "arg_names MountpointArg = [''-m'', ''--mountpoint'']"
| "arg_names GameArg = [''-g'', ''--game'']"
| "arg_names KeysArg = [''-k'', ''--keys'']"
| "arg_names DictArg = [''-d'', ''--dict'']"
| "arg_names CacheArg = [''-c'', ''--cache'']"
| "arg_names NoCacheArg = [''--no-cache'']"
| "arg_names PipedArg = [''--piped'']"

definition takes_value :: "arg_id \<Rightarrow> bool" where
  "takes_value a \<longleftrightarrow> a \<noteq> NoCacheArg \<and> a \<noteq> PipedArg"

text \<open>What an occurrence of every option gives the fields; \<open>default_missing_value\<close> is what an option
  without a value stands for.\<close>

type_synonym occurrences = "(arg_id \<times> string option) list"

definition arg_value :: "occurrences \<Rightarrow> arg_id \<Rightarrow> string option" where
  "arg_value occs a = Option.bind (map_of occs a) (\<lambda>v. v)"

definition arg_flag :: "occurrences \<Rightarrow> arg_id \<Rightarrow> bool option" where
  "arg_flag occs a = map_option (\<lambda>_. True) (map_of occs a)"

definition args_from :: "occurrences \<Rightarrow> string list \<Rightarrow> dvdbnd_args option" where
  "args_from occs archives =
     map_option (\<lambda>m. \<lparr>archive = archives, mountpoint = m, game = arg_value occs GameArg, keys_arg = arg_value occs KeysArg,
         dict_arg = arg_value occs DictArg,
         cache_arg = \<lparr>arg_cache = arg_value occs CacheArg, no_cache = arg_flag occs NoCacheArg\<rparr>,
         piped_arg = arg_flag occs PipedArg\<rparr>)
       (arg_value occs MountpointArg)"

text \<open>\<open>clap\<close> itself is a parameter, a function from the arguments after the name of the program to the
  fields, or to nothing when it reports an error or prints its help and exits. Of what it documents
  the model relies on this: options come in any order and under any of their names, each at most
  once, \<open>--cache\<close> and \<open>--no-cache\<close> not together, followed by the archives, with values and archives
  that do not start with a hyphen; and a value that starts with one is refused, as none of the fields
  has \<open>allow_hyphen_values\<close>.\<close>

definition hyphened :: "string \<Rightarrow> bool" where
  "hyphened s \<longleftrightarrow> take 1 s = ''-'' \<and> s \<noteq> ''-''"

definition options_ok :: "occurrences \<Rightarrow> bool" where
  "options_ok occs \<longleftrightarrow> distinct (map fst occs) \<and> \<not> {CacheArg, NoCacheArg} \<subseteq> fst ` set occs \<and>
     (\<forall>(a, v) \<in> set occs. (v \<noteq> None \<longleftrightarrow> takes_value a) \<and> (\<forall>x. v = Some x \<longrightarrow> \<not> hyphened x))"

inductive spelled :: "occurrences \<Rightarrow> string list \<Rightarrow> bool" where
  no_options: "spelled [] []"
| option: "spelled occs tokens \<Longrightarrow> name \<in> set (arg_names a) \<Longrightarrow>
     spelled ((a, v) # occs) (name # (case v of Some x \<Rightarrow> [x] | None \<Rightarrow> []) @ tokens)"

definition clap_ok :: "(string list \<Rightarrow> dvdbnd_args option) \<Rightarrow> bool" where
  "clap_ok parse \<longleftrightarrow>
     (\<forall>occs tokens archives. spelled occs tokens \<longrightarrow> options_ok occs \<longrightarrow> (\<forall>p \<in> set archives. \<not> hyphened p) \<longrightarrow>
        parse (''dvdbnd'' # tokens @ archives) = args_from occs archives) \<and>
     (\<forall>occs tokens a name v rest. spelled occs tokens \<longrightarrow> options_ok occs \<longrightarrow> takes_value a \<longrightarrow> name \<in> set (arg_names a) \<longrightarrow>
        hyphened v \<longrightarrow> parse (''dvdbnd'' # tokens @ name # v # rest) = None)"

text \<open>\<open>Path::join\<close> and \<open>Path::parent\<close>.\<close>

definition path_join :: "string \<Rightarrow> string \<Rightarrow> string" where
  "path_join base p =
     (if take 1 p = ''/'' then p
      else if base = [] \<or> last base = CHR ''/'' then base @ p
      else base @ ''/'' @ p)"

definition path_parent :: "string \<Rightarrow> string option" where
  "path_parent p =
     (let r = trim_end (rev p);
          rest = dropWhile (\<lambda>c. c \<noteq> CHR ''/'') r
      in if r = [] then None
         else if rest \<noteq> [] \<and> trim_end rest = [] then Some ''/''
         else Some (rev (trim_end rest)))"

text \<open>\<open>app_dir\<close>: the directory of the program as it was called.\<close>

definition app_dir :: "string list \<Rightarrow> string" where
  "app_dir argv =
     (case argv of
        [] \<Rightarrow> ''.''
      | arg # _ \<Rightarrow> (case path_parent arg of Some dir \<Rightarrow> dir | None \<Rightarrow> ''.''))"

text \<open>What \<open>mount_from_args\<close> makes of the arguments before it mounts.\<close>

record start_config =
  cfg_mountpoint :: string
  cfg_archives :: "string list"
  cfg_game :: "string option"
  cfg_keys_dir :: string
  cfg_dict_dir :: string
  cfg_cache_dir :: "string option"
  cfg_piped :: bool

definition mount_from_args :: "string list \<Rightarrow> dvdbnd_args \<Rightarrow> start_config" where
  "mount_from_args argv args =
     (let dir = app_dir argv;
          or_else = (\<lambda>x def. case x of Some p \<Rightarrow> p | None \<Rightarrow> path_join dir def)
      in \<lparr>cfg_mountpoint = mountpoint args, cfg_archives = archive args,
          cfg_game = map_option to_ascii_lowercase (game args),
          cfg_keys_dir = or_else (keys_arg args) ''dvdbnd/Key'',
          cfg_dict_dir = or_else (dict_arg args) ''dvdbnd/Hash'',
          cfg_cache_dir = (if no_cache (cache_arg args) = Some True then None
                           else Some (or_else (arg_cache (cache_arg args)) ''cache'')),
          cfg_piped = (case piped_arg args of Some b \<Rightarrow> b | None \<Rightarrow> False)\<rparr>)"

text \<open>What the program sees of the machine.\<close>

record 'env machine =
  read_dir :: "string \<Rightarrow> dir_entry list io"
  read_to_string :: "string \<Rightarrow> string io"
  read_file_bytes :: "string \<Rightarrow> bytes io"
  open_header :: "bhd_path \<Rightarrow> bytes list io"
  metadata_len :: "string \<Rightarrow> u64 io"
  base64_decode :: "string \<Rightarrow> bytes option"
  xxh3_128 :: "bytes \<Rightarrow> 128 word"
  eytzinger_layout :: "nat \<Rightarrow> nat list"
  open_env :: "string \<Rightarrow> (nat, 'env) outcome"
  heed_ops :: "'env heed"
  rkyv :: "cached_archive codec"

text \<open>\<open>mount\<close>, up to the driver: archives, keys, dictionary, filesystem.\<close>

definition start_cache :: "'env machine \<Rightarrow> start_config \<Rightarrow> 'env cache" where
  "start_cache mach cfg = (case cfg_cache_dir cfg of None \<Rightarrow> cache_empty | Some dir \<Rightarrow> cache_open (open_env mach) dir)"

definition start_keys :: "'env machine \<Rightarrow> start_config \<Rightarrow> (key_error, key_set) outcome option" where
  "start_keys mach cfg =
     into_keys_for_game (read_dir mach) (base64_decode mach) (read_to_string mach) (open_header mach)
       (archive_paths (cfg_archives cfg)) (cfg_keys_dir cfg) (cfg_game cfg)"

definition start_dict :: "'env machine \<Rightarrow> start_config \<Rightarrow> string option \<Rightarrow> dictionary option io option" where
  "start_dict mach cfg g =
     (case g of
        None \<Rightarrow> Some (Ok None)
      | Some g \<Rightarrow>
          map_option (\<lambda>d. obind d (\<lambda>d. Ok (Some d)))
            (from_dir_and_game (read_dir mach) (read_to_string mach) (cfg_dict_dir cfg) g))"

inductive dvdbnd_mount :: "'env machine \<Rightarrow> start_config \<Rightarrow> (start_error, mount) outcome \<Rightarrow> bool" for mach cfg where
  no_keys: "start_keys mach cfg = Some (Err e) \<Longrightarrow> dvdbnd_mount mach cfg (Err (SKey e))"
| no_dict: "start_keys mach cfg = Some (Ok ks) \<Longrightarrow> start_dict mach cfg (keys_game ks) = Some (Err e) \<Longrightarrow>
     dvdbnd_mount mach cfg (Err (SIo e))"
| mount: "start_keys mach cfg = Some (Ok ks) \<Longrightarrow> start_dict mach cfg (keys_game ks) = Some (Ok d) \<Longrightarrow>
     from_keys_and_dict (eytzinger_layout mach) (read_file_bytes mach) (xxh3_128 mach) (metadata_len mach)
       (cache_get (heed_ops mach) (rkyv mach) (start_cache mach cfg) ''dvdbnd.rofs'') (keys_by_path ks) d res \<Longrightarrow>
     dvdbnd_mount mach cfg res"

inductive_cases dvdbnd_mountE: "dvdbnd_mount mach cfg (Ok m)"

lemma prepare_all_cached:
  assumes "read_bhds read hash by_path = Ok files" "\<forall>f \<in> set files. cache_of (source_id f) \<noteq> None"
    and "prepare read hash metadata cache_of by_path d = Ok (b, bdts)"
  shows "bhds b = [] \<and> prepare read hash metadata cache_of by_path d' = Ok (b\<lparr>dict := d'\<rparr>, bdts)"
proof -
  have "filter (\<lambda>f. cache_of (source_id f) = None) files = []" using assms(2) by (simp add: filter_empty_conv)
  then have "take_cached cache_of files = ([], map (\<lambda>f. (source_id f, the (cache_of (source_id f)))) files)"
    using assms(2) by (simp add: take_cached_eq)
  then show ?thesis
    using assms(3) by (auto simp: prepare_def assms(1) with_cached_def with_dict_def with_bhds_def builder_default_def)
qed

lemma finish_no_bhds: "bhds b = [] \<Longrightarrow> finish_objects (b\<lparr>dict := d\<rparr>) = finish_objects b"
  by (simp add: finish_objects_def)

section \<open>A mount of one archive\<close>

lemma reduces_one:
  "reduces xs obj \<Longrightarrow> (xs = [] \<longrightarrow> obj = rofs_object_default) \<and> (\<forall>t. xs = [t] \<and> obj_root t \<noteq> [] \<longrightarrow> obj = t)"
  by (induction rule: reduces.induct)
    (auto simp: rofs_merge_def rofs_object_default_def append_eq_Cons_conv Let_def)

definition sample_bhd :: bytes where
  "sample_bhd = encode_dsr LE 64 [[FileEntryDs 65 10 100]]"

definition sample_source :: source where
  "sample_source = (''data.bhd'', sample_bhd, src_id_of 0, None)"

definition sample_archive :: bhd_file where
  "sample_archive = \<lparr>file_format = DarkSoulsRemastered, file_buckets = BDarkSouls [[FileEntryDs 65 10 100]],
     file_encryption = [None], salt = None\<rparr>"

definition sample_cached :: cached_archive where
  "sample_cached =
     (\<lparr>obj_root = [([], Branch [(''.data'', Branch [(''00'', Branch [(''00000041'', Leaf 0)])])])],
       obj_files = [sample_file\<lparr>file_src_id := src_id_of 0\<rparr>]\<rparr>, [])"

lemma sample_parsed: "parse_bhd sample_source = Ok (''data.bhd'', Bhd5_LE sample_archive, src_id_of 0)"
  using encode_dsr_read [of "[[FileEntryDs 65 10 100]]" LE 64]
  by (simp add: parse_bhd_def sample_source_def sample_bhd_def bhd5_try_ref_from_bytes_def map_err_def sample_archive_def)

lemma sample_archive_processed:
  "process_bhd None sample_archive ''data.bhd'' (src_id_of 0) =
     Ok ([(''.data/00/00000041'', sample_file\<lparr>file_src_id := src_id_of 0\<rparr>)], [], src_id_of 0)"
  unfolding sample_archive_def by (rule sample_processed_at)

lemma sample_fresh: "fresh None sample_source = Some sample_cached"
  by (simp add: fresh_def sample_parsed bhd_of_def sample_archive_processed sample_object_built sample_cached_def)

lemma sample_read: "read_bhds (\<lambda>_. Ok sample_bhd) (\<lambda>_. 0) [(''data.bhd'', None)] = Ok [sample_source]"
  by (simp add: read_bhds_def map_err_def sample_source_def)

lemma sample_tree_of: "tree_of None sample_source = (src_id_of 0, fst sample_cached)"
  by (simp add: tree_of_def sample_fresh) (simp add: sample_source_def)

lemma sample_small:
  assumes "mset xs = mset (map (snd \<circ> tree_of None) [sample_source])" "reduces xs obj"
  shows "small_tree (Branch (obj_root obj))"
proof -
  have "xs = [fst sample_cached]" using assms(1) by (simp add: sample_tree_of)
  then have "obj = fst sample_cached" using reduces_one [OF assms(2)] by (simp add: sample_cached_def)
  then show ?thesis by (simp add: sample_cached_def)
qed

lemma sample_mounted:
  assumes "coherent None cache_of [sample_source]"
  shows "\<exists>m. from_keys_and_dict sorted_layout (\<lambda>_. Ok sample_bhd) (\<lambda>_. 0) (\<lambda>_. Ok 1000) cache_of [(''data.bhd'', None)] None (Ok m)"
proof -
  obtain bdts where bdts: "open_bdts (\<lambda>_. Ok 1000) [sample_source] = Ok bdts"
    by (simp add: open_bdts_def sample_source_def bdt_new_def map_err_def)
  obtain b objs stores where p: "prepare (\<lambda>_. Ok sample_bhd) (\<lambda>_. 0) (\<lambda>_. Ok 1000) cache_of [(''data.bhd'', None)] None = Ok (b, bdts)"
    "finish_objects b = Ok (objs, stores)" "mset objs = mset (map (tree_of None) [sample_source])"
    using finish_objects_coherent [OF assms _ _ sample_read bdts] by auto
  have "mset [fst sample_cached] = mset (map snd objs)" using p(3) by (simp add: sample_tree_of)
  moreover obtain fs where "into_rofs sorted_layout (fst sample_cached) = Ok fs"
    using into_rofs_succeeds [of "fst sample_cached" sorted_layout] by (auto simp: sample_cached_def)
  ultimately have "finish sorted_layout b \<lparr>inner_fs = fs, encryption_stores = stores\<rparr>"
    using finish.intros [OF p(2) _ reduces.single] by blast
  then show ?thesis using from_keys_and_dict.mounted [OF refl p(1)] by blast
qed

lemma sample_coherent:
  "coherent None (\<lambda>_. None) [sample_source]" "coherent None (\<lambda>_. Some sample_cached) [sample_source]"
  by (simp_all add: coherent_def sample_fresh)

section \<open>Properties\<close>

text \<open>A file of an archive that was opened with its key is found in the mount under its path,
  whether its archive was processed now or came from a cache that holds what processing it now
  would give; its encryption records and the path of its data archive are those of its archive.
  The other archives must not use the path, and the trees must fit the frozen format.\<close>

theorem mounted_archive_served:
  assumes "from_keys_and_dict layout read hash metadata cache_of by_path d (Ok m)"
    and "read_bhds read hash by_path = Ok files"
    and "distinct (map source_id files)" "distinct (map source_path files)" "coherent d cache_of files"
    and "eytzinger_ok layout esearch" "(path, bytes, src, k) \<in> set files" "parse_bhd (path, bytes, src, k) = Ok (path, bhd, src)"
    and "process_bhd d (bhd_of bhd) path src = Ok (fs, store, src)" "i < length fs" "unshadowed DvdbndConfig_SEPARATORS fs i"
    and "\<forall>xs obj. mset xs = mset (map (snd \<circ> tree_of d) files) \<longrightarrow> reduces xs obj \<longrightarrow> small_tree (Branch (obj_root obj))"
    and "\<forall>f \<in> set files. source_id f \<noteq> src \<longrightarrow>
      object_free (snd (tree_of d f)) (stored_path DvdbndConfig_SEPARATORS (fst (fs ! i)))"
  shows "encryption_store (m_fs m) src = Some store \<and> map_of (m_bdts m) src = Some (to_bdt path) \<and>
    (\<exists>ino e. lookup DvdbndConfig_SEPARATORS esearch (inner_fs (m_fs m)) (fst (fs ! i)) = Ok ino \<and>
       rofs_entry (inner_fs (m_fs m)) ino = Ok e \<and> kind e = EFile (snd (fs ! i)))"
  using assms by (rule mounted_archive)

text \<open>C17: a coherent cache cannot be seen: what a mount serves with it, a mount with any other
  coherent cache can serve, one that holds nothing in particular.\<close>

theorem cache_transparent:
  assumes "from_keys_and_dict layout read hash metadata cache_of by_path d (Ok m)"
    and "read_bhds read hash by_path = Ok files"
    and "distinct (map source_id files)" "distinct (map source_path files)" "coherent d cache_of files" "coherent d cache_of' files"
  shows "\<exists>m'. from_keys_and_dict layout read hash metadata cache_of' by_path d (Ok m') \<and>
    m_bdts m' = m_bdts m \<and> inner_fs (m_fs m') = inner_fs (m_fs m) \<and> encryption_store (m_fs m') = encryption_store (m_fs m)"
  using assms by (rule coherent_cache_exchange)

text \<open>When the cache holds all archives the dictionary is not looked at: the mounts are those of
  whatever dictionary the cache was filled with, also when it was none.\<close>

theorem cached_dictionary_ignored:
  assumes "read_bhds read hash by_path = Ok files" "\<forall>f \<in> set files. cache_of (source_id f) \<noteq> None"
    and "from_keys_and_dict layout read hash metadata cache_of by_path d (Ok m)"
  shows "from_keys_and_dict layout read hash metadata cache_of by_path d' (Ok m)"
proof -
  obtain by_path' b bdts fs where 1: "m = mount_of fs bdts" "mset by_path' = mset by_path"
    "prepare read hash metadata cache_of by_path' d = Ok (b, bdts)" "finish layout b fs"
    using assms(3) by (auto elim: from_keys_and_dictE)
  obtain files' where f: "read_bhds read hash by_path' = Ok files'" "mset files' = mset files"
    using read_bhds_perm [OF assms(1) 1(2)] by blast
  have "\<forall>f \<in> set files'. cache_of (source_id f) \<noteq> None" using assms(2) mset_eq_setD [OF f(2)] by simp
  note p = prepare_all_cached [OF f(1) this 1(3), of d']
  have "finish layout (b\<lparr>dict := d'\<rparr>) fs"
    using 1(4) p finish_no_bhds [of b d'] by (auto elim!: finishE intro: finish.intros)
  then show ?thesis using from_keys_and_dict.mounted [OF 1(2) conjunct2 [OF p]] 1(1) by simp
qed

theorem mounted_archive_served_witness:
  "\<exists>m ino e. from_keys_and_dict sorted_layout (\<lambda>_. Ok sample_bhd) (\<lambda>_. 0) (\<lambda>_. Ok 1000) (\<lambda>_. None)
      [(''data.bhd'', None)] None (Ok m) \<and> map_of (m_bdts m) (src_id_of 0) = Some (to_bdt ''data.bhd'') \<and>
    lookup DvdbndConfig_SEPARATORS linear_search (inner_fs (m_fs m)) ''.data/00/00000041'' = Ok ino \<and>
    rofs_entry (inner_fs (m_fs m)) ino = Ok e \<and> kind e = EFile (sample_file\<lparr>file_src_id := src_id_of 0\<rparr>)"
proof -
  let ?files = "[(''.data/00/00000041'', sample_file\<lparr>file_src_id := src_id_of 0\<rparr>)]"
  obtain m where m: "from_keys_and_dict sorted_layout (\<lambda>_. Ok sample_bhd) (\<lambda>_. 0) (\<lambda>_. Ok 1000) (\<lambda>_. None)
      [(''data.bhd'', None)] None (Ok m)" using sample_mounted [OF sample_coherent(1)] by blast
  have mem: "(''data.bhd'', sample_bhd, src_id_of 0, None) \<in> set [sample_source]" by (simp add: sample_source_def)
  have pr: "process_bhd None (bhd_of (Bhd5_LE sample_archive)) ''data.bhd'' (src_id_of 0) = Ok (?files, [], src_id_of 0)"
    by (simp add: bhd_of_def sample_archive_processed)
  have sp: "stored_path DvdbndConfig_SEPARATORS ''.data/00/00000041'' = [''.data'', ''00'', ''00000041'']" by code_simp
  have un: "unshadowed DvdbndConfig_SEPARATORS ?files 0" by (simp add: unshadowed_def sp)
  note T = mounted_archive_served [OF m sample_read _ _ sample_coherent(1) eytzinger_ok_sorted mem _ pr _ un]
  have "\<forall>f \<in> set [sample_source]. source_id f \<noteq> src_id_of 0 \<longrightarrow> object_free (snd (tree_of None f))
      (stored_path DvdbndConfig_SEPARATORS (fst (?files ! 0)))" by (simp add: sample_source_def)
  note T = T [OF _ _ _ _ _ this]
  have "map_of (m_bdts m) (src_id_of 0) = Some (to_bdt ''data.bhd'') \<and>
    (\<exists>ino e. lookup DvdbndConfig_SEPARATORS linear_search (inner_fs (m_fs m)) (fst (?files ! 0)) = Ok ino \<and>
       rofs_entry (inner_fs (m_fs m)) ino = Ok e \<and> kind e = EFile (snd (?files ! 0)))"
    using T sample_parsed sample_small by (auto simp: sample_source_def)
  then show ?thesis using m by auto
qed

theorem cache_transparent_witness:
  "\<exists>m. from_keys_and_dict sorted_layout (\<lambda>_. Ok sample_bhd) (\<lambda>_. 0) (\<lambda>_. Ok 1000) (\<lambda>_. Some sample_cached)
      [(''data.bhd'', None)] None (Ok m)"
proof -
  obtain m where m: "from_keys_and_dict sorted_layout (\<lambda>_. Ok sample_bhd) (\<lambda>_. 0) (\<lambda>_. Ok 1000) (\<lambda>_. None)
      [(''data.bhd'', None)] None (Ok m)" using sample_mounted [OF sample_coherent(1)] by blast
  from cache_transparent [OF m sample_read _ _ sample_coherent] show ?thesis by auto
qed

theorem cached_dictionary_ignored_witness:
  "\<exists>m. from_keys_and_dict sorted_layout (\<lambda>_. Ok sample_bhd) (\<lambda>_. 0) (\<lambda>_. Ok 1000) (\<lambda>_. Some sample_cached)
      [(''data.bhd'', None)] (Some [(''data'', ''/a'')]) (Ok m)"
proof -
  obtain m where m: "from_keys_and_dict sorted_layout (\<lambda>_. Ok sample_bhd) (\<lambda>_. 0) (\<lambda>_. Ok 1000) (\<lambda>_. Some sample_cached)
      [(''data.bhd'', None)] None (Ok m)" using sample_mounted [OF sample_coherent(2)] by blast
  from cached_dictionary_ignored [OF sample_read _ m] show ?thesis by auto
qed

end
