(* ===== verification/Served.thy ===== *)
theory Served
  imports Start ReadOnly
begin

text \<open>
  What a mount serves: nothing but the files of the archives it was made from, each with its
  data archive and its store at hand, and every such file, with the plaintext that the header
  of its archive promises.
\<close>

section \<open>Nothing is served that is not in an archive\<close>

lemma process_entries_src:
  "process_entries path_of src xs store = Ok (fs, store') \<Longrightarrow> \<forall>x \<in> set fs. file_src_id (snd x) = src"
proof (induction xs arbitrary: store fs)
  case (Cons x xs)
  obtain e enc where x: "x = (e, enc)" by (cases x)
  obtain y ys st where "fs = y # ys" "file_src_id (snd y) = src" "process_entries path_of src xs st = Ok (ys, store')"
    using Cons.prems by (cases enc) (force simp: x Let_def)+
  then show ?case using Cons.IH [of st ys] by simp
qed simp

lemma process_bhd_files_src:
  "process_bhd d bhd path src = Ok (fs, store, src') \<Longrightarrow> \<forall>x \<in> set fs. file_src_id (snd x) = src"
  by (auto simp: process_bhd_def process_files_def Let_def split: buckets.splits dest: process_entries_src)

lemma reduces_files: "reduces xs m \<Longrightarrow> set (obj_files m) \<subseteq> (\<Union>x \<in> set xs. set (obj_files x))"
proof (induction rule: reduces.induct)
  case (join xs a ys b c)
  then have "set (obj_files c) \<subseteq> set (obj_files a) \<union> set (obj_files b)"
    by (auto simp: rofs_merge_def Let_def split: if_splits)
  also have "\<dots> \<subseteq> (\<Union>x \<in> set xs. set (obj_files x)) \<union> (\<Union>x \<in> set ys. set (obj_files x))"
    using join.IH by (rule Un_mono)
  finally show ?case by (simp add: Un_commute)
qed (simp_all add: rofs_object_default_def)

lemma reduces_root: "reduces xs m \<Longrightarrow> xs \<noteq> [] \<Longrightarrow> \<forall>x \<in> set xs. obj_root x \<noteq> [] \<Longrightarrow> obj_root m \<noteq> []"
proof (induction rule: reduces.induct)
  case (join xs a ys b c)
  have "obj_root c \<noteq> []" if "obj_root a \<noteq> [] \<or> obj_root b \<noteq> []"
    using that join(3) merge_branch_neq_Nil by (auto simp: rofs_merge_def Let_def split: if_splits)
  moreover have "xs \<noteq> [] \<or> ys \<noteq> []" using join.prems(1) by simp
  ultimately show ?case using join.IH join.prems(2) by (metis Un_iff set_append)
qed simp_all

lemma fresh_elim:
  assumes "fresh d f = Some (obj, store)"
  obtains bhd fs where "parse_bhd f = Ok (source_path f, bhd, source_id f)"
    "process_bhd d (bhd_of bhd) (source_path f) (source_id f) = Ok (fs, store, source_id f)"
    "rofs_new DvdbndConfig_SEPARATORS fs = Ok obj"
proof -
  obtain path bhd src where p: "parse_bhd f = Ok (path, bhd, src)"
    using assms by (cases "parse_bhd f") (auto simp: fresh_def)
  then have eq: "path = source_path f" "src = source_id f" using parse_bhd_fields by blast+
  obtain fs st src' where q: "process_bhd d (bhd_of bhd) path src = Ok (fs, st, src')"
    using assms p by (cases "process_bhd d (bhd_of bhd) path src") (auto simp: fresh_def)
  then have "src' = src" by (rule process_bhd_src)
  then show ?thesis using that p q eq assms by (auto simp: fresh_def split: outcome.splits)
qed

lemma coherent_tree:
  assumes "coherent d cache_of files" "f \<in> set files"
  shows "\<exists>bhd fs. parse_bhd f = Ok (source_path f, bhd, source_id f) \<and>
    process_bhd d (bhd_of bhd) (source_path f) (source_id f) = Ok (fs, snd (store_of d f), source_id f) \<and>
    rofs_new DvdbndConfig_SEPARATORS fs = Ok (snd (tree_of d f))"
proof -
  obtain t st where "fresh d f = Some (t, st)" using assms unfolding coherent_def by fastforce
  then show ?thesis by (auto elim!: fresh_elim simp: tree_of_def store_of_def)
qed

lemma map_of_store:
  assumes "distinct (map source_id files)" "f \<in> set files"
  shows "map_of (map (store_of d) files) (source_id f) = Some (snd (store_of d f))"
proof (rule map_of_is_SomeI)
  show "distinct (map fst (map (store_of d) files))" using assms(1) by (simp add: store_of_def comp_def)
  show "(source_id f, snd (store_of d f)) \<in> set (map (store_of d) files)" using assms(2) by (force simp: store_of_def)
qed

lemma served_files:
  assumes "from_keys_and_dict layout read hash metadata cache_of by_path d (Ok m)"
    and "read_bhds read hash by_path = Ok files" "files \<noteq> []"
    and "distinct (map source_id files)" "distinct (map source_path files)" "coherent d cache_of files"
    and "eytzinger_ok layout esearch"
    and "\<forall>xs obj. mset xs = mset (map (snd \<circ> tree_of d) files) \<longrightarrow> reduces xs obj \<longrightarrow> small_tree (Branch (obj_root obj))"
  shows "rofs_wf (inner_fs (m_fs m))"
    and "rofs_entry (inner_fs (m_fs m)) i = Ok e \<Longrightarrow> kind e = EFile x \<Longrightarrow>
      \<exists>f bhd fs store. f \<in> set files \<and> parse_bhd f = Ok (source_path f, bhd, source_id f) \<and>
        process_bhd d (bhd_of bhd) (source_path f) (source_id f) = Ok (fs, store, source_id f) \<and>
        x \<in> snd ` set fs \<and> file_src_id x = source_id f \<and>
        encryption_store (m_fs m) (source_id f) = Some store \<and> map_of (m_bdts m) (source_id f) = Some (to_bdt (source_path f))"
proof -
  obtain by_path' files' bdts objs stores rofs xs obj where
    p: "mset by_path' = mset by_path" "mset files' = mset files" "read_bhds read hash by_path' = Ok files'"
    "open_bdts metadata files' = Ok bdts" "m = mount_of \<lparr>inner_fs = rofs, encryption_stores = stores\<rparr> bdts"
    "mset objs = mset (map (tree_of d) files)" "map_of stores = map_of (map (store_of d) files)"
    "mset xs = mset (map snd objs)" "reduces xs obj" "into_rofs layout obj = Ok rofs"
    using mounted_from [OF assms(1,2,4-6)] .
  have "mset (map snd objs) = mset (map (snd \<circ> tree_of d) files)" using p(6) by (metis map_map mset_map)
  then have xs: "mset xs = mset (map (snd \<circ> tree_of d) files)" using p(8) by simp
  have sx: "set xs = snd ` tree_of d ` set files" using mset_eq_setD [OF xs] by (simp add: image_comp)
  note fr = coherent_tree [OF assms(6)]
  have inv: "\<forall>x \<in> set xs. object_inv DvdbndConfig_SEPARATORS x \<and> obj_root x \<noteq> []"
    unfolding sx using fr rofs_new_inv [OF valid_seps_configs(2)] by (fastforce simp: rofs_new_Ok)
  have "xs \<noteq> []" using sx assms(3) by auto
  then have root: "obj_root obj \<noteq> []" using reduces_root [OF p(9)] inv by blast
  have small: "small_tree (Branch (obj_root obj))" using assms(8) xs p(9) by blast
  have oinv: "object_inv DvdbndConfig_SEPARATORS obj" using reduces_keeps [OF p(9)] inv by blast
  have wf: "rofs_wf rofs" by (rule into_rofs_wf [OF p(10) assms(7) oinv root small])
  then show "rofs_wf (inner_fs (m_fs m))" by (simp add: p(5) mount_of_def)
  assume e: "rofs_entry (inner_fs (m_fs m)) i = Ok e" "kind e = EFile x"
  have "x \<in> set (rofs_files rofs)"
    using e by (auto simp: p(5) mount_of_def rofs_entry_def node_entry_def Let_def split: option.splits node_content.splits if_splits)
  then have "x \<in> set (obj_files obj)" using p(10) by (auto elim: into_rofs_build)
  then obtain f where f: "f \<in> set files" "x \<in> set (obj_files (snd (tree_of d f)))"
    using reduces_files [OF p(9)] sx by auto
  obtain bhd fs where b: "parse_bhd f = Ok (source_path f, bhd, source_id f)"
    "process_bhd d (bhd_of bhd) (source_path f) (source_id f) = Ok (fs, snd (store_of d f), source_id f)"
    "rofs_new DvdbndConfig_SEPARATORS fs = Ok (snd (tree_of d f))" using fr [OF f(1)] by blast
  then have xf: "x \<in> snd ` set fs" using f(2) by (auto simp: rofs_new_Ok)
  then have src: "file_src_id x = source_id f" using process_bhd_files_src [OF b(2)] by auto
  have st: "encryption_store (m_fs m) (source_id f) = Some (snd (store_of d f))"
    using map_of_store [OF assms(4) f(1), of d] by (simp add: p(5,7) mount_of_def encryption_store_def)
  have "f \<in> set files'" using f(1) mset_eq_setD [OF p(2)] by simp
  then obtain bdt where "map_of bdts (source_id f) = Some bdt" "bdt_path bdt = to_bdt (source_path f)"
    using open_bdts_path [OF p(4) distinct_perm [OF p(2) assms(4)]] by blast
  then have "map_of (m_bdts m) (source_id f) = Some (to_bdt (source_path f))"
    by (simp add: p(5) mount_of_def map_of_map)
  then show "\<exists>f bhd fs store. f \<in> set files \<and> parse_bhd f = Ok (source_path f, bhd, source_id f) \<and>
        process_bhd d (bhd_of bhd) (source_path f) (source_id f) = Ok (fs, store, source_id f) \<and>
        x \<in> snd ` set fs \<and> file_src_id x = source_id f \<and>
        encryption_store (m_fs m) (source_id f) = Some store \<and> map_of (m_bdts m) (source_id f) = Some (to_bdt (source_path f))"
    using f(1) b(1,2) xf src st by blast
qed

section \<open>Every entry of an archive is served\<close>

text \<open>The entries of a header, in order, whatever its format, and the layout of their paths.\<close>

definition archive_entries :: "bhd_file \<Rightarrow> file_entry list" where
  "archive_entries bhd =
     (case file_buckets bhd of BDarkSouls e \<Rightarrow> concat e | BDarkSouls2 e \<Rightarrow> concat e | BDarkSouls3 e \<Rightarrow> concat e | BEldenRing e \<Rightarrow> concat e)"

definition archive_layout :: "bhd_file \<Rightarrow> entry_layout" where
  "archive_layout bhd =
     (case file_buckets bhd of BDarkSouls _ \<Rightarrow> LayoutDs | BDarkSouls2 _ \<Rightarrow> LayoutDs2 | BDarkSouls3 _ \<Rightarrow> LayoutDs3 | BEldenRing _ \<Rightarrow> LayoutEr)"

text \<open>The bytes of an entry in the data archive, and the plaintext its header promises: the bytes
  themselves, or what the key and the ranges of its encryption record decrypt them to. \<open>rs\<close> are the
  encrypted ranges, in the order of their ends.\<close>

definition entry_bytes :: "file_entry \<Rightarrow> bytes \<Rightarrow> bytes" where
  "entry_bytes e data = slice (unat (file_offset e)) (unat (file_offset e) + unat (file_size e)) data"

definition entry_plaintext ::
  "(bytes \<Rightarrow> bytes \<Rightarrow> bytes) \<Rightarrow> file_entry \<Rightarrow> encryption option \<Rightarrow> bytes \<Rightarrow> srange list \<Rightarrow> bytes \<Rightarrow> bool" where
  "entry_plaintext decrypt_block e enc data rs pt \<longleftrightarrow>
     (case enc of
        None \<Rightarrow> rs = [] \<and> pt = entry_bytes e data
      | Some enc \<Rightarrow>
          obind (store_ranges (file_offset e) (ucast (file_size e)) (ranges enc)) (\<lambda>qs. Ok (sort_key rng_end qs)) = Ok rs \<and>
            ranges_ok rs (unat (file_size e)) \<and>
            block_ok (decrypt_block (encryption.key enc)) \<and> 0 < file_size e \<and>
            pt = decrypted (decrypt_block (encryption.key enc)) rs (entry_bytes e data))"

text \<open>What a file is cut to: its unpadded size, when the header gives one.\<close>

definition readable_len :: "file_entry \<Rightarrow> u32" where
  "readable_len e = (case unpadded_file_size e of None \<Rightarrow> file_size e | Some n \<Rightarrow> if n = 0 then file_size e else n)"

lemma process_bhd_file:
  assumes "process_bhd d bhd path src = Ok (fs, store, src)" "i < length fs"
    and "\<forall>enc. Some enc \<in> set (file_encryption bhd) \<longrightarrow> length (encryption.key enc) = 16"
  shows "file_of (entry_path (archive_layout bhd) d (case path_file_prefix path of Some name \<Rightarrow> name | None \<Rightarrow> [])) src store
    (archive_entries bhd ! i, file_encryption bhd ! i) (fs ! i)"
proof -
  let ?p = "entry_path (archive_layout bhd) d (case path_file_prefix path of Some name \<Rightarrow> name | None \<Rightarrow> [])"
  let ?xs = "zip (archive_entries bhd) (file_encryption bhd)"
  have p: "process_entries ?p src ?xs [] = Ok (fs, store)"
    using assms(1) by (auto simp: process_bhd_def process_files_def archive_layout_def archive_entries_def Let_def split: buckets.splits)
  have "\<forall>x \<in> set ?xs. \<forall>enc. snd x = Some enc \<longrightarrow> length (encryption.key enc) = 16"
    using assms(3) by (metis in_set_zipE prod.collapse)
  then have all: "list_all2 (file_of ?p src store) ?xs fs" using process_entries_files [OF p] by blast
  then have "i < length ?xs" using assms(2) list_all2_lengthD [OF all] by simp
  then show ?thesis using list_all2_nthD [OF all] by simp
qed

lemma file_plaintext:
  assumes "file_of path_of src store (e, enc) x" "encryption_store (m_fs m) src = Some store"
    and "entry_plaintext decrypt_block e enc data rs pt"
  shows "plaintext_of decrypt_block m (snd x) data rs pt"
proof -
  have f: "data_offset (snd x) = file_offset e" "f_len (snd x) = file_size e" "file_src_id (snd x) = src"
    "file_encryption_id (snd x) = None \<longleftrightarrow> enc = None"
    using assms(1) by (simp_all add: file_of_def)
  have ab: "archive_bytes (snd x) data = entry_bytes e data" by (simp add: archive_bytes_def entry_bytes_def f)
  show ?thesis
  proof (cases enc)
    case None
    then show ?thesis using assms(3) f(4) ab by (simp add: plaintext_of_def entry_plaintext_def)
  next
    case (Some en)
    then obtain eid where eid: "file_encryption_id (snd x) = Some eid" using f(4) by auto
    obtain qs where qs: "store_ranges (file_offset e) (ucast (file_size e)) (ranges en) = Ok qs" "rs = sort_key rng_end qs"
      using assms(3) by (cases "store_ranges (file_offset e) (ucast (file_size e)) (ranges en)") (auto simp: entry_plaintext_def Some)
    have rs: "ranges_ok rs (unat (file_size e))" "block_ok (decrypt_block (encryption.key en))" "0 < file_size e"
      "pt = decrypted (decrypt_block (encryption.key en)) rs (entry_bytes e data)"
      using assms(3) by (simp_all add: entry_plaintext_def Some)
    have "decrypts_with store eid e en decrypt_block ct" for ct
      using assms(1) eid by (simp add: file_of_def Some)
    then have "decrypts (store_decrypt decrypt_block store eid) (decrypt_block (encryption.key en)) rs"
      using qs by (auto simp: decrypts_def decrypts_with_def)
    then have "\<exists>fd. decrypts (store_decrypt decrypt_block store eid) fd rs \<and> block_ok fd \<and>
        ranges_ok rs (unat (file_size e)) \<and> pt = decrypted fd rs (entry_bytes e data)"
      using rs(1,2,4) by blast
    then show ?thesis using eid assms(2) rs(3) by (simp add: plaintext_of_def f ab)
  qed
qed

lemma process_entries_length: "process_entries p src xs store = Ok (fs, store') \<Longrightarrow> length fs = length xs"
proof (induction xs arbitrary: store fs)
  case (Cons x xs)
  obtain e enc where x: "x = (e, enc)" by (cases x)
  obtain y ys st where "fs = y # ys" "process_entries p src xs st = Ok (ys, store')"
    using Cons.prems by (cases enc) (force simp: x Let_def)+
  then show ?case using Cons.IH [of st ys] by simp
qed simp

lemma process_bhd_length:
  assumes "process_bhd d bhd path src = Ok (fs, store, src')"
  shows "length fs = min (length (archive_entries bhd)) (length (file_encryption bhd))"
  using assms by (auto simp: process_bhd_def process_files_def archive_entries_def Let_def split: buckets.splits
    dest!: process_entries_length)

text \<open>The path of an entry of an archive, by its hash.\<close>

definition archive_path :: "bhd_file \<Rightarrow> dictionary option \<Rightarrow> string \<Rightarrow> file_entry \<Rightarrow> string" where
  "archive_path bhd d path e =
     entry_path (archive_layout bhd) d (case path_file_prefix path of Some name \<Rightarrow> name | None \<Rightarrow> []) (path_hash e)"

lemma map_err_Ok: "map_err g x = Ok y \<longleftrightarrow> x = Ok y"
  by (cases x) (simp_all add: map_err_def)

text \<open>What the header itself promises: keys of 16 bytes, unpadded sizes within the padded ones.\<close>

lemma archive_entries_buckets: "archive_entries bhd = concat (bucket_entries (file_buckets bhd))"
  by (simp add: archive_entries_def split: buckets.split)

lemma parsed_archive_valid:
  assumes "parse_bhd f = Ok (path, bhd, src)"
  shows "e \<in> set (archive_entries (bhd_of bhd)) \<Longrightarrow> readable_len e \<le> file_size e"
    and "Some enc \<in> set (file_encryption (bhd_of bhd)) \<Longrightarrow> length (encryption.key enc) = 16"
    and "length (file_encryption (bhd_of bhd)) = length (archive_entries (bhd_of bhd))"
proof -
  obtain bytes where "bhd5_try_ref_from_bytes bytes = Ok bhd"
    using assms by (cases f) (auto simp: parse_bhd_def map_err_Ok)
  then obtain ord where "try_ref_from_bytes ord bytes = Ok (bhd_of bhd)"
    by (auto simp: bhd5_try_ref_from_bytes_def bhd_of_def split: outcome.splits)
  from accepted_file_valid [OF this] obtain h where
    ok: "\<forall>e \<in> set (archive_entries (bhd_of bhd)). entry_ok h e"
    and enc: "list_all2 encryption_matches (archive_entries (bhd_of bhd)) (file_encryption (bhd_of bhd))"
    unfolding archive_entries_buckets by blast
  show "readable_len e \<le> file_size e" if "e \<in> set (archive_entries (bhd_of bhd))"
    using ok that by (auto simp: entry_ok_def readable_len_def split: option.split)
  show "length (encryption.key enc) = 16" if "Some enc \<in> set (file_encryption (bhd_of bhd))"
    using list_all2_right [OF enc that] by (auto simp: encryption_matches_def)
  show "length (file_encryption (bhd_of bhd)) = length (archive_entries (bhd_of bhd))"
    using list_all2_lengthD [OF enc] by simp
qed

text \<open>An entry of an archive, in a mount, with everything that a read of it asks for.\<close>

lemma archive_file_mounted:
  assumes "from_keys_and_dict layout read hash metadata cache_of by_path d (Ok m)"
    and "read_bhds read hash by_path = Ok files"
    and "distinct (map source_id files)" "distinct (map source_path files)" "coherent d cache_of files"
    and "eytzinger_ok layout esearch" "(path, bytes, src, k) \<in> set files" "parse_bhd (path, bytes, src, k) = Ok (path, bhd, src)"
    and "process_bhd d (bhd_of bhd) path src = Ok (fs, store, src)" "i < length fs" "unshadowed DvdbndConfig_SEPARATORS fs i"
    and "\<forall>xs obj. mset xs = mset (map (snd \<circ> tree_of d) files) \<longrightarrow> reduces xs obj \<longrightarrow> small_tree (Branch (obj_root obj))"
    and "\<forall>f \<in> set files. source_id f \<noteq> src \<longrightarrow>
      object_free (snd (tree_of d f)) (stored_path DvdbndConfig_SEPARATORS (fst (fs ! i)))"
    and "e = archive_entries (bhd_of bhd) ! i" "entry_plaintext decrypt_block e (file_encryption (bhd_of bhd) ! i) data rs pt"
    and "open_file (to_bdt path) = Ok bdt" "reads_file bdt data" "length data < 2 ^ 63"
    and "unat (file_offset e) + unat (file_size e) \<le> length data"
  obtains ino en x mp where
    "lookup DvdbndConfig_SEPARATORS esearch (inner_fs (m_fs m)) (archive_path (bhd_of bhd) d path e) = Ok ino"
    "rofs_entry (inner_fs (m_fs m)) ino = Ok en" "kind en = EFile x" "unpadded_len x = readable_len e"
    "plaintext_of decrypt_block m x data rs pt" "bdt_open open_file (m_bdts m) x [] = Ok (bdt, mp)" "archive_ok bdt data x"
proof -
  let ?f = "fs ! i"
  note M = mounted_archive [OF assms(1-13)]
  note V = parsed_archive_valid [OF assms(8)]
  have fo: "file_of (entry_path (archive_layout (bhd_of bhd)) d (case path_file_prefix path of Some name \<Rightarrow> name | None \<Rightarrow> []))
      src store (e, file_encryption (bhd_of bhd) ! i) ?f"
    unfolding assms(14) by (rule process_bhd_file [OF assms(9,10)]) (use V(2) in blast)
  then have f: "fst ?f = archive_path (bhd_of bhd) d path e"
    "data_offset (snd ?f) = file_offset e" "f_len (snd ?f) = file_size e" "file_src_id (snd ?f) = src"
    "unpadded_len (snd ?f) = readable_len e"
    unfolding file_of_def readable_len_def archive_path_def fst_conv snd_conv by blast+
  have "i < length (archive_entries (bhd_of bhd))" using process_bhd_length [OF assms(9)] V(3) assms(10) by simp
  then have len: "readable_len e \<le> file_size e" using V(1) assms(14) by simp
  obtain ino en where ino: "lookup DvdbndConfig_SEPARATORS esearch (inner_fs (m_fs m)) (archive_path (bhd_of bhd) d path e) = Ok ino"
    "rofs_entry (inner_fs (m_fs m)) ino = Ok en" "kind en = EFile (snd ?f)" using M unfolding f(1) by blast
  have pt: "plaintext_of decrypt_block m (snd ?f) data rs pt"
    using file_plaintext [OF fo _ assms(15)] M by blast
  have bdt: "bdt_open open_file (m_bdts m) (snd ?f) [] = Ok (bdt, AList.update (to_bdt path) bdt [])"
    using M assms(16) by (simp add: bdt_open_def f)
  have ok: "archive_ok bdt data (snd ?f)" using assms(17-19) len by (simp add: archive_ok_def f)
  show ?thesis by (rule that [OF ino f(5) pt bdt ok])
qed

section \<open>The sample archive\<close>

definition sample_archive_bytes :: bytes where
  "sample_archive_bytes = replicate 100 0 @ [1, 2, 3, 4, 5, 6, 7, 8, 9, 10]"

definition sample_archive_read :: managed_read where
  "sample_archive_read len pos = Ok (Some (slice pos (pos + len) sample_archive_bytes))"

abbreviation sample_entry :: file_entry where
  "sample_entry \<equiv> FileEntryDs 65 10 100"

abbreviation sample_files :: "(string \<times> dvdbnd_file) list" where
  "sample_files \<equiv> [(''.data/00/00000041'', sample_file\<lparr>file_src_id := src_id_of 0\<rparr>)]"

lemma sample_entry_mounted:
  "(''data.bhd'', sample_bhd, src_id_of 0, None) \<in> set [sample_source]"
  "parse_bhd (''data.bhd'', sample_bhd, src_id_of 0, None) = Ok (''data.bhd'', Bhd5_LE sample_archive, src_id_of 0)"
  "process_bhd None (bhd_of (Bhd5_LE sample_archive)) ''data.bhd'' (src_id_of 0) = Ok (sample_files, [], src_id_of 0)"
  "0 < length sample_files"
  "unshadowed DvdbndConfig_SEPARATORS sample_files 0"
  "\<forall>xs obj. mset xs = mset (map (snd \<circ> tree_of None) [sample_source]) \<longrightarrow> reduces xs obj \<longrightarrow> small_tree (Branch (obj_root obj))"
  "\<forall>f \<in> set [sample_source]. source_id f \<noteq> src_id_of 0 \<longrightarrow> object_free (snd (tree_of None f))
      (stored_path DvdbndConfig_SEPARATORS (fst (sample_files ! 0)))"
  "sample_entry = archive_entries (bhd_of (Bhd5_LE sample_archive)) ! 0"
  "entry_plaintext (\<lambda>k b. b) sample_entry (file_encryption (bhd_of (Bhd5_LE sample_archive)) ! 0) sample_archive_bytes
      [] [1, 2, 3, 4, 5, 6, 7, 8, 9, 10]"
proof -
  show "(''data.bhd'', sample_bhd, src_id_of 0, None) \<in> set [sample_source]" by (simp add: sample_source_def)
  show "parse_bhd (''data.bhd'', sample_bhd, src_id_of 0, None) = Ok (''data.bhd'', Bhd5_LE sample_archive, src_id_of 0)"
    using sample_parsed by (simp add: sample_source_def)
  show "process_bhd None (bhd_of (Bhd5_LE sample_archive)) ''data.bhd'' (src_id_of 0) = Ok (sample_files, [], src_id_of 0)"
    by (simp add: bhd_of_def sample_archive_processed)
  have "stored_path DvdbndConfig_SEPARATORS ''.data/00/00000041'' = [''.data'', ''00'', ''00000041'']" by code_simp
  then show "unshadowed DvdbndConfig_SEPARATORS sample_files 0" by (simp add: unshadowed_def)
  show "\<forall>f \<in> set [sample_source]. source_id f \<noteq> src_id_of 0 \<longrightarrow> object_free (snd (tree_of None f))
      (stored_path DvdbndConfig_SEPARATORS (fst (sample_files ! 0)))" by (simp add: sample_source_def)
  show "sample_entry = archive_entries (bhd_of (Bhd5_LE sample_archive)) ! 0"
    by (simp add: archive_entries_def bhd_of_def sample_archive_def)
  have "clamp_i32 10 = 10" by (simp add: clamp_i32_def)
  then show "entry_plaintext (\<lambda>k b. b) sample_entry (file_encryption (bhd_of (Bhd5_LE sample_archive)) ! 0) sample_archive_bytes
      [] [1, 2, 3, 4, 5, 6, 7, 8, 9, 10]"
    by (simp add: entry_plaintext_def entry_bytes_def bhd_of_def sample_archive_def sample_archive_bytes_def slice_def)
qed (use sample_small in \<open>blast | simp\<close>)+

lemma sample_archive_data:
  "reads_file sample_archive_read sample_archive_bytes" "length sample_archive_bytes < 2 ^ 63"
  "unat (file_offset sample_entry) + unat (file_size sample_entry) \<le> length sample_archive_bytes" "readable_len sample_entry = 10"
proof -
  show "reads_file sample_archive_read sample_archive_bytes" by (simp add: reads_file_def sample_archive_read_def)
  have "clamp_i32 10 = 10" by (simp add: clamp_i32_def)
  then show "unat (file_offset sample_entry) + unat (file_size sample_entry) \<le> length sample_archive_bytes" "readable_len sample_entry = 10"
    by (simp_all add: sample_archive_bytes_def readable_len_def)
qed (simp add: sample_archive_bytes_def)

end
