(* ===== verification/Lifecycle.thy ===== *)
theory Lifecycle
  imports Fuser Projfs Thread
begin

text \<open>
  A mount from its set-up to its end (\<open>DvdbndMount::mount\<close> in \<open>src/dvdbnd/mount/fuser.rs\<close> and
  \<open>projfs.rs\<close>): the mount point and the driver are set up, the main thread waits for the
  interrupt, and the tear-down of the driver gives the result. A set-up that fails ends the mount
  before anything waits; a tear-down that does not return ends nothing.
\<close>

section \<open>FUSE\<close>

datatype mount_option = FSName string | RO | Async

record fuse_config =
  mount_options :: "mount_option list"
  clone_fd :: bool
  n_threads :: "nat option"

definition fuse_config_new :: "bool \<Rightarrow> fuse_config" where
  "fuse_config_new linux =
     \<lparr>mount_options = [FSName ''fsvfs'', RO, Async], clone_fd = linux, n_threads = (if linux then Some 4 else None)\<rparr>"

text \<open>\<open>spawn\<close> starts the session; the results of installing the handler and of unmounting are those
  of the surroundings of the threads.\<close>

inductive fuse_mount_ends ::
  "(nat, unit) outcome \<Rightarrow> (fuse_config \<Rightarrow> (nat, unit) outcome) \<Rightarrow> bool \<Rightarrow> outside \<Rightarrow> bool \<Rightarrow> (nat, unit) outcome \<Rightarrow> bool"
  for create_dir spawn linux env p where
  no_dir: "create_dir = Err e \<Longrightarrow> fuse_mount_ends create_dir spawn linux env p (Err e)"
| no_session: "create_dir = Ok u \<Longrightarrow> spawn (fuse_config_new linux) = Err e \<Longrightarrow>
     fuse_mount_ends create_dir spawn linux env p (Err e)"
| interrupted: "create_dir = Ok u \<Longrightarrow> spawn (fuse_config_new linux) = Ok v \<Longrightarrow> run_until_interrupted env p n m s \<Longrightarrow>
     main_at s = Done r \<Longrightarrow> fuse_mount_ends create_dir spawn linux env p r"

section \<open>Projected file system\<close>

datatype projfs_failure = NotEnabled projfs_error | MountPoint "nat option"

text \<open>What the system answers: to the elevated commands, to loading the library, to the dialog, and to
  what is done with the mount point.\<close>

record projfs_system =
  sys_spawn :: "string \<Rightarrow> string list \<Rightarrow> (nat, nat) outcome"
  sys_loaded :: "(nat, unit) outcome"
  sys_box :: message_box
  sys_remove_dir :: "(nat option, unit) outcome"
  sys_create_dir :: "(nat option, unit) outcome"
  sys_mark :: "guid \<Rightarrow> (nat option, unit) outcome"
  sys_new_guid :: "(nat option, guid) outcome"
  sys_open_file :: "string \<Rightarrow> (nat option, unit) outcome"
  sys_start :: "string \<Rightarrow> (nat option, unit) outcome"

text \<open>The mount point is touched only when the feature is there, and the service started only on a
  mount point that was marked. The files beside mount points are the state.\<close>

definition projfs_set_up ::
  "projfs_system \<Rightarrow> string \<Rightarrow> (string \<times> bytes) list \<Rightarrow> (projfs_failure, unit) outcome \<times> (string \<times> bytes) list" where
  "projfs_set_up sys mountpoint disk =
     (case require_projfs (sys_spawn sys) (sys_loaded sys) (sys_box sys) of
        Err e \<Rightarrow> (Err (NotEnabled e), disk)
      | Panic \<Rightarrow> (Panic, disk)
      | Ok _ \<Rightarrow>
          (case init_mountpoint (sys_remove_dir sys) (sys_create_dir sys) (sys_mark sys) (sys_new_guid sys)
                  (sys_open_file sys) mountpoint disk of
             (mp, disk) \<Rightarrow> (map_err MountPoint (obind mp (sys_start sys)), disk)))"

text \<open>What the main thread gets from the tear-down; the code of an error that has none is left as 0.\<close>

definition projfs_outside ::
  "(nat \<Rightarrow> (nat option, unit) outcome) \<Rightarrow> (nat option, unit) outcome \<Rightarrow> (nat, unit) outcome \<Rightarrow> bool \<Rightarrow> outside" where
  "projfs_outside rm create handler written =
     \<lparr>set_handler_result = handler,
      interrupt_result = (case interrupt rm create of Some r \<Rightarrow> map_err (case_option 0 (\<lambda>c. c)) r | None \<Rightarrow> Panic),
      stdin_written = written\<rparr>"

inductive projfs_mount_ends ::
  "projfs_system \<Rightarrow> string \<Rightarrow> (string \<times> bytes) list \<Rightarrow> (nat \<Rightarrow> (nat option, unit) outcome) \<Rightarrow> (nat option, unit) outcome \<Rightarrow>
     (nat, unit) outcome \<Rightarrow> bool \<Rightarrow> bool \<Rightarrow> (projfs_failure + nat, unit) outcome \<Rightarrow> bool"
  for sys mountpoint disk rm create handler written p where
  not_set_up: "fst (projfs_set_up sys mountpoint disk) = Err e \<Longrightarrow>
     projfs_mount_ends sys mountpoint disk rm create handler written p (Err (Inl e))"
| panicked: "fst (projfs_set_up sys mountpoint disk) = Panic \<Longrightarrow>
     projfs_mount_ends sys mountpoint disk rm create handler written p Panic"
| interrupted: "fst (projfs_set_up sys mountpoint disk) = Ok u \<Longrightarrow>
     run_until_interrupted (projfs_outside rm create handler written) p n m s \<Longrightarrow>
     main_at s = Done r \<Longrightarrow> interrupt rm create \<noteq> None \<or> handler \<noteq> Ok () \<or> written \<Longrightarrow>
     projfs_mount_ends sys mountpoint disk rm create handler written p (map_err Inr r)"

text \<open>Without the feature nothing is touched.\<close>

lemma projfs_set_up_refused:
  "require_projfs (sys_spawn sys) (sys_loaded sys) (sys_box sys) = Err e \<Longrightarrow>
     projfs_set_up sys mountpoint disk = (Err (NotEnabled e), disk)"
  by (simp add: projfs_set_up_def)

section \<open>How a mount ends\<close>

lemma run_result:
  assumes "run_until_interrupted env p n m s" "main_at s = Done r"
    and "set_handler_result env = Ok ()" "\<not> stdin_written env"
  shows "requested n s \<and> r = interrupt_result env"
proof -
  have "threads_ok env n s" using reachable_ok [OF assms(1)] .
  then have "done_ok env s" "poison_ok env s" "start_ok env s" "request_ok n s" by (simp_all add: threads_ok_def)
  then show ?thesis using assms(2-4) by (auto simp: done_ok_def poison_ok_def start_ok_def request_ok_def)
qed

lemma fuse_mount_ends_ok:
  assumes "fuse_mount_ends create_dir spawn linux env p r"
    and "create_dir = Ok ()" "spawn (fuse_config_new linux) = Ok ()" "set_handler_result env = Ok ()" "\<not> stdin_written env"
  shows "r = interrupt_result env"
  using assms(1) by cases (use assms(2-5) run_result in auto)

lemma interrupt_some: "\<not> busy rm k \<Longrightarrow> interrupt rm create = Some (obind (rm (LEAST j. \<not> busy rm j)) (\<lambda>_. create))"
  using interrupt_returns [of rm create] by auto

lemma unmounted_inevitable:
  assumes "run_until_interrupted env p n m s" "requested n s" "set_handler_result env = Ok ()" "\<not> stdin_written env"
  shows "inevitable env (unmounted env) s"
  by (rule shutdown.reaches_goal) (use assms reachable_ok in \<open>auto simp: awaited_def\<close>)

section \<open>Properties\<close>

text \<open>C40: a mount of the projected file system that is asked to end does end: when the signal
  arrived, or the input of a piped mount ended, and some attempt to remove the mount point does not
  find it in use, every execution gets to the end of the main thread, with the result of the first
  such attempt and of creating the directory anew; and it ends with no other result.\<close>

theorem projfs_unmount_inevitable:
  assumes "\<not> busy rm k" "fst (projfs_set_up sys mountpoint disk) = Ok ()"
    and "res = map_err (case_option 0 (\<lambda>c. c)) (obind (rm (LEAST j. \<not> busy rm j)) (\<lambda>_. create))"
  shows "(\<forall>p n m s. run_until_interrupted (projfs_outside rm create (Ok ()) False) p n m s \<longrightarrow> requested n s \<longrightarrow>
      inevitable (projfs_outside rm create (Ok ()) False) (\<lambda>t. main_at t = Done res) s) \<and>
    (\<forall>p r. projfs_mount_ends sys mountpoint disk rm create (Ok ()) False p r \<longrightarrow> r = map_err Inr res)"
proof (intro conjI allI impI)
  let ?env = "projfs_outside rm create (Ok ()) False"
  have env: "set_handler_result ?env = Ok ()" "\<not> stdin_written ?env" "interrupt_result ?env = res"
    by (simp_all add: projfs_outside_def interrupt_some [OF assms(1)] assms(3))
  show "inevitable ?env (\<lambda>t. main_at t = Done res) s" if "run_until_interrupted ?env p n m s" "requested n s" for p n m s
  proof -
    have "unmounted ?env = (\<lambda>t. main_at t = Done res)" by (simp add: unmounted_def env(3) fun_eq_iff)
    then show ?thesis using unmounted_inevitable [OF that env(1,2)] by simp
  qed
  show "r = map_err Inr res" if "projfs_mount_ends sys mountpoint disk rm create (Ok ()) False p r" for p r
    using that
  proof cases
    case (interrupted u n m s r')
    then show ?thesis using run_result [OF interrupted(3,4) env(1,2)] env(3) by simp
  qed (use assms(2) in simp_all)
qed

definition sample_system :: projfs_system where
  "sample_system = \<lparr>sys_spawn = (\<lambda>_ _. Err 1), sys_loaded = Ok (), sys_box = IDOK, sys_remove_dir = Ok (), sys_create_dir = Ok (),
     sys_mark = (\<lambda>_. Ok ()), sys_new_guid = Ok 7, sys_open_file = (\<lambda>_. Ok ()), sys_start = (\<lambda>_. Ok ())\<rparr>"

theorem projfs_unmount_inevitable_witness:
  "inevitable (projfs_outside (\<lambda>j. if j < 2 then Err (Some 32) else Ok ()) (Err (Some 5)) (Ok ()) False)
     (\<lambda>t. main_at t = Done (Err 5)) ((threads_new True 0 0)\<lparr>std_in := Closed\<rparr>)"
proof -
  let ?rm = "\<lambda>j. if j < 2 then Err (Some 32) else Ok () :: (nat option, unit) outcome"
  have idle: "\<not> busy ?rm j \<longleftrightarrow> 2 \<le> j" for j by (auto simp: busy_def in_use_def)
  have least: "(LEAST j. \<not> busy ?rm j) = 2" unfolding idle by (rule Least_equality) simp_all
  have set_up: "fst (projfs_set_up sample_system ''m'' [(guid_path ''m'', replicate 16 0)]) = Ok ()"
    by (simp add: projfs_set_up_def sample_system_def require_projfs_def init_mountpoint_def get_or_create_mount_guid_def map_err_def)
  have res: "Err 5 = map_err (case_option 0 (\<lambda>c. c)) (obind (?rm (LEAST j. \<not> busy ?rm j)) (\<lambda>_. Err (Some 5)))"
    unfolding least by (simp add: map_err_def)
  have "requested 0 ((threads_new True 0 0)\<lparr>std_in := Closed\<rparr>)" by (simp add: requested_def threads_new_def)
  then show ?thesis
    using conjunct1 [OF projfs_unmount_inevitable [where rm = ?rm and create = "Err (Some 5)" and res = "Err 5", OF _ set_up res]] idle [of 2] closed_at_once by blast
qed

end
