(* ===== verification/Program.thy ===== *)
theory Program
  imports Start Lifecycle
begin

text \<open>
  The entry points: \<open>main\<close> of the mount program (\<open>src/main.rs\<close>), from its arguments to the end of
  the mount, and of the front end (\<open>gui/src/main.rs\<close>), which goes to its own directory first.
\<close>

inductive_cases fuse_mount_endsE: "fuse_mount_ends create_dir spawn linux surr p r"

section \<open>The mount program\<close>

datatype program_result = UsageError | StartFailed start_error | StartPanic | Ended "(nat, unit) outcome"

text \<open>The program as it is built for FUSE. \<open>parse\<close> is \<open>Cli::parse\<close>,
  \<open>create_dir\<close> and \<open>spawn\<close> are what the system does with the mount point, \<open>surr\<close> is what surrounds the threads. Its result is what \<open>main\<close> returns; a usage error is
  reported by the parser of the arguments, which exits.\<close>

inductive program_runs ::
  "(string list \<Rightarrow> dvdbnd_args option) \<Rightarrow> 'env machine \<Rightarrow>
     (string \<Rightarrow> (nat, unit) outcome) \<Rightarrow> (mount \<Rightarrow> string \<Rightarrow> fuse_config \<Rightarrow> (nat, unit) outcome) \<Rightarrow> bool \<Rightarrow> outside \<Rightarrow>
     string list \<Rightarrow> program_result \<Rightarrow> bool"
  for parse mach create_dir spawn linux surr argv where
  usage: "parse (tl argv) = None \<Longrightarrow> program_runs parse mach create_dir spawn linux surr argv UsageError"
| failed: "parse (tl argv) = Some args \<Longrightarrow> dvdbnd_mount mach (mount_from_args argv args) (Err e) \<Longrightarrow>
     program_runs parse mach create_dir spawn linux surr argv (StartFailed e)"
| panicked: "parse (tl argv) = Some args \<Longrightarrow> dvdbnd_mount mach (mount_from_args argv args) Panic \<Longrightarrow>
     program_runs parse mach create_dir spawn linux surr argv StartPanic"
| mounted: "parse (tl argv) = Some args \<Longrightarrow> cfg = mount_from_args argv args \<Longrightarrow> dvdbnd_mount mach cfg (Ok m) \<Longrightarrow>
     fuse_mount_ends (create_dir (cfg_mountpoint cfg)) (spawn m (cfg_mountpoint cfg)) linux surr (cfg_piped cfg) r \<Longrightarrow>
     program_runs parse mach create_dir spawn linux surr argv (Ended r)"

inductive_cases program_endedE: "program_runs parse mach create_dir spawn linux surr argv (Ended r)"

text \<open>What the exit of the program says about how it got there.\<close>

lemma program_ended:
  assumes "program_runs parse mach create_dir spawn linux surr argv (Ended r)"
    and "set_handler_result surr = Ok ()" "\<not> stdin_written surr"
  shows "\<exists>args m. parse (tl argv) = Some args \<and> dvdbnd_mount mach (mount_from_args argv args) (Ok m) \<and>
    (create_dir (mountpoint args) = r \<or> spawn m (mountpoint args) (fuse_config_new linux) = r \<or> r = interrupt_result surr)"
  using assms(1)
proof (rule program_endedE)
  fix args m
  assume p: "parse (tl argv) = Some args" and m: "dvdbnd_mount mach (mount_from_args argv args) (Ok m)"
    and e: "fuse_mount_ends (create_dir (cfg_mountpoint (mount_from_args argv args)))
        (spawn m (cfg_mountpoint (mount_from_args argv args))) linux surr (cfg_piped (mount_from_args argv args)) r"
  have mp: "cfg_mountpoint (mount_from_args argv args) = mountpoint args" by (simp add: mount_from_args_def Let_def)
  from e have "create_dir (mountpoint args) = r \<or> spawn m (mountpoint args) (fuse_config_new linux) = r \<or> r = interrupt_result surr"
    unfolding mp by (rule fuse_mount_endsE) (use assms(2,3) run_result in auto)
  then show ?thesis using p m by blast
qed

section \<open>The front end\<close>

datatype cwd_error = NoArgv0 | NoParent | CwdIo nat

definition set_app_dir_as_cwd ::
  "(string \<Rightarrow> (nat, string) outcome) \<Rightarrow> (string \<Rightarrow> (nat, unit) outcome) \<Rightarrow> string list \<Rightarrow> (cwd_error, unit) outcome" where
  "set_app_dir_as_cwd normal_path chdir argv =
     (case argv of
        [] \<Rightarrow> Err NoArgv0
      | arg # _ \<Rightarrow>
          obind (map_err CwdIo (normal_path arg)) (\<lambda>app_path.
            case path_parent app_path of
              None \<Rightarrow> Err NoParent
            | Some parent \<Rightarrow> map_err CwdIo (chdir parent)))"

definition run_app ::
  "(cwd_error, unit) outcome \<Rightarrow> (cwd_error, 'w) outcome \<Rightarrow> ('w \<Rightarrow> (cwd_error, unit) outcome) \<Rightarrow> (cwd_error, unit) outcome" where
  "run_app cwd app_new run = obind cwd (\<lambda>_. obind app_new run)"

text \<open>The program that the window starts as \<open>./fsvfs\<close> finds its keys and dictionaries beside itself.\<close>

lemma started_beside: "app_dir [''./fsvfs''] = ''.''"
  by code_simp

end
