(* ===== verification/Gui.thy ===== *)
theory Gui
  imports Start "HOL-Library.Product_Lexorder"
begin

text \<open>
  The graphical front end (\<open>gui/src\<close>): the state of the window and its handlers (\<open>app.rs\<close>), the
  saved configuration (\<open>context.rs\<close>), the games found on the machine (\<open>steam.rs\<close>) and the command
  line that is run. The toolkit, dialogs and \<open>steamlocate\<close> are parameters: what a dialog returns,
  which files exist, what a library holds. A handler that awaits is split where it does, because
  other handlers run in between; results that arrive unordered come in any order.
\<close>

record bhd_check =
  bc_name :: string
  bc_parent_dir :: string
  bc_checked :: bool

record game_dirs =
  gd_dirs :: "string list"
  gd_active_index :: i32

record game_info =
  gi_app_id :: u32
  gi_name :: string
  gi_bhds :: "string list"

record window =
  w_mount_point :: string
  w_keys_path :: string
  w_dict_path :: string
  w_cache_path :: string
  w_use_cache :: bool
  w_game_dirs :: game_dirs
  w_current_game_dir :: string
  w_game_name :: string
  w_bhds :: "bhd_check list"
  w_mount_enabled :: bool

definition GAME_DIR_PLACEHOLDER :: string where
  "GAME_DIR_PLACEHOLDER = ''(Select a game directory or browse)''"

definition GAME_DIR_CUSTOM :: string where
  "GAME_DIR_CUSTOM = ''(Custom selection)''"

section \<open>The games found\<close>

text \<open>Paths are compared by their components: a root, the current directory in front, parents and
  names, in this order.\<close>

datatype path_component = RootDir | CurDir | ParentDir | Normal string

fun component_rank :: "path_component \<Rightarrow> nat \<times> string" where
  "component_rank RootDir = (0, [])"
| "component_rank CurDir = (1, [])"
| "component_rank ParentDir = (2, [])"
| "component_rank (Normal c) = (3, c)"

lemma component_rank_inj [simp]: "component_rank a = component_rank b \<longleftrightarrow> a = b"
  by (cases a; cases b) simp_all

instantiation path_component :: linorder
begin

definition less_eq_path_component :: "path_component \<Rightarrow> path_component \<Rightarrow> bool" where
  "less_eq_path_component a b \<longleftrightarrow> component_rank a \<le> component_rank b"

definition less_path_component :: "path_component \<Rightarrow> path_component \<Rightarrow> bool" where
  "less_path_component a b \<longleftrightarrow> component_rank a < component_rank b"

instance
proof
  fix a b c :: path_component
  show "(a < b) = (a \<le> b \<and> \<not> b \<le> a)" by (simp add: less_path_component_def less_eq_path_component_def less_le_not_le)
  show "a \<le> a" by (simp add: less_eq_path_component_def)
  show "a \<le> b \<Longrightarrow> b \<le> c \<Longrightarrow> a \<le> c" unfolding less_eq_path_component_def by (rule order_trans)
  show "a \<le> b \<Longrightarrow> b \<le> a \<Longrightarrow> a = b" unfolding less_eq_path_component_def by (simp add: order_antisym flip: component_rank_inj)
  show "a \<le> b \<or> b \<le> a" unfolding less_eq_path_component_def by (rule linear)
qed

end

definition path_key :: "string \<Rightarrow> path_component list" where
  "path_key p =
     (if take 1 p = ''/'' then [RootDir] else if p = ''.'' \<or> take 2 p = ''./'' then [CurDir] else []) @
     map (\<lambda>c. if c = ''..'' then ParentDir else Normal c) (filter (\<lambda>c. c \<noteq> [] \<and> c \<noteq> ''.'') (split_on ''/'' p))"

text \<open>A map ordered by path; inserting an existing path keeps its key.\<close>

type_synonym located = "(string \<times> game_info) list"

fun btree_insert :: "string \<Rightarrow> 'v \<Rightarrow> (string \<times> 'v) list \<Rightarrow> (string \<times> 'v) list" where
  "btree_insert p v [] = [(p, v)]"
| "btree_insert p v ((q, w) # m) =
     (if path_key p < path_key q then (p, v) # (q, w) # m
      else if path_key p = path_key q then (q, v) # m
      else (q, w) # btree_insert p v m)"

definition btree_get :: "string \<Rightarrow> (string \<times> 'v) list \<Rightarrow> 'v option" where
  "btree_get p m = map_option snd (find (\<lambda>(q, _). path_key q = path_key p) m)"

text \<open>The games of a configuration in the libraries of a Steam directory: every pair of a game and
  a library that has it, in the order of the answers.\<close>

definition library_games :: "(string \<Rightarrow> u32 \<Rightarrow> string option) \<Rightarrow> game_info list \<Rightarrow> string list \<Rightarrow> (string \<times> game_info) list" where
  "library_games find_app config libs =
     concat (map (\<lambda>g. List.map_filter (\<lambda>lib. map_option (\<lambda>dir. (dir, g)) (find_app lib (gi_app_id g))) libs) config)"

inductive locate_games :: "(string \<Rightarrow> u32 \<Rightarrow> string option) \<Rightarrow> game_info list \<Rightarrow> string list list \<Rightarrow> located \<Rightarrow> bool"
  for find_app config where
  no_dirs: "locate_games find_app config [] []"
| steam_dir: "locate_games find_app config dirs games \<Longrightarrow> mset found = mset (library_games find_app config libs) \<Longrightarrow>
     locate_games find_app config (dirs @ [libs]) (fold (\<lambda>(p, g). btree_insert p g) found games)"

text \<open>What the program asks of the map: its contents are those of the last insertion of a path.\<close>

locale path_map =
  fixes find_path :: "string \<Rightarrow> 'm \<Rightarrow> 'v option" and add_path :: "string \<Rightarrow> 'v \<Rightarrow> 'm \<Rightarrow> 'm" and ordered :: "'m \<Rightarrow> bool"
  assumes add_ordered: "ordered m \<Longrightarrow> ordered (add_path p v m)"
    and find_added: "ordered m \<Longrightarrow> path_key q = path_key p \<Longrightarrow> find_path q (add_path p v m) = Some v"
    and find_other: "ordered m \<Longrightarrow> path_key q \<noteq> path_key p \<Longrightarrow> find_path q (add_path p v m) = find_path q m"
begin

lemma fold_ordered: "ordered m \<Longrightarrow> ordered (fold (\<lambda>(p, v). add_path p v) xs m)"
  by (induction xs arbitrary: m) (auto intro: add_ordered)

lemma find_fold:
  "ordered m \<Longrightarrow> find_path q (fold (\<lambda>(p, v). add_path p v) xs m) =
     (case filter (\<lambda>x. path_key (fst x) = path_key q) xs of [] \<Rightarrow> find_path q m | ys \<Rightarrow> Some (snd (last ys)))"
proof (induction xs arbitrary: m)
  case (Cons x xs)
  obtain p v where x: "x = (p, v)" by (cases x)
  show ?case
    using Cons.IH [of "add_path p v m"] Cons.prems add_ordered find_added [of m q p v] find_other [of m q p v]
    by (auto simp: x split: list.split)
qed simp

end

definition btree_ordered :: "(string \<times> 'v) list \<Rightarrow> bool" where
  "btree_ordered m \<longleftrightarrow> sorted_wrt (<) (map (path_key \<circ> fst) m)"

lemma btree_insert_keys:
  "set (map (path_key \<circ> fst) (btree_insert p v m)) = insert (path_key p) (set (map (path_key \<circ> fst) m))"
proof (induction m)
  case (Cons x m)
  obtain q w where x: "x = (q, w)" by (cases x)
  show ?case using Cons by (simp add: x insert_commute)
qed simp

lemma btree_insert_ordered: "btree_ordered m \<Longrightarrow> btree_ordered (btree_insert p v m)"
proof (induction m)
  case (Cons x m)
  obtain q w where x: "x = (q, w)" by (cases x)
  have IH: "btree_ordered (btree_insert p v m)" using Cons by (simp add: btree_ordered_def)
  show ?case
  proof (cases "path_key p < path_key q \<or> path_key p = path_key q")
    case True
    then show ?thesis using Cons.prems by (auto simp: x btree_ordered_def dest: less_trans)
  next
    case False
    then have "path_key q < path_key p" by auto
    then have "\<forall>k \<in> set (map (path_key \<circ> fst) (btree_insert p v m)). path_key q < k"
      using Cons.prems unfolding btree_insert_keys by (auto simp: x btree_ordered_def)
    then show ?thesis using False IH by (auto simp: x btree_ordered_def)
  qed
qed (simp add: btree_ordered_def)

lemma btree_get_Cons: "btree_get p ((q, w) # m) = (if path_key q = path_key p then Some w else btree_get p m)"
  by (simp add: btree_get_def)

lemma btree_get_insert:
  "btree_ordered m \<Longrightarrow> btree_get q (btree_insert p v m) = (if path_key q = path_key p then Some v else btree_get q m)"
proof (induction m)
  case (Cons x m)
  obtain r w where x: "x = (r, w)" by (cases x)
  have "btree_ordered m" using Cons.prems by (simp add: btree_ordered_def)
  then show ?case using Cons.IH by (auto simp: x btree_get_Cons)
qed (simp add: btree_get_def)

interpretation btree: path_map btree_get btree_insert btree_ordered
  by unfold_locales (auto simp: btree_insert_ordered btree_get_insert)

text \<open>Every directory that is listed is found again.\<close>

lemma locate_games_ordered: "locate_games find_app config dirs games \<Longrightarrow> btree_ordered games"
  by (induction rule: locate_games.induct) (auto simp: btree.fold_ordered, simp add: btree_ordered_def)

lemma listed_found: "d \<in> set (map fst games) \<Longrightarrow> \<exists>g. btree_get d games = Some g"
proof (induction games)
  case (Cons x games)
  then show ?case by (cases x) (force simp: btree_get_Cons)
qed simp

section \<open>The list of archives\<close>

fun decimal :: "nat \<Rightarrow> string" where
  "decimal n = (if n < 10 then [char_of (48 + n)] else decimal (n div 10) @ [char_of (48 + n mod 10)])"

declare decimal.simps [simp del]

definition header_name :: "nat \<Rightarrow> string" where
  "header_name n = ''<'' @ decimal n @ '' BHDs>''"

definition is_header :: "string \<Rightarrow> bool" where
  "is_header s \<longleftrightarrow> take 1 s = ''<'' \<and> take 6 (rev s) = rev '' BHDs>''"

definition default_check :: bhd_check where
  "default_check = \<lparr>bc_name = [], bc_parent_dir = [], bc_checked = False\<rparr>"

text \<open>\<open>dedup_by_key\<close>: of consecutive rows with the same name the first stays.\<close>

fun dedup_by_name :: "bhd_check list \<Rightarrow> bhd_check list" where
  "dedup_by_name (x # y # xs) =
     (if bc_name x = bc_name y then dedup_by_name (x # xs) else x # dedup_by_name (y # xs))"
| "dedup_by_name xs = xs"

definition set_bhds_with_first :: "bhd_check list \<Rightarrow> bool \<Rightarrow> window \<Rightarrow> window" where
  "set_bhds_with_first rows dedup w =
     (let rows = (case rows of
                    [] \<Rightarrow> [default_check]
                  | first # _ \<Rightarrow> if is_header (bc_name first) then rows else default_check # rows);
          rows = (if dedup then dedup_by_name (hd rows # sort_key bc_name (tl rows)) else rows);
          first = \<lparr>bc_name = header_name (length rows - 1), bc_parent_dir = [],
                   bc_checked = list_all bc_checked (tl rows)\<rparr>
      in w\<lparr>w_bhds := first # tl rows\<rparr>)"

text \<open>The handler behind the check boxes, after the toolkit flipped the one of row \<open>i\<close>.\<close>

definition on_bhd_checked :: "nat \<Rightarrow> window \<Rightarrow> window" where
  "on_bhd_checked i w =
     (case w_bhds w of
        [] \<Rightarrow> w
      | first # rows \<Rightarrow>
          if i = 0 then w\<lparr>w_bhds := first # map (\<lambda>b. b\<lparr>bc_checked := bc_checked first\<rparr>) rows\<rparr>
          else w\<lparr>w_bhds := first\<lparr>bc_checked := list_all bc_checked rows\<rparr> # rows\<rparr>)"

section \<open>Selecting a game\<close>

text \<open>Up to the wait: either done, or the directory, the archives of its game and the check marks to
  keep.\<close>

datatype selection = Selected window | Pending window string "string list" "(string \<times> bool) list" | NotListed

definition select_start :: "located \<Rightarrow> window \<Rightarrow> selection" where
  "select_start games w =
     (let game_dir = w_current_game_dir w
      in if game_dir = GAME_DIR_PLACEHOLDER then Selected w
         else if game_dir = GAME_DIR_CUSTOM then Selected ((set_bhds_with_first [] False w)\<lparr>w_game_name := []\<rparr>)
         else case btree_get game_dir games of
                None \<Rightarrow> NotListed
              | Some g \<Rightarrow>
                  Pending (w\<lparr>w_game_name := gi_name g\<rparr>) game_dir (gi_bhds g)
                    (case w_bhds w of
                       [] \<Rightarrow> []
                     | first # _ \<Rightarrow>
                         if bc_parent_dir first = game_dir
                         then map_extend [] (map (\<lambda>b. (bc_name b, bc_checked b)) (w_bhds w)) else []))"

definition bhd_exists :: "(string \<Rightarrow> bool) \<Rightarrow> string \<Rightarrow> string \<Rightarrow> bool" where
  "bhd_exists exists_at game_dir bhd \<longleftrightarrow>
     (let bhd_path = path_join game_dir bhd in exists_at bhd_path \<and> exists_at (with_extension ''bdt'' bhd_path))"

definition found_row :: "string \<Rightarrow> (string \<times> bool) list \<Rightarrow> string \<Rightarrow> bhd_check" where
  "found_row game_dir marks bhd =
     \<lparr>bc_name = bhd, bc_parent_dir = game_dir,
      bc_checked = (case map_of marks bhd of Some c \<Rightarrow> c | None \<Rightarrow> marks = [])\<rparr>"

text \<open>After the wait, on the window as it is then; the rows come in the order of the answers.\<close>

inductive select_finish :: "(string \<Rightarrow> bool) \<Rightarrow> string \<Rightarrow> string list \<Rightarrow> (string \<times> bool) list \<Rightarrow> window \<Rightarrow> window \<Rightarrow> bool"
  for exists_at game_dir files marks where
  "mset rows = mset (map (found_row game_dir marks) (filter (bhd_exists exists_at game_dir) files)) \<Longrightarrow>
     select_finish exists_at game_dir files marks w (set_bhds_with_first rows False w)"

text \<open>Without anything in between.\<close>

inductive select_game_dir :: "(string \<Rightarrow> bool) \<Rightarrow> located \<Rightarrow> window \<Rightarrow> window \<Rightarrow> bool" for exists_at games w where
  at_once: "select_start games w = Selected w' \<Longrightarrow> select_game_dir exists_at games w w'"
| later: "select_start games w = Pending w1 game_dir files marks \<Longrightarrow> select_finish exists_at game_dir files marks w1 w' \<Longrightarrow>
     select_game_dir exists_at games w w'"

inductive_cases select_finishE: "select_finish exists_at game_dir files marks w w'"
inductive_cases select_game_dirE: "select_game_dir exists_at games w w'"

section \<open>Browsing for archives\<close>

text \<open>\<open>browse_game_dir\<close> with the paths the dialog returned; nothing happens when it is cancelled.\<close>

definition active_is_last :: "game_dirs \<Rightarrow> bool" where
  "active_is_last gd \<longleftrightarrow>
     (let row_count = length (gd_dirs gd)
      in row_count \<noteq> 0 \<and> max (sint (gd_active_index gd)) 0 = int (row_count - 1) \<and>
         gd_dirs gd ! (row_count - 1) = GAME_DIR_CUSTOM)"

definition browse_game_dir :: "string list option \<Rightarrow> window \<Rightarrow> window" where
  "browse_game_dir picked w =
     (case picked of
        None \<Rightarrow> w
      | Some paths \<Rightarrow>
          let (rows, w) =
            (if w_current_game_dir w = GAME_DIR_CUSTOM then (w_bhds w, w)
             else let gd = w_game_dirs w;
                      w = (if active_is_last gd then w
                           else w\<lparr>w_game_dirs := \<lparr>gd_dirs = gd_dirs gd @ [GAME_DIR_CUSTOM],
                                                  gd_active_index = of_nat (length (gd_dirs gd))\<rparr>\<rparr>)
                  in ([], w\<lparr>w_current_game_dir := GAME_DIR_CUSTOM, w_game_name := []\<rparr>))
          in set_bhds_with_first
               (rows @ map (\<lambda>p. \<lparr>bc_name = p, bc_parent_dir = [], bc_checked = True\<rparr>) paths) True w)"

section \<open>The saved configuration\<close>

record app_context =
  ac_mount_point :: string
  ac_keys_path :: string
  ac_dict_path :: string
  ac_cache_path :: string
  ac_use_cache :: bool
  ac_game_dirs :: "string list"
  ac_game_dir_index :: u32
  ac_current_game_dir :: string
  ac_game_name :: string
  ac_bhds :: "bhd_check list"

definition max0 :: "i32 \<Rightarrow> i32" where
  "max0 i = (if sint i < 0 then 0 else i)"

definition get_context :: "window \<Rightarrow> app_context" where
  "get_context w =
     \<lparr>ac_mount_point = w_mount_point w, ac_keys_path = w_keys_path w, ac_dict_path = w_dict_path w,
      ac_cache_path = w_cache_path w, ac_use_cache = w_use_cache w, ac_game_dirs = gd_dirs (w_game_dirs w),
      ac_game_dir_index = max0 (gd_active_index (w_game_dirs w)), ac_current_game_dir = w_current_game_dir w,
      ac_game_name = w_game_name w, ac_bhds = w_bhds w\<rparr>"

definition set_context :: "app_context \<Rightarrow> window \<Rightarrow> window" where
  "set_context c w =
     w\<lparr>w_mount_point := ac_mount_point c, w_keys_path := ac_keys_path c, w_dict_path := ac_dict_path c,
       w_cache_path := ac_cache_path c, w_use_cache := ac_use_cache c,
       w_game_dirs := \<lparr>gd_dirs = ac_game_dirs c, gd_active_index = max0 (ac_game_dir_index c)\<rparr>,
       w_current_game_dir := ac_current_game_dir c, w_game_name := ac_game_name c, w_bhds := ac_bhds c\<rparr>"

text \<open>\<open>update_bhds\<close> after the games were located: the list of directories, the active one, and the
  selection of it.\<close>

definition update_dirs :: "located \<Rightarrow> window \<Rightarrow> window" where
  "update_dirs games w =
     (let game_dir = w_current_game_dir w;
          dirs = map fst games @ (if game_dir = GAME_DIR_CUSTOM then [game_dir] else []);
          before = takeWhile (\<lambda>d. d \<noteq> game_dir) dirs;
          active_index = (if length before < length dirs then length before else 0);
          w = w\<lparr>w_game_dirs := \<lparr>gd_dirs = dirs, gd_active_index = of_nat active_index\<rparr>\<rparr>
      in if active_index < length dirs then w\<lparr>w_current_game_dir := dirs ! active_index\<rparr> else w)"

inductive update_bhds :: "(string \<Rightarrow> bool) \<Rightarrow> located \<Rightarrow> window \<Rightarrow> window \<Rightarrow> bool" for exists_at games w where
  custom: "w_current_game_dir w = GAME_DIR_CUSTOM \<Longrightarrow> update_bhds exists_at games w (update_dirs games w)"
| listed: "w_current_game_dir w \<noteq> GAME_DIR_CUSTOM \<Longrightarrow> select_game_dir exists_at games (update_dirs games w) w' \<Longrightarrow>
     update_bhds exists_at games w w'"

inductive_cases update_bhdsE: "update_bhds exists_at games w w'"

text \<open>\<open>App::new\<close> and \<open>open\<close>: a context is set and the games are located anew.\<close>

definition window_default :: window where
  "window_default = \<lparr>w_mount_point = [], w_keys_path = [], w_dict_path = [], w_cache_path = [], w_use_cache = False,
     w_game_dirs = \<lparr>gd_dirs = [], gd_active_index = 0\<rparr>, w_current_game_dir = [], w_game_name = [], w_bhds = [],
     w_mount_enabled = True\<rparr>"

definition start_context :: app_context where
  "start_context = \<lparr>ac_mount_point = [], ac_keys_path = [], ac_dict_path = [], ac_cache_path = [], ac_use_cache = True,
     ac_game_dirs = [], ac_game_dir_index = 0, ac_current_game_dir = GAME_DIR_PLACEHOLDER, ac_game_name = [], ac_bhds = []\<rparr>"

definition open_context :: "(string \<Rightarrow> bool) \<Rightarrow> located \<Rightarrow> app_context \<Rightarrow> window \<Rightarrow> window \<Rightarrow> bool" where
  "open_context exists_at games c w w' \<longleftrightarrow> update_bhds exists_at games (set_context c w) w'"

definition app_new :: "(string \<Rightarrow> bool) \<Rightarrow> located \<Rightarrow> window \<Rightarrow> bool" where
  "app_new exists_at games w' \<longleftrightarrow> open_context exists_at games start_context window_default w'"

section \<open>Mounting\<close>

datatype gui_error = NoGameDir | NoMountPoint | MountPointMissing nat | MountPointNotEmpty
  | KeysDir | DictDir | CacheDir | NothingChecked | BhdMissing

definition check_is_dir :: "(string \<Rightarrow> bool) \<Rightarrow> string \<Rightarrow> gui_error \<Rightarrow> (gui_error, unit) outcome" where
  "check_is_dir dir_ok dir e = (if dir \<noteq> [] \<and> \<not> dir_ok dir then Err e else Ok ())"

text \<open>\<open>list_dir\<close> is whether the directory could be read and has an entry. The three checks are joined;
  here the first error is the one reported.\<close>

definition check :: "(string \<Rightarrow> (nat, bool) outcome) \<Rightarrow> (string \<Rightarrow> bool) \<Rightarrow> app_context \<Rightarrow> (gui_error, app_context) outcome" where
  "check list_dir dir_ok c =
     (if ac_current_game_dir c = GAME_DIR_PLACEHOLDER then Err NoGameDir
      else if ac_mount_point c = [] then Err NoMountPoint
      else obind (map_err MountPointMissing (list_dir (ac_mount_point c))) (\<lambda>has_entry.
             if has_entry then Err MountPointNotEmpty
             else obind (check_is_dir dir_ok (ac_keys_path c) KeysDir) (\<lambda>_.
                  obind (check_is_dir dir_ok (ac_dict_path c) DictDir) (\<lambda>_.
                  obind (if ac_use_cache c then check_is_dir dir_ok (ac_cache_path c) CacheDir else Ok ()) (\<lambda>_.
                    Ok c)))))"

definition bhd_paths :: "(string \<Rightarrow> bool) \<Rightarrow> app_context \<Rightarrow> (gui_error, string list) outcome" where
  "bhd_paths exists_at c =
     (let paths = map (\<lambda>b. if ac_current_game_dir c = GAME_DIR_CUSTOM then bc_name b
                            else ac_current_game_dir c @ ''/'' @ bc_name b)
                    (filter bc_checked (drop 1 (ac_bhds c)))
      in if paths = [] then Err NothingChecked
         else if list_ex (\<lambda>p. \<not> exists_at p) paths then Err BhdMissing
         else Ok paths)"

definition app_args :: "app_context \<Rightarrow> string list" where
  "app_args c =
     [''dvdbnd'', ''-m'', ac_mount_point c] @
     (if ac_keys_path c \<noteq> [] then [''-k'', ac_keys_path c] else []) @
     (if ac_dict_path c \<noteq> [] then [''-d'', ac_dict_path c] else []) @
     (if ac_use_cache c then (if ac_cache_path c \<noteq> [] then [''-c'', ac_cache_path c] else []) else [''--no-cache'']) @
     (if ac_game_name c \<noteq> [] then [''-g'', ac_game_name c] else [])"

text \<open>The arguments of the command that \<open>mount\<close> spawns.\<close>

definition mount_command ::
  "(string \<Rightarrow> (nat, bool) outcome) \<Rightarrow> (string \<Rightarrow> bool) \<Rightarrow> (string \<Rightarrow> bool) \<Rightarrow> window \<Rightarrow> (gui_error, string list) outcome" where
  "mount_command list_dir dir_ok exists_at w =
     obind (check list_dir dir_ok (get_context w)) (\<lambda>c.
     obind (bhd_paths exists_at c) (\<lambda>paths.
       Ok (app_args c @ [''--piped''] @ paths)))"

text \<open>The files a cleared cache loses.\<close>

definition clear_cache :: "(string \<Rightarrow> string list) \<Rightarrow> window \<Rightarrow> string list" where
  "clear_cache list_names w =
     (let path = (if w_cache_path w = [] then ''cache'' else w_cache_path w)
      in map (path_join path) (filter (\<lambda>name. path_extension name = Some ''mdb'') (list_names path)))"

section \<open>The window as a state machine\<close>

text \<open>The first row counts the others and is checked when all of them are.\<close>

definition header_ok :: "bhd_check list \<Rightarrow> bool" where
  "header_ok rows \<longleftrightarrow> rows \<noteq> [] \<and> bc_name (hd rows) = header_name (length rows - 1) \<and> bc_parent_dir (hd rows) = [] \<and>
     (tl rows \<noteq> [] \<longrightarrow> bc_checked (hd rows) = list_all bc_checked (tl rows))"

text \<open>The state between events: the window, the games located, the selections that still wait for their
  answers, and the configurations in the user's files, by their paths, as the serializer reads them.
  An opened configuration is set as it is, without a check, and the games are located anew by a later
  event. A configuration that is saved is what opening its file gives, until it is saved again.\<close>

type_synonym task = "string \<times> string list \<times> (string \<times> bool) list"

record gui =
  g_window :: window
  g_games :: located
  g_tasks :: "task list"
  g_disk :: "(string \<times> app_context) list"

definition toggle :: "nat \<Rightarrow> window \<Rightarrow> window" where
  "toggle i w = on_bhd_checked i (w\<lparr>w_bhds := (w_bhds w)[i := (w_bhds w ! i)\<lparr>bc_checked := \<not> bc_checked (w_bhds w ! i)\<rparr>]\<rparr>)"

definition choose_dir :: "nat \<Rightarrow> window \<Rightarrow> window" where
  "choose_dir i w = w\<lparr>w_game_dirs := (w_game_dirs w)\<lparr>gd_active_index := of_nat i\<rparr>, w_current_game_dir := gd_dirs (w_game_dirs w) ! i\<rparr>"

definition start_select :: "window \<Rightarrow> gui \<Rightarrow> gui" where
  "start_select w s =
     (case select_start (g_games s) w of
        Selected w' \<Rightarrow> s\<lparr>g_window := w'\<rparr>
      | NotListed \<Rightarrow> s\<lparr>g_window := w\<rparr>
      | Pending w1 game_dir files marks \<Rightarrow> s\<lparr>g_window := w1, g_tasks := (game_dir, files, marks) # g_tasks s\<rparr>)"

inductive gui_step :: "(string \<Rightarrow> bool) \<Rightarrow> gui \<Rightarrow> gui \<Rightarrow> bool" for exists_at where
  toggled: "i < length (w_bhds (g_window s)) \<Longrightarrow> gui_step exists_at s (s\<lparr>g_window := toggle i (g_window s)\<rparr>)"
| selected: "i < length (gd_dirs (w_game_dirs (g_window s))) \<Longrightarrow>
     gui_step exists_at s (start_select (choose_dir i (g_window s)) s)"
| answered: "(game_dir, files, marks) \<in> set (g_tasks s) \<Longrightarrow>
     select_finish exists_at game_dir files marks (g_window s) w' \<Longrightarrow>
     gui_step exists_at s (s\<lparr>g_window := w', g_tasks := remove1 (game_dir, files, marks) (g_tasks s)\<rparr>)"
| browsed: "gui_step exists_at s (s\<lparr>g_window := browse_game_dir picked (g_window s)\<rparr>)"
| saved: "gui_step exists_at s (s\<lparr>g_disk := AList.update path (get_context (g_window s)) (g_disk s)\<rparr>)"
| opened: "map_of (g_disk s) path = Some c \<Longrightarrow>
     gui_step exists_at s (s\<lparr>g_window := set_context c (g_window s)\<rparr>)"
| located: "w_current_game_dir (g_window s) \<noteq> GAME_DIR_CUSTOM \<Longrightarrow>
     gui_step exists_at s (start_select (update_dirs games (g_window s)) (s\<lparr>g_games := games\<rparr>))"
| located_custom: "w_current_game_dir (g_window s) = GAME_DIR_CUSTOM \<Longrightarrow>
     gui_step exists_at s (s\<lparr>g_games := games, g_window := update_dirs games (g_window s)\<rparr>)"

definition gui_new :: "(string \<times> app_context) list \<Rightarrow> gui" where
  "gui_new disk = \<lparr>g_window = set_context start_context window_default, g_games = [], g_tasks = [], g_disk = disk\<rparr>"

definition gui_run :: "(string \<Rightarrow> bool) \<Rightarrow> (string \<times> app_context) list \<Rightarrow> gui \<Rightarrow> bool" where
  "gui_run exists_at disk s \<longleftrightarrow> (gui_step exists_at)\<^sup>*\<^sup>* (gui_new disk) s"

section \<open>The header row\<close>

lemma set_bhds_header [simp]: "header_ok (w_bhds (set_bhds_with_first rows dd w))"
  by (simp add: set_bhds_with_first_def header_ok_def Let_def)

lemma set_bhds_other [simp]:
  "w_current_game_dir (set_bhds_with_first rows dd w) = w_current_game_dir w"
  "w_game_dirs (set_bhds_with_first rows dd w) = w_game_dirs w"
  "w_game_name (set_bhds_with_first rows dd w) = w_game_name w"
  by (simp_all add: set_bhds_with_first_def Let_def)

lemma toggle_header: "header_ok (w_bhds w) \<Longrightarrow> i < length (w_bhds w) \<Longrightarrow> header_ok (w_bhds (toggle i w))"
proof (cases "w_bhds w")
  case (Cons first rows)
  assume a: "header_ok (w_bhds w)" "i < length (w_bhds w)"
  show ?thesis
  proof (cases i)
    case 0
    then show ?thesis using a Cons by (auto simp: toggle_def on_bhd_checked_def header_ok_def list_all_iff neq_Nil_conv)
  next
    case (Suc j)
    then show ?thesis using a Cons by (simp add: toggle_def on_bhd_checked_def header_ok_def)
  qed
qed simp

lemma browse_header: "w_bhds w = [] \<or> header_ok (w_bhds w) \<Longrightarrow>
    w_bhds (browse_game_dir picked w) = [] \<or> header_ok (w_bhds (browse_game_dir picked w))"
  by (auto simp: browse_game_dir_def Let_def split: option.split)

lemma start_select_header:
  "w_bhds w = [] \<or> header_ok (w_bhds w) \<Longrightarrow>
     w_bhds (g_window (start_select w s)) = [] \<or> header_ok (w_bhds (g_window (start_select w s)))"
  by (auto simp: start_select_def select_start_def Let_def split: option.splits if_splits selection.splits)

lemma other_fields [simp]:
  "w_bhds (choose_dir i w) = w_bhds w" "w_bhds (update_dirs games w) = w_bhds w"
  by (simp_all add: choose_dir_def update_dirs_def Let_def)

definition rows_ok :: "bhd_check list \<Rightarrow> bool" where
  "rows_ok rows \<longleftrightarrow> rows = [] \<or> header_ok rows"

definition disk_ok :: "(string \<times> app_context) list \<Rightarrow> bool" where
  "disk_ok disk \<longleftrightarrow> (\<forall>path c. map_of disk path = Some c \<longrightarrow> rows_ok (ac_bhds c))"

lemma disk_saved: "disk_ok disk \<Longrightarrow> rows_ok (w_bhds w) \<Longrightarrow> disk_ok (AList.update path (get_context w) disk)"
  by (auto simp: disk_ok_def update_conv' get_context_def)

lemma start_select_disk [simp]: "g_disk (start_select w s) = g_disk s"
  by (simp add: start_select_def split: selection.split)

text \<open>A step keeps the rows consistent, in the window and in the files; only opening brings rows from a
  file into the window.\<close>

lemma gui_step_header:
  assumes "gui_step exists_at s s'" "rows_ok (w_bhds (g_window s)) \<and> disk_ok (g_disk s)"
  shows "rows_ok (w_bhds (g_window s')) \<and> disk_ok (g_disk s')"
  using assms
proof cases
  case (opened path c)
  then show ?thesis using assms(2) unfolding disk_ok_def by (simp add: set_context_def)
next
  case (answered game_dir files marks w')
  then show ?thesis using assms(2) by (auto simp: rows_ok_def elim: select_finishE)
qed (use assms(2) in \<open>auto simp: rows_ok_def toggle_header browse_header start_select_header disk_saved\<close>)

lemma gui_run_header:
  assumes "gui_run exists_at disk s" "disk_ok disk"
  shows "rows_ok (w_bhds (g_window s)) \<and> disk_ok (g_disk s)"
  using assms(1) unfolding gui_run_def
proof (induction rule: rtranclp_induct)
  case base
  then show ?case using assms(2) by (simp add: gui_new_def set_context_def start_context_def rows_ok_def)
qed (rule gui_step_header)

text \<open>Whatever the window shows, the next answer and the next browsed archive make the rows consistent.\<close>

lemma answer_header: "select_finish exists_at game_dir files marks w w' \<Longrightarrow> header_ok (w_bhds w')"
  by (auto elim: select_finishE)

lemma browsed_header: "header_ok (w_bhds (browse_game_dir (Some paths) w))"
  by (simp add: browse_game_dir_def Let_def)

section \<open>Browsing adds to a selection\<close>

definition mark :: "bhd_check \<Rightarrow> string \<times> bool" where
  "mark b = (bc_name b, bc_checked b)"

lemma map_of_mark: "map_of (map mark xs) k = (case filter (\<lambda>b. bc_name b = k) xs of [] \<Rightarrow> None | b # _ \<Rightarrow> Some (bc_checked b))"
  by (induction xs) (auto simp: mark_def)

lemma map_of_mark_sort: "map_of (map mark (sort_key bc_name xs)) = map_of (map mark xs)"
  by (rule ext) (simp add: map_of_mark sort_key_stable)

lemma dedup_marks: "map_of (map mark (dedup_by_name xs)) = map_of (map mark xs)"
  by (induction xs rule: dedup_by_name.induct) (auto simp: mark_def)

lemma dedup_names: "set (map bc_name (dedup_by_name xs)) = set (map bc_name xs)"
  by (induction xs rule: dedup_by_name.induct) auto

lemma dedup_sorted: "sorted (map bc_name xs) \<Longrightarrow> sorted_wrt (<) (map bc_name (dedup_by_name xs))"
proof (induction xs rule: dedup_by_name.induct)
  case (1 x y xs)
  show ?case
  proof (cases "bc_name x = bc_name y")
    case True
    then show ?thesis using 1 by simp
  next
    case False
    have "bc_name x < z" if "z \<in> set (map bc_name (dedup_by_name (y # xs)))" for z
    proof -
      have "z \<in> set (map bc_name (y # xs))" using that by (simp only: dedup_names)
      then have "bc_name y \<le> z" using 1(3) by auto
      moreover have "bc_name x < bc_name y" using 1(3) False by (simp add: less_le)
      ultimately show ?thesis by (rule less_le_trans [rotated])
    qed
    then show ?thesis using False 1 by simp
  qed
qed auto

lemma dedup_header: "bc_name h \<notin> bc_name ` set xs \<Longrightarrow> dedup_by_name (h # xs) = h # dedup_by_name xs"
  by (cases xs) auto

lemma is_header_name: "is_header (header_name n)"
  by (simp add: is_header_def header_name_def)

lemma browse_custom:
  assumes "w_current_game_dir w = GAME_DIR_CUSTOM" "header_ok (w_bhds w)"
    and "bc_name (hd (w_bhds w)) \<notin> bc_name ` set (tl (w_bhds w)) \<union> set paths"
  shows "tl (w_bhds (browse_game_dir (Some paths) w)) = dedup_by_name (sort_key bc_name
      (tl (w_bhds w) @ map (\<lambda>p. \<lparr>bc_name = p, bc_parent_dir = [], bc_checked = True\<rparr>) paths))"
proof -
  obtain h rows where w: "w_bhds w = h # rows" using assms(2) by (auto simp: header_ok_def neq_Nil_conv)
  have "is_header (bc_name h)" using assms(2) is_header_name by (simp add: header_ok_def w)
  moreover have "bc_name h \<notin> bc_name ` set (sort_key bc_name (rows @ map (\<lambda>p. \<lparr>bc_name = p, bc_parent_dir = [], bc_checked = True\<rparr>) paths))"
    using assms(3) by (auto simp: w image_iff)
  ultimately show ?thesis
    using assms(1) by (simp add: browse_game_dir_def set_bhds_with_first_def w Let_def dedup_header)
qed

section \<open>Properties\<close>

text \<open>C36: the list of archives is consistent when it is empty or starts with a header that counts the
  other rows and is checked exactly when all of them are. If the lists in the configuration files that
  are there when the program starts are consistent, then whatever the user does, opening and saving
  configurations included, and in whatever order the answers come, the list shown and the lists in
  all files stay consistent. If a file with another list is opened, which nothing checks, the next
  answer of a selection and the next archives browsed for make the list consistent again.\<close>

theorem gui_header_invariant:
  assumes "gui_run exists_at disk s"
  shows "(disk_ok disk \<longrightarrow> rows_ok (w_bhds (g_window s)) \<and> disk_ok (g_disk s)) \<and>
    (\<forall>game_dir files marks w'. select_finish exists_at game_dir files marks (g_window s) w' \<longrightarrow> header_ok (w_bhds w')) \<and>
    (\<forall>paths. header_ok (w_bhds (browse_game_dir (Some paths) (g_window s))))"
  using gui_run_header [OF assms] answer_header browsed_header by blast

text \<open>A run that browses for an archive and saves the configuration.\<close>

theorem gui_header_invariant_witness:
  "\<exists>s. gui_run (\<lambda>_. True) [] s \<and> g_disk s \<noteq> [] \<and> disk_ok (g_disk s) \<and> header_ok (w_bhds (g_window s))"
proof -
  let ?s0 = "gui_new []"
  let ?s1 = "?s0\<lparr>g_window := browse_game_dir (Some [''x.bhd'']) (g_window ?s0)\<rparr>"
  let ?s2 = "?s1\<lparr>g_disk := AList.update ''a.json'' (get_context (g_window ?s1)) (g_disk ?s1)\<rparr>"
  have s1: "gui_step (\<lambda>_. True) ?s0 ?s1" by (rule gui_step.browsed)
  have s2: "gui_step (\<lambda>_. True) ?s1 ?s2" by (rule gui_step.saved)
  have run: "gui_run (\<lambda>_. True) [] ?s2"
    unfolding gui_run_def by (rule rtranclp.rtrancl_into_rtrancl [where b = ?s1, OF r_into_rtranclp [of "gui_step (\<lambda>_. True)", OF s1] s2])
  have "g_disk ?s2 \<noteq> []" "w_bhds (g_window ?s2) \<noteq> []" using browsed_header by (auto simp: header_ok_def gui_new_def)
  moreover have "disk_ok []" by (simp add: disk_ok_def)
  ultimately show ?thesis using gui_header_invariant [OF run] run unfolding rows_ok_def by blast
qed

text \<open>C37: browsing in a custom selection leaves the rows sorted by name and without repetition; a row
  that was there keeps its mark, a new one is checked, and nothing else is listed.\<close>

theorem browse_keeps_marks:
  assumes "w_current_game_dir w = GAME_DIR_CUSTOM" "header_ok (w_bhds w)"
    and "bc_name (hd (w_bhds w)) \<notin> bc_name ` set (tl (w_bhds w)) \<union> set paths"
  defines "rows \<equiv> tl (w_bhds (browse_game_dir (Some paths) w))"
  shows "sorted_wrt (<) (map bc_name rows) \<and>
    (\<forall>k. map_of (map mark rows) k =
       (case map_of (map mark (tl (w_bhds w))) k of Some c \<Rightarrow> Some c | None \<Rightarrow> if k \<in> set paths then Some True else None))"
proof -
  have new: "map_of (map (mark \<circ> (\<lambda>p. \<lparr>bc_name = p, bc_parent_dir = [], bc_checked = True\<rparr>)) paths) k =
      (if k \<in> set paths then Some True else None)" for k
    by (induction paths) (auto simp: mark_def)
  show ?thesis
    unfolding rows_def browse_custom [OF assms(1-3)]
    by (auto simp: dedup_sorted dedup_marks map_of_mark_sort map_add_def new split: option.split)
qed

text \<open>A custom selection of one archive, browsed for another.\<close>

definition sample_custom :: window where
  "sample_custom = window_default\<lparr>w_current_game_dir := GAME_DIR_CUSTOM,
     w_bhds := [\<lparr>bc_name = header_name 1, bc_parent_dir = [], bc_checked = False\<rparr>,
                \<lparr>bc_name = ''/g/b.bhd'', bc_parent_dir = [], bc_checked = False\<rparr>]\<rparr>"

theorem browse_keeps_marks_witness:
  "map_of (map mark (tl (w_bhds (browse_game_dir (Some [''/g/a.bhd'', ''/g/b.bhd'']) sample_custom)))) ''/g/b.bhd'' = Some False"
proof -
  have "header_name n \<notin> {''/g/a.bhd'', ''/g/b.bhd''}" for n by (simp add: header_name_def)
  moreover have "w_current_game_dir sample_custom = GAME_DIR_CUSTOM" "header_ok (w_bhds sample_custom)"
    by (simp_all add: sample_custom_def header_ok_def)
  ultimately show ?thesis
    using browse_keeps_marks [of sample_custom "[''/g/a.bhd'', ''/g/b.bhd'']"]
    by (simp add: sample_custom_def mark_def)
qed

text \<open>Selecting a listed game.\<close>

lemma select_lists_all:
  assumes "header_ok (w_bhds w)" "select_game_dir exists_at games w w'"
    and "w_current_game_dir w \<notin> {[], GAME_DIR_PLACEHOLDER, GAME_DIR_CUSTOM}"
    and "btree_get (w_current_game_dir w) games = Some g" "\<forall>bhd \<in> set (gi_bhds g). \<not> is_header bhd"
  shows "mset (tl (w_bhds w')) = mset (map (\<lambda>bhd. \<lparr>bc_name = bhd, bc_parent_dir = w_current_game_dir w, bc_checked = True\<rparr>)
      (filter (bhd_exists exists_at (w_current_game_dir w)) (gi_bhds g))) \<and>
    header_ok (w_bhds w') \<and> w_game_name w' = gi_name g \<and> w_current_game_dir w' = w_current_game_dir w"
proof -
  let ?dir = "w_current_game_dir w"
  obtain h rest where w: "w_bhds w = h # rest" "bc_parent_dir h = []"
    using assms(1) by (auto simp: header_ok_def neq_Nil_conv)
  have "[] \<noteq> ?dir" using assms(3) by auto
  then have "select_start games w = Pending (w\<lparr>w_game_name := gi_name g\<rparr>) ?dir (gi_bhds g) []"
    using assms(3,4) w by (simp add: select_start_def Let_def)
  then obtain rows where rows: "mset rows = mset (map (found_row ?dir []) (filter (bhd_exists exists_at ?dir) (gi_bhds g)))"
    "w' = set_bhds_with_first rows False (w\<lparr>w_game_name := gi_name g\<rparr>)"
    using assms(2) by (auto elim!: select_game_dirE select_finishE)
  have "set rows = set (map (found_row ?dir []) (filter (bhd_exists exists_at ?dir) (gi_bhds g)))"
    using mset_eq_setD [OF rows(1)] .
  then have "\<forall>b \<in> set rows. \<not> is_header (bc_name b)" using assms(5) by (auto simp: found_row_def)
  then have "tl (w_bhds w') = rows"
    by (cases rows) (auto simp: rows(2) set_bhds_with_first_def Let_def)
  moreover have "found_row ?dir [] = (\<lambda>bhd. \<lparr>bc_name = bhd, bc_parent_dir = ?dir, bc_checked = True\<rparr>)"
    by (simp add: found_row_def fun_eq_iff)
  ultimately show ?thesis using rows by simp
qed

text \<open>Selecting a listed game lists exactly its archives that exist together with their data, in
  some order, all of them checked: the marks of the rows shown before are lost, because they are
  looked for under the directory of the header, which has none.\<close>

theorem select_checks_all:
  assumes "header_ok (w_bhds w)" "select_game_dir exists_at games w w'"
    and "w_current_game_dir w \<notin> {[], GAME_DIR_PLACEHOLDER, GAME_DIR_CUSTOM}"
    and "btree_get (w_current_game_dir w) games = Some g" "\<forall>bhd \<in> set (gi_bhds g). \<not> is_header bhd"
  shows "mset (tl (w_bhds w')) = mset (map (\<lambda>bhd. \<lparr>bc_name = bhd, bc_parent_dir = w_current_game_dir w, bc_checked = True\<rparr>)
      (filter (bhd_exists exists_at (w_current_game_dir w)) (gi_bhds g))) \<and>
    header_ok (w_bhds w') \<and> w_game_name w' = gi_name g \<and> w_current_game_dir w' = w_current_game_dir w"
  using assms by (rule select_lists_all)

definition sample_game :: game_info where
  "sample_game = \<lparr>gi_app_id = 1245620, gi_name = ''EldenRing_PC'', gi_bhds = [''Data0.bhd'']\<rparr>"

definition sample_listed :: window where
  "sample_listed = window_default\<lparr>w_current_game_dir := ''/er'',
     w_bhds := [\<lparr>bc_name = header_name 1, bc_parent_dir = [], bc_checked = False\<rparr>,
                \<lparr>bc_name = ''Data0.bhd'', bc_parent_dir = ''/er'', bc_checked = False\<rparr>]\<rparr>"

theorem select_checks_all_witness:
  "\<exists>w'. select_game_dir (\<lambda>_. True) [(''/er'', sample_game)] sample_listed w' \<and>
    tl (w_bhds w') = [\<lparr>bc_name = ''Data0.bhd'', bc_parent_dir = ''/er'', bc_checked = True\<rparr>]"
proof -
  let ?games = "[(''/er'', sample_game)]" and ?w1 = "sample_listed\<lparr>w_game_name := ''EldenRing_PC''\<rparr>"
  have get: "btree_get ''/er'' ?games = Some sample_game" by (simp add: btree_get_def)
  have ne: "w_current_game_dir sample_listed = ''/er''" "header_ok (w_bhds sample_listed)"
    by (simp_all add: sample_listed_def header_ok_def)
  have "select_start ?games sample_listed = Pending ?w1 ''/er'' [''Data0.bhd''] []"
    using get by (simp add: select_start_def ne(1) Let_def GAME_DIR_PLACEHOLDER_def GAME_DIR_CUSTOM_def sample_game_def)
      (simp add: sample_listed_def)
  from select_game_dir.later [OF this select_finish.intros [OF refl]]
  obtain w' where w': "select_game_dir (\<lambda>_. True) ?games sample_listed w'" by blast
  have "\<not> is_header ''Data0.bhd''" by (simp add: is_header_def)
  then have "mset (tl (w_bhds w')) = mset (map (\<lambda>bhd. \<lparr>bc_name = bhd, bc_parent_dir = ''/er'', bc_checked = True\<rparr>)
      (filter (bhd_exists (\<lambda>_. True) ''/er'') [''Data0.bhd'']))"
    using select_checks_all [OF ne(2) w' _ _, of sample_game] ne(1) get
    by (simp add: GAME_DIR_PLACEHOLDER_def GAME_DIR_CUSTOM_def sample_game_def)
  moreover have "filter (bhd_exists (\<lambda>_. True) ''/er'') [''Data0.bhd''] = [''Data0.bhd'']" by (simp add: bhd_exists_def)
  ultimately show ?thesis using w' by auto
qed

section \<open>The command line of a mount\<close>

text \<open>What the fields of a context become as arguments.\<close>

definition nonempty :: "string \<Rightarrow> string option" where
  "nonempty s = (if s = [] then None else Some s)"

definition args_of :: "app_context \<Rightarrow> string list \<Rightarrow> dvdbnd_args" where
  "args_of c paths =
     \<lparr>archive = paths, mountpoint = ac_mount_point c, game = nonempty (ac_game_name c),
      keys_arg = nonempty (ac_keys_path c), dict_arg = nonempty (ac_dict_path c),
      cache_arg = (if ac_use_cache c then \<lparr>arg_cache = nonempty (ac_cache_path c), no_cache = None\<rparr>
                   else \<lparr>arg_cache = None, no_cache = Some True\<rparr>),
      piped_arg = Some True\<rparr>"

text \<open>The options that are passed, with their values.\<close>

definition context_options :: "app_context \<Rightarrow> occurrences" where
  "context_options c =
     [(MountpointArg, Some (ac_mount_point c))] @
     (if ac_keys_path c \<noteq> [] then [(KeysArg, Some (ac_keys_path c))] else []) @
     (if ac_dict_path c \<noteq> [] then [(DictArg, Some (ac_dict_path c))] else []) @
     (if ac_use_cache c then (if ac_cache_path c \<noteq> [] then [(CacheArg, Some (ac_cache_path c))] else []) else [(NoCacheArg, None)]) @
     (if ac_game_name c \<noteq> [] then [(GameArg, Some (ac_game_name c))] else []) @ [(PipedArg, None)]"

lemma spelled_append: "spelled xs ts \<Longrightarrow> spelled ys us \<Longrightarrow> spelled (xs @ ys) (ts @ us)"
proof (induction rule: spelled.induct)
  case (option occs tokens name a v)
  from spelled.option [OF option.IH [OF option.prems] option.hyps(2), of v] show ?case by simp
qed simp

lemma spelled_value: "name \<in> set (arg_names a) \<Longrightarrow> spelled [(a, Some v)] [name, v]"
  using spelled.option [OF spelled.no_options, of name a "Some v"] by simp

lemma spelled_switch: "name \<in> set (arg_names a) \<Longrightarrow> spelled [(a, None)] [name]"
  using spelled.option [OF spelled.no_options, of name a None] by simp

lemmas spelled_options = spelled_append spelled_value spelled_switch spelled.no_options

lemma app_args_spelled: "\<exists>tokens. app_args c @ [''--piped''] = ''dvdbnd'' # tokens \<and> spelled (context_options c) tokens"
proof -
  have "spelled (context_options c) ([''-m'', ac_mount_point c] @
     (if ac_keys_path c \<noteq> [] then [''-k'', ac_keys_path c] else []) @
     (if ac_dict_path c \<noteq> [] then [''-d'', ac_dict_path c] else []) @
     (if ac_use_cache c then (if ac_cache_path c \<noteq> [] then [''-c'', ac_cache_path c] else []) else [''--no-cache'']) @
     (if ac_game_name c \<noteq> [] then [''-g'', ac_game_name c] else []) @ [''--piped''])"
    unfolding context_options_def
    by (intro spelled_append) (auto intro: spelled_value spelled_switch spelled.no_options)
  then show ?thesis by (simp add: app_args_def)
qed

lemma context_options_args: "args_from (context_options c) paths = Some (args_of c paths)"
  by (simp add: args_from_def context_options_def arg_value_def arg_flag_def args_of_def nonempty_def)

text \<open>The values that are passed: an empty one is not.\<close>

definition context_values :: "app_context \<Rightarrow> string list" where
  "context_values c = [ac_mount_point c, ac_keys_path c, ac_dict_path c] @ (if ac_use_cache c then [ac_cache_path c] else []) @
     [ac_game_name c]"

lemma context_options_ok: "\<forall>v \<in> set (context_values c). \<not> hyphened v \<Longrightarrow> options_ok (context_options c)"
  by (auto simp: options_ok_def context_options_def context_values_def takes_value_def)

text \<open>Up to the first value that starts with a hyphen the options are fine.\<close>

lemma first_hyphened:
  assumes "spelled occs tokens" "\<exists>(a, v) \<in> set occs. \<exists>x. v = Some x \<and> hyphened x"
    and "distinct (map fst occs)" "\<not> {CacheArg, NoCacheArg} \<subseteq> fst ` set occs" "\<forall>(a, v) \<in> set occs. v \<noteq> None \<longleftrightarrow> takes_value a"
  shows "\<exists>occs' tokens' a name x rest. tokens = tokens' @ name # x # rest \<and> spelled occs' tokens' \<and> options_ok occs' \<and>
    fst ` set occs' \<subseteq> fst ` set occs \<and> takes_value a \<and> name \<in> set (arg_names a) \<and> hyphened x"
  using assms
proof (induction rule: spelled.induct)
  case (option occs tokens name a v)
  show ?case
  proof (cases "\<exists>x. v = Some x \<and> hyphened x")
    case True
    then obtain x where "v = Some x" "hyphened x" by blast
    then show ?thesis using option.hyps(2) option.prems(4) spelled.no_options
      by (intro exI [of _ "[]"] exI [of _ a] exI [of _ name] exI [of _ x] exI [of _ tokens]) (auto simp: options_ok_def)
  next
    case False
    have "\<exists>(a, v) \<in> set occs. \<exists>x. v = Some x \<and> hyphened x" "distinct (map fst occs)"
      "\<not> {CacheArg, NoCacheArg} \<subseteq> fst ` set occs" "\<forall>(a, v) \<in> set occs. v \<noteq> None \<longleftrightarrow> takes_value a"
      using option.prems False by auto
    from option.IH [OF this] obtain occs' tokens' b n x rest where r: "tokens = tokens' @ n # x # rest" "spelled occs' tokens'"
      "options_ok occs'" "fst ` set occs' \<subseteq> fst ` set occs" "takes_value b" "n \<in> set (arg_names b)" "hyphened x" by blast
    have "a \<notin> fst ` set occs'" using option.prems(2) r(4) by force
    moreover have "\<not> {CacheArg, NoCacheArg} \<subseteq> insert a (fst ` set occs')" using option.prems(3) r(4) by auto
    ultimately have "options_ok ((a, v) # occs')" using r(3) option.prems(4) False by (auto simp: options_ok_def)
    then show ?thesis using r spelled.option [OF r(2) option.hyps(2), of v]
      by (intro exI [of _ "(a, v) # occs'"] exI [of _ "name # (case v of Some x \<Rightarrow> [x] | None \<Rightarrow> []) @ tokens'"]
          exI [of _ b] exI [of _ n] exI [of _ x] exI [of _ rest]) auto
  qed
qed simp

lemma context_value_passed:
  assumes "v \<in> set (context_values c)" "v \<noteq> []"
  shows "\<exists>a. (a, Some v) \<in> set (context_options c)"
proof -
  have p: "(MountpointArg, Some (ac_mount_point c)) \<in> set (context_options c)"
    "ac_keys_path c \<noteq> [] \<longrightarrow> (KeysArg, Some (ac_keys_path c)) \<in> set (context_options c)"
    "ac_dict_path c \<noteq> [] \<longrightarrow> (DictArg, Some (ac_dict_path c)) \<in> set (context_options c)"
    "ac_use_cache c \<longrightarrow> ac_cache_path c \<noteq> [] \<longrightarrow> (CacheArg, Some (ac_cache_path c)) \<in> set (context_options c)"
    "ac_game_name c \<noteq> [] \<longrightarrow> (GameArg, Some (ac_game_name c)) \<in> set (context_options c)"
    by (simp_all add: context_options_def)
  consider "v = ac_mount_point c" | "v = ac_keys_path c" | "v = ac_dict_path c" | "ac_use_cache c" "v = ac_cache_path c"
    | "v = ac_game_name c"
    using assms(1) by (cases "ac_use_cache c") (auto simp: context_values_def)
  then show ?thesis using p assms(2) by cases blast+
qed

lemma app_args_parsed:
  assumes "clap_ok parse"
  shows "\<forall>v \<in> set (context_values c @ paths). \<not> hyphened v \<Longrightarrow>
      parse (app_args c @ [''--piped''] @ paths) = Some (args_of c paths)"
    and "\<exists>v \<in> set (context_values c). hyphened v \<Longrightarrow> parse (app_args c @ [''--piped''] @ paths) = None"
proof -
  obtain tokens where t: "app_args c @ [''--piped''] = ''dvdbnd'' # tokens" "spelled (context_options c) tokens"
    using app_args_spelled by blast
  have args: "app_args c @ [''--piped''] @ paths = ''dvdbnd'' # tokens @ paths" using t(1) by (simp flip: append_assoc)
  show "parse (app_args c @ [''--piped''] @ paths) = Some (args_of c paths)"
    if "\<forall>v \<in> set (context_values c @ paths). \<not> hyphened v"
  proof -
    have "options_ok (context_options c)" "\<forall>p \<in> set paths. \<not> hyphened p" using that context_options_ok by auto
    then show ?thesis using assms t(2) context_options_args unfolding clap_ok_def args by metis
  qed
  assume h: "\<exists>v \<in> set (context_values c). hyphened v"
  then obtain x where x: "x \<in> set (context_values c)" "hyphened x" by blast
  then have "x \<noteq> []" by (auto simp: hyphened_def)
  then have "\<exists>(a, v) \<in> set (context_options c). \<exists>x. v = Some x \<and> hyphened x"
    using context_value_passed [OF x(1)] x(2) by blast
  moreover have "distinct (map fst (context_options c))" "\<not> {CacheArg, NoCacheArg} \<subseteq> fst ` set (context_options c)"
    "\<forall>(a, v) \<in> set (context_options c). v \<noteq> None \<longleftrightarrow> takes_value a"
    by (auto simp: context_options_def takes_value_def)
  ultimately obtain occs' tokens' a name x rest where "tokens = tokens' @ name # x # rest" "spelled occs' tokens'" "options_ok occs'"
    "takes_value a" "name \<in> set (arg_names a)" "hyphened x" using first_hyphened [OF t(2)] by blast
  then show "parse (app_args c @ [''--piped''] @ paths) = None"
    using assms unfolding clap_ok_def args by (simp add: append_assoc)
qed

lemma bhd_paths_Ok:
  assumes "bhd_paths exists_at c = Ok paths"
  shows "paths \<noteq> [] \<and> (\<forall>p \<in> set paths. exists_at p) \<and>
    paths = map (\<lambda>b. if ac_current_game_dir c = GAME_DIR_CUSTOM then bc_name b
                     else ac_current_game_dir c @ ''/'' @ bc_name b) (filter bc_checked (drop 1 (ac_bhds c)))"
  using assms by (auto simp: bhd_paths_def Let_def list_ex_iff split: if_splits)

text \<open>A parser that does what the contract says: it splits the arguments into options and archives and
  reads the fields off them.\<close>

definition arg_of_name :: "string \<Rightarrow> arg_id option" where
  "arg_of_name x = find (\<lambda>a. x \<in> set (arg_names a)) [MountpointArg, GameArg, KeysArg, DictArg, CacheArg, NoCacheArg, PipedArg]"

fun split_args :: "string list \<Rightarrow> (occurrences \<times> string list) option" where
  "split_args [] = Some ([], [])"
| "split_args (x # xs) =
     (if \<not> hyphened x then if list_ex hyphened xs then None else Some ([], x # xs)
      else case arg_of_name x of
             None \<Rightarrow> None
           | Some a \<Rightarrow>
               if takes_value a
               then (case xs of
                       [] \<Rightarrow> None
                     | v # ys \<Rightarrow> if hyphened v then None else map_option (apfst ((#) (a, Some v))) (split_args ys))
               else map_option (apfst ((#) (a, None))) (split_args xs))"

definition sample_parse :: "string list \<Rightarrow> dvdbnd_args option" where
  "sample_parse argv =
     (case argv of
        [] \<Rightarrow> None
      | cmd # xs \<Rightarrow> if cmd \<noteq> ''dvdbnd'' then None
          else Option.bind (split_args xs) (\<lambda>(occs, archives). args_from occs archives))"

lemma arg_of_name: "name \<in> set (arg_names a) \<Longrightarrow> arg_of_name name = Some a \<and> hyphened name"
proof -
  have "\<forall>a \<in> set [MountpointArg, GameArg, KeysArg, DictArg, CacheArg, NoCacheArg, PipedArg]. \<forall>name \<in> set (arg_names a).
      arg_of_name name = Some a \<and> hyphened name" by code_simp
  moreover have "a \<in> set [MountpointArg, GameArg, KeysArg, DictArg, CacheArg, NoCacheArg, PipedArg]" by (cases a) simp_all
  ultimately show "name \<in> set (arg_names a) \<Longrightarrow> arg_of_name name = Some a \<and> hyphened name" by blast
qed

lemma split_archives: "\<forall>p \<in> set ps. \<not> hyphened p \<Longrightarrow> split_args ps = Some ([], ps)"
  by (cases ps) (auto simp: list_ex_iff)

lemma split_spelled:
  "spelled occs tokens \<Longrightarrow> \<forall>(a, v) \<in> set occs. (v \<noteq> None \<longleftrightarrow> takes_value a) \<and> (\<forall>x. v = Some x \<longrightarrow> \<not> hyphened x) \<Longrightarrow>
     split_args (tokens @ rest) = map_option (apfst ((@) occs)) (split_args rest)"
proof (induction rule: spelled.induct)
  case (option occs tokens name a v)
  show ?case using option arg_of_name [OF option.hyps(2)]
    by (cases v) (auto simp: option.map_comp comp_def apfst_def map_prod_def split: prod.splits intro!: option.map_cong)
qed (simp add: option.map_id0 apfst_def map_prod_def option.map_ident)

lemma sample_parse_ok: "clap_ok sample_parse"
  unfolding clap_ok_def
proof (intro conjI allI impI)
  fix occs tokens archives
  assume s: "spelled occs tokens" "options_ok occs" "\<forall>p \<in> set archives. \<not> hyphened p"
  then have "split_args (tokens @ archives) = Some (occs, archives)"
    using split_spelled [OF s(1), of archives] split_archives by (simp add: options_ok_def)
  then show "sample_parse (''dvdbnd'' # tokens @ archives) = args_from occs archives" by (simp add: sample_parse_def)
next
  fix occs tokens a name v rest
  assume s: "spelled occs tokens" "options_ok occs" "takes_value a" "name \<in> set (arg_names a)" "hyphened v"
  have "split_args (name # v # rest) = None" using arg_of_name [OF s(4)] s(3,5) by simp
  then have "split_args (tokens @ name # v # rest) = None"
    using split_spelled [OF s(1), of "name # v # rest"] s(2) by (simp add: options_ok_def)
  then show "sample_parse (''dvdbnd'' # tokens @ name # v # rest) = None" by (simp add: sample_parse_def)
qed

text \<open>C19: the command that a mount of the window runs passes the settings of the window without escaping
  them. When no setting and no archive that is passed starts with a hyphen, the command line reads the
  command back as these settings: the mount point, the directories that were set, the cache or its
  absence, the game, the checked archives in their order, all of which exist, and the pipe that guards
  the mount. When one of the settings starts with a hyphen, the command line refuses the command. The
  parser of the command line is clap, of which the documented behaviour is assumed.\<close>

theorem mount_command_parsed:
  assumes "clap_ok parse" "mount_command list_dir dir_ok exists_at w = Ok args"
  defines "c \<equiv> get_context w"
    and "paths \<equiv> map (\<lambda>b. if w_current_game_dir w = GAME_DIR_CUSTOM then bc_name b else w_current_game_dir w @ ''/'' @ bc_name b)
      (filter bc_checked (tl (w_bhds w)))"
  shows "paths \<noteq> [] \<and> (\<forall>p \<in> set paths. exists_at p) \<and>
    ((\<forall>v \<in> set (context_values c @ paths). \<not> hyphened v) \<longrightarrow>
      parse args = Some (args_of c paths) \<and> cfg_mountpoint (mount_from_args argv (args_of c paths)) = w_mount_point w \<and>
      cfg_piped (mount_from_args argv (args_of c paths)) \<and>
      (cfg_cache_dir (mount_from_args argv (args_of c paths)) = None \<longleftrightarrow> \<not> w_use_cache w)) \<and>
    ((\<exists>v \<in> set (context_values c). hyphened v) \<longrightarrow> parse args = None)"
proof -
  obtain ps where p: "bhd_paths exists_at c = Ok ps" and args: "args = app_args c @ [''--piped''] @ ps"
    using assms(2) by (auto simp: mount_command_def check_def c_def split: if_splits)
  have "ps = paths" using bhd_paths_Ok [OF p] by (simp add: paths_def c_def get_context_def drop_Suc)
  then have ps: "ps = paths" "paths \<noteq> []" "\<forall>p \<in> set paths. exists_at p" using bhd_paths_Ok [OF p] by blast+
  note P = app_args_parsed [OF assms(1), of c paths, folded ps(1), folded args, unfolded ps(1)]
  have "cfg_mountpoint (mount_from_args argv (args_of c paths)) = w_mount_point w"
    "cfg_piped (mount_from_args argv (args_of c paths))"
    "cfg_cache_dir (mount_from_args argv (args_of c paths)) = None \<longleftrightarrow> \<not> w_use_cache w"
    by (simp_all add: c_def get_context_def args_of_def mount_from_args_def Let_def)
  then show ?thesis using P ps(2,3) by blast
qed

theorem mount_command_parsed_witness:
  "\<exists>args. mount_command (\<lambda>_. Ok False) (\<lambda>_. True) (\<lambda>_. True)
      (sample_listed\<lparr>w_mount_point := ''/mnt'', w_bhds := [\<lparr>bc_name = header_name 1, bc_parent_dir = [], bc_checked = True\<rparr>,
         \<lparr>bc_name = ''Data0.bhd'', bc_parent_dir = ''/er'', bc_checked = True\<rparr>]\<rparr>) = Ok args \<and>
    map_option archive (sample_parse args) = Some [''/er/Data0.bhd'']"
proof -
  let ?w = "sample_listed\<lparr>w_mount_point := ''/mnt'', w_bhds := [\<lparr>bc_name = header_name 1, bc_parent_dir = [], bc_checked = True\<rparr>,
         \<lparr>bc_name = ''Data0.bhd'', bc_parent_dir = ''/er'', bc_checked = True\<rparr>]\<rparr>"
  have "\<exists>args. mount_command (\<lambda>_. Ok False) (\<lambda>_. True) (\<lambda>_. True) ?w = Ok args"
    by (simp add: mount_command_def check_def get_context_def sample_listed_def window_default_def check_is_dir_def
        map_err_def bhd_paths_def GAME_DIR_PLACEHOLDER_def GAME_DIR_CUSTOM_def)
  then obtain args where args: "mount_command (\<lambda>_. Ok False) (\<lambda>_. True) (\<lambda>_. True) ?w = Ok args" ..
  have "\<forall>v \<in> set (context_values (get_context ?w)). \<not> hyphened v" "\<not> hyphened ''/er/Data0.bhd''"
    by (simp_all add: context_values_def get_context_def sample_listed_def window_default_def hyphened_def)
  with mount_command_parsed [OF sample_parse_ok args] show ?thesis
    using args by (auto simp: sample_listed_def GAME_DIR_CUSTOM_def args_of_def)
qed

section \<open>Selections that overtake each other\<close>

lemma select_start_listed:
  assumes "d \<notin> {GAME_DIR_PLACEHOLDER, GAME_DIR_CUSTOM}" "btree_get d games = Some g" "w_current_game_dir w = d"
  shows "\<exists>marks. select_start games w = Pending (w\<lparr>w_game_name := gi_name g\<rparr>) d (gi_bhds g) marks"
  using assms by (simp add: select_start_def Let_def)

lemma selected_listed:
  assumes "i < length (gd_dirs (w_game_dirs (g_window s)))" "gd_dirs (w_game_dirs (g_window s)) ! i = d"
    and "d \<notin> {GAME_DIR_PLACEHOLDER, GAME_DIR_CUSTOM}" "btree_get d (g_games s) = Some g"
  shows "\<exists>marks. gui_step exists_at s (s\<lparr>g_window := (choose_dir i (g_window s))\<lparr>w_game_name := gi_name g\<rparr>,
    g_tasks := (d, gi_bhds g, marks) # g_tasks s\<rparr>)"
proof -
  have "w_current_game_dir (choose_dir i (g_window s)) = d" using assms(2) by (simp add: choose_dir_def)
  from select_start_listed [OF assms(3,4) this] obtain marks where
    "start_select (choose_dir i (g_window s)) s = s\<lparr>g_window := (choose_dir i (g_window s))\<lparr>w_game_name := gi_name g\<rparr>,
      g_tasks := (d, gi_bhds g, marks) # g_tasks s\<rparr>" by (auto simp: start_select_def)
  then show ?thesis using gui_step.selected [OF assms(1), of exists_at] by metis
qed

lemma answered_first:
  assumes "(d, files, marks) \<in> set (g_tasks s)" "\<forall>bhd \<in> set files. \<not> is_header bhd"
  shows "\<exists>w'. gui_step exists_at s (s\<lparr>g_window := w', g_tasks := remove1 (d, files, marks) (g_tasks s)\<rparr>) \<and>
    w_game_dirs w' = w_game_dirs (g_window s) \<and> w_current_game_dir w' = w_current_game_dir (g_window s) \<and>
    w_game_name w' = w_game_name (g_window s) \<and>
    tl (w_bhds w') = map (found_row d marks) (filter (bhd_exists exists_at d) files)"
proof -
  let ?rows = "map (found_row d marks) (filter (bhd_exists exists_at d) files)"
  let ?w = "set_bhds_with_first ?rows False (g_window s)"
  have "\<forall>b \<in> set ?rows. \<not> is_header (bc_name b)" using assms(2) by (auto simp: found_row_def)
  then have "tl (w_bhds ?w) = ?rows" by (cases ?rows) (auto simp: set_bhds_with_first_def Let_def)
  moreover have "select_finish exists_at d files marks (g_window s) ?w" by (rule select_finish.intros [OF refl])
  ultimately show ?thesis using gui_step.answered [OF assms(1)] by (intro exI [of _ ?w]) simp
qed

text \<open>C38: in every state of the window, for any two games that are listed: the first is selected and
  then the second, and the answers for the first may come after those for the second. Then nothing
  waits that did not wait before, the window names the second game and its directory, and the
  archives it lists are those of the first game, found in the directory of the first.\<close>

theorem selections_overtake:
  assumes "i < length (gd_dirs (w_game_dirs (g_window s)))" "gd_dirs (w_game_dirs (g_window s)) ! i = d1"
    and "j < length (gd_dirs (w_game_dirs (g_window s)))" "gd_dirs (w_game_dirs (g_window s)) ! j = d2"
    and "{d1, d2} \<inter> {GAME_DIR_PLACEHOLDER, GAME_DIR_CUSTOM} = {}"
    and "btree_get d1 (g_games s) = Some g1" "btree_get d2 (g_games s) = Some g2"
    and "\<forall>bhd \<in> set (gi_bhds g1) \<union> set (gi_bhds g2). \<not> is_header bhd"
  shows "\<exists>s'. (gui_step exists_at)\<^sup>*\<^sup>* s s' \<and> g_tasks s' = g_tasks s \<and>
    w_current_game_dir (g_window s') = d2 \<and> w_game_name (g_window s') = gi_name g2 \<and>
    map (\<lambda>b. (bc_parent_dir b, bc_name b)) (tl (w_bhds (g_window s'))) =
      map (Pair d1) (filter (bhd_exists exists_at d1) (gi_bhds g1))"
proof -
  have d: "d1 \<notin> {GAME_DIR_PLACEHOLDER, GAME_DIR_CUSTOM}" "d2 \<notin> {GAME_DIR_PLACEHOLDER, GAME_DIR_CUSTOM}"
    using assms(5) by auto
  obtain m1 where s1: "gui_step exists_at s (s\<lparr>g_window := (choose_dir i (g_window s))\<lparr>w_game_name := gi_name g1\<rparr>,
      g_tasks := (d1, gi_bhds g1, m1) # g_tasks s\<rparr>)" (is "gui_step _ _ ?s1")
    using selected_listed [OF assms(1,2) d(1) assms(6)] by blast
  have "j < length (gd_dirs (w_game_dirs (g_window ?s1)))" "gd_dirs (w_game_dirs (g_window ?s1)) ! j = d2"
    "btree_get d2 (g_games ?s1) = Some g2" using assms(3,4,7) by (simp_all add: choose_dir_def)
  then obtain m2 where s2: "gui_step exists_at ?s1 (?s1\<lparr>g_window := (choose_dir j (g_window ?s1))\<lparr>w_game_name := gi_name g2\<rparr>,
      g_tasks := (d2, gi_bhds g2, m2) # g_tasks ?s1\<rparr>)" (is "gui_step _ _ ?s2")
    using selected_listed [OF _ _ d(2), of j ?s1] by blast
  have "(d2, gi_bhds g2, m2) \<in> set (g_tasks ?s2)" by simp
  from answered_first [OF this, of exists_at] assms(8) obtain w3 where
    s3: "gui_step exists_at ?s2 (?s2\<lparr>g_window := w3, g_tasks := (d1, gi_bhds g1, m1) # g_tasks s\<rparr>)" (is "gui_step _ _ ?s3")
    and w3: "w_current_game_dir w3 = d2" "w_game_name w3 = gi_name g2"
    using assms(4) by (auto simp: choose_dir_def)
  have "(d1, gi_bhds g1, m1) \<in> set (g_tasks ?s3)" by simp
  from answered_first [OF this, of exists_at] assms(8) obtain w4 where
    s4: "gui_step exists_at ?s3 (?s3\<lparr>g_window := w4, g_tasks := g_tasks s\<rparr>)" (is "gui_step _ _ ?s4")
    and w4: "w_current_game_dir w4 = d2" "w_game_name w4 = gi_name g2"
      "tl (w_bhds w4) = map (found_row d1 m1) (filter (bhd_exists exists_at d1) (gi_bhds g1))"
    using w3 by auto
  have "(gui_step exists_at)\<^sup>*\<^sup>* s ?s2" by (rule converse_rtranclp_into_rtranclp [where r = "gui_step exists_at", OF s1 r_into_rtranclp, OF s2])
  moreover have "(gui_step exists_at)\<^sup>*\<^sup>* ?s2 ?s4" by (rule converse_rtranclp_into_rtranclp [where r = "gui_step exists_at", OF s3 r_into_rtranclp, OF s4])
  ultimately have "(gui_step exists_at)\<^sup>*\<^sup>* s ?s4" by (rule rtranclp_trans)
  then show ?thesis using w4 by (intro exI [of _ ?s4]) (simp add: found_row_def)
qed

definition sample_er :: game_info where
  "sample_er = \<lparr>gi_app_id = 1245620, gi_name = ''EldenRing_PC'', gi_bhds = [''Data0.bhd'']\<rparr>"

definition sample_ds3 :: game_info where
  "sample_ds3 = \<lparr>gi_app_id = 374320, gi_name = ''DarkSouls3_PC'', gi_bhds = [''Data1.bhd'']\<rparr>"

definition sample_two_games :: gui where
  "sample_two_games = \<lparr>g_window = window_default\<lparr>w_game_dirs := \<lparr>gd_dirs = [''/a'', ''/b''], gd_active_index = 0\<rparr>,
     w_current_game_dir := ''/a''\<rparr>, g_games = [(''/a'', sample_er), (''/b'', sample_ds3)], g_tasks = [], g_disk = []\<rparr>"

theorem selections_overtake_witness:
  "\<exists>s'. (gui_step (\<lambda>_. True))\<^sup>*\<^sup>* sample_two_games s' \<and> w_current_game_dir (g_window s') = ''/b'' \<and>
     map (\<lambda>b. (bc_parent_dir b, bc_name b)) (tl (w_bhds (g_window s'))) = [(''/a'', ''Data0.bhd'')]"
proof -
  let ?s = sample_two_games
  have k: "path_key ''/a'' = [RootDir, Normal ''a'']" "path_key ''/b'' = [RootDir, Normal ''b'']" by code_simp+
  have g: "btree_get ''/a'' (g_games ?s) = Some sample_er" "btree_get ''/b'' (g_games ?s) = Some sample_ds3"
    by (simp_all add: btree_get_def sample_two_games_def k)
  have h: "\<forall>bhd \<in> set (gi_bhds sample_er) \<union> set (gi_bhds sample_ds3). \<not> is_header bhd"
    by (simp add: sample_er_def sample_ds3_def is_header_def)
  have d: "{''/a'', ''/b''} \<inter> {GAME_DIR_PLACEHOLDER, GAME_DIR_CUSTOM} = {}"
    by (simp add: GAME_DIR_PLACEHOLDER_def GAME_DIR_CUSTOM_def)
  from selections_overtake [OF _ _ _ _ d g h, of 0 1 "\<lambda>_. True"] show ?thesis
    by (auto simp: sample_two_games_def window_default_def sample_er_def bhd_exists_def)
qed

end
