(* ===== verification/GuiFiles.thy ===== *)
theory GuiFiles
  imports Gui
begin

text \<open>
  What the window of the front end exchanges with the user's files (\<open>gui/src/app.rs\<close>): directories
  that are browsed for, configurations that are saved and opened, and the guard that keeps the
  mount button disabled while a mount starts. Dialogs, the serializer, reading and running the
  command are parameters.
\<close>

section \<open>Browsing, saving and opening\<close>

text \<open>\<open>browse_dir\<close> with what the dialog returned: nothing, or a path, which may not be valid UTF-8.\<close>

definition browse_dir :: "(string \<Rightarrow> window \<Rightarrow> window) \<Rightarrow> string option option \<Rightarrow> window \<Rightarrow> (unit, window) outcome" where
  "browse_dir f picked w =
     (case picked of
        None \<Rightarrow> Ok w
      | Some path \<Rightarrow> (case path of None \<Rightarrow> Err () | Some path \<Rightarrow> Ok (f path w)))"

definition browse_keys :: "string option option \<Rightarrow> window \<Rightarrow> (unit, window) outcome" where
  "browse_keys = browse_dir (\<lambda>path w. w\<lparr>w_keys_path := path\<rparr>)"

definition browse_dict :: "string option option \<Rightarrow> window \<Rightarrow> (unit, window) outcome" where
  "browse_dict = browse_dir (\<lambda>path w. w\<lparr>w_dict_path := path\<rparr>)"

definition browse_cache :: "string option option \<Rightarrow> window \<Rightarrow> (unit, window) outcome" where
  "browse_cache = browse_dir (\<lambda>path w. w\<lparr>w_cache_path := path\<rparr>)"

definition browse_mount :: "string option option \<Rightarrow> window \<Rightarrow> (unit, window) outcome" where
  "browse_mount = browse_dir (\<lambda>path w. w\<lparr>w_mount_point := path\<rparr>)"

text \<open>\<open>save\<close>, as the file and the text that are to be written, and \<open>open\<close>, up to locating the games;
  the serializer is a parameter.\<close>

definition save_context ::
  "(app_context \<Rightarrow> ('e, string) outcome) \<Rightarrow> string option \<Rightarrow> window \<Rightarrow> ('e, (string \<times> string) option) outcome" where
  "save_context to_json picked w =
     (case picked of
        None \<Rightarrow> Ok None
      | Some path \<Rightarrow> obind (to_json (get_context w)) (\<lambda>json. Ok (Some (path, json))))"

inductive open_saved ::
  "(string \<Rightarrow> ('e, string) outcome) \<Rightarrow> (string \<Rightarrow> ('e, app_context) outcome) \<Rightarrow> (string \<Rightarrow> bool) \<Rightarrow> located \<Rightarrow>
     string option \<Rightarrow> window \<Rightarrow> window \<Rightarrow> bool"
  for read from_json exists_at games where
  canceled: "open_saved read from_json exists_at games None w w"
| picked: "read path = Ok json \<Longrightarrow> from_json json = Ok c \<Longrightarrow> open_context exists_at games c w w' \<Longrightarrow>
     open_saved read from_json exists_at games (Some path) w w'"

inductive_cases open_savedE: "open_saved read from_json exists_at games (Some path) w w'"

section \<open>The mount button\<close>

text \<open>\<open>ToggleGuard\<close>: what is toggled is toggled back when the guard is dropped, on every path.\<close>

definition toggled_while :: "(bool \<Rightarrow> window \<Rightarrow> window) \<Rightarrow> bool \<Rightarrow> (window \<Rightarrow> 'r \<times> window) \<Rightarrow> window \<Rightarrow> 'r \<times> window" where
  "toggled_while f enable act w = (case act (f enable w) of (r, w) \<Rightarrow> (r, f (\<not> enable) w))"

text \<open>\<open>mount\<close> up to the start of the process; \<open>spawn\<close> runs the program with its arguments.\<close>

definition mount_window ::
  "(string \<Rightarrow> (nat, bool) outcome) \<Rightarrow> (string \<Rightarrow> bool) \<Rightarrow> (string \<Rightarrow> bool) \<Rightarrow> (string list \<Rightarrow> (gui_error, 'p) outcome) \<Rightarrow>
     window \<Rightarrow> (gui_error, 'p) outcome \<times> window" where
  "mount_window list_dir dir_ok exists_at spawn =
     toggled_while (\<lambda>b w. w\<lparr>w_mount_enabled := b\<rparr>) False
       (\<lambda>w. (obind (mount_command list_dir dir_ok exists_at w) spawn, w))"

lemma mount_window_enabled: "snd (mount_window list_dir dir_ok exists_at spawn w) = w\<lparr>w_mount_enabled := True\<rparr>"
  by (simp add: mount_window_def toggled_while_def)

lemma mount_window_runs:
  "fst (mount_window list_dir dir_ok exists_at spawn w) = obind (mount_command list_dir dir_ok exists_at w) spawn"
  by (simp add: mount_window_def toggled_while_def mount_command_def get_context_def)

section \<open>Fields that the list of archives does not touch\<close>

definition same_settings :: "window \<Rightarrow> window \<Rightarrow> bool" where
  "same_settings w w' \<longleftrightarrow> w_mount_point w' = w_mount_point w \<and> w_keys_path w' = w_keys_path w \<and>
     w_dict_path w' = w_dict_path w \<and> w_cache_path w' = w_cache_path w \<and> w_use_cache w' = w_use_cache w"

lemma same_settings_trans [trans]: "same_settings a b \<Longrightarrow> same_settings b c \<Longrightarrow> same_settings a c"
  by (simp add: same_settings_def)

lemma set_bhds_settings: "same_settings w (set_bhds_with_first rows dd w)"
  by (simp add: same_settings_def set_bhds_with_first_def Let_def)

lemma select_settings:
  assumes "select_game_dir exists_at games w w'"
  shows "same_settings w w'"
  using assms
proof cases
  case at_once
  then show ?thesis
    by (auto simp: select_start_def Let_def same_settings_def set_bhds_with_first_def split: if_splits option.splits)
next
  case (later w1 game_dir files marks)
  then have "same_settings w w1" by (auto simp: select_start_def Let_def same_settings_def split: if_splits option.splits)
  also have "same_settings w1 w'" using later(2) set_bhds_settings by (auto elim: select_finishE)
  finally show ?thesis .
qed

lemma update_dirs_settings: "same_settings w (update_dirs games w)"
  by (simp add: same_settings_def update_dirs_def Let_def)

lemma update_settings: "update_bhds exists_at games w w' \<Longrightarrow> same_settings w w'"
  using update_dirs_settings by (auto elim!: update_bhdsE dest: select_settings intro: same_settings_trans)

lemma length_takeWhile_less: "x \<in> set xs \<Longrightarrow> length (takeWhile (\<lambda>y. y \<noteq> x) xs) < length xs"
  by (induction xs) auto

lemma update_dirs_current:
  "w_current_game_dir w \<in> set (map fst games) \<or> w_current_game_dir w = GAME_DIR_CUSTOM \<Longrightarrow>
     w_current_game_dir (update_dirs games w) = w_current_game_dir w"
proof -
  let ?d = "w_current_game_dir w"
  let ?dirs = "map fst games @ (if ?d = GAME_DIR_CUSTOM then [?d] else [])"
  let ?n = "length (takeWhile (\<lambda>x. x \<noteq> ?d) ?dirs)"
  assume "?d \<in> set (map fst games) \<or> ?d = GAME_DIR_CUSTOM"
  then have "?d \<in> set ?dirs" by auto
  then have lt: "?n < length ?dirs" by (rule length_takeWhile_less)
  then have "?dirs ! ?n = ?d" using nth_length_takeWhile by blast
  then show ?thesis using lt by (simp add: update_dirs_def Let_def)
qed

lemma update_dirs_name: "w_game_name (update_dirs games w) = w_game_name w"
  by (simp add: update_dirs_def Let_def)

section \<open>Properties\<close>

text \<open>C39: a configuration that was saved and is opened again, in any window, restores the settings. A
  custom selection is restored with its archives and their marks; for a listed game the archives
  that exist are listed anew and all of them are checked, whatever was checked when it was saved.\<close>

theorem saved_configuration_reopened:
  assumes "save_context to_json (Some path) w = Ok (Some (path, json))" "read path = Ok json"
    and "\<forall>c s. to_json c = Ok s \<longrightarrow> from_json s = Ok c"
    and "open_saved read from_json exists_at games (Some path) w0 w'"
  shows "w_mount_point w' = w_mount_point w \<and> w_keys_path w' = w_keys_path w \<and> w_dict_path w' = w_dict_path w \<and>
    w_cache_path w' = w_cache_path w \<and> w_use_cache w' = w_use_cache w \<and>
    (w_current_game_dir w = GAME_DIR_CUSTOM \<longrightarrow>
      w_current_game_dir w' = GAME_DIR_CUSTOM \<and> w_game_name w' = w_game_name w \<and> w_bhds w' = w_bhds w) \<and>
    (\<forall>g. w_current_game_dir w \<in> fst ` set games - {[], GAME_DIR_PLACEHOLDER, GAME_DIR_CUSTOM} \<longrightarrow>
      btree_get (w_current_game_dir w) games = Some g \<longrightarrow> (\<forall>bhd \<in> set (gi_bhds g). \<not> is_header bhd) \<longrightarrow> header_ok (w_bhds w) \<longrightarrow>
      w_current_game_dir w' = w_current_game_dir w \<and> w_game_name w' = gi_name g \<and>
      mset (tl (w_bhds w')) = mset (map (\<lambda>bhd. \<lparr>bc_name = bhd, bc_parent_dir = w_current_game_dir w, bc_checked = True\<rparr>)
        (filter (bhd_exists exists_at (w_current_game_dir w)) (gi_bhds g))))"
proof -
  let ?w1 = "set_context (get_context w) w0" and ?dir = "w_current_game_dir w"
  have "to_json (get_context w) = Ok json"
    using assms(1) by (cases "to_json (get_context w)") (simp_all add: save_context_def)
  then have up: "update_bhds exists_at games ?w1 w'"
    using assms(2-4) by (auto elim!: open_savedE simp: open_context_def)
  have w1: "w_current_game_dir ?w1 = ?dir" "w_bhds ?w1 = w_bhds w" "w_game_name ?w1 = w_game_name w" "same_settings w ?w1"
    by (simp_all add: set_context_def get_context_def same_settings_def)
  have "same_settings w w'" using w1(4) update_settings [OF up] by (rule same_settings_trans)
  moreover have "w' = update_dirs games ?w1" if "?dir = GAME_DIR_CUSTOM" using up that w1(1) by (auto elim: update_bhdsE)
  then have "w_current_game_dir w' = GAME_DIR_CUSTOM \<and> w_game_name w' = w_game_name w \<and> w_bhds w' = w_bhds w"
    if "?dir = GAME_DIR_CUSTOM" using that w1 update_dirs_current [of ?w1 games] update_dirs_name by simp
  moreover have "w_current_game_dir w' = ?dir \<and> w_game_name w' = gi_name g \<and>
      mset (tl (w_bhds w')) = mset (map (\<lambda>bhd. \<lparr>bc_name = bhd, bc_parent_dir = ?dir, bc_checked = True\<rparr>)
        (filter (bhd_exists exists_at ?dir) (gi_bhds g)))"
    if listed: "?dir \<in> fst ` set games - {[], GAME_DIR_PLACEHOLDER, GAME_DIR_CUSTOM}" "btree_get ?dir games = Some g"
      "\<forall>bhd \<in> set (gi_bhds g). \<not> is_header bhd" "header_ok (w_bhds w)" for g
  proof -
    have d: "w_current_game_dir (update_dirs games ?w1) = ?dir" using listed(1) w1(1) update_dirs_current [of ?w1 games] by simp
    have sel: "select_game_dir exists_at games (update_dirs games ?w1) w'" using up listed(1) w1(1) by (auto elim: update_bhdsE)
    show ?thesis using select_lists_all [OF _ sel _ _ listed(3), unfolded d] listed w1(2) by simp
  qed
  ultimately show ?thesis unfolding same_settings_def by blast
qed

theorem saved_configuration_reopened_witness:
  "\<exists>w'. open_saved (\<lambda>_. (Ok ''custom'' :: (unit, string) outcome)) (\<lambda>_. Ok (get_context sample_custom)) (\<lambda>_. True) [] (Some ''a.json'') window_default w' \<and>
    w_bhds w' = w_bhds sample_custom"
proof -
  let ?to = "\<lambda>c. if c = get_context sample_custom then Ok ''custom'' else Err ()"
  have cur: "w_current_game_dir sample_custom = GAME_DIR_CUSTOM" by (simp add: sample_custom_def)
  then have "update_bhds (\<lambda>_. True) [] (set_context (get_context sample_custom) window_default)
      (update_dirs [] (set_context (get_context sample_custom) window_default))"
    by (intro update_bhds.custom) (simp add: set_context_def get_context_def)
  then have op: "open_context (\<lambda>_. True) [] (get_context sample_custom) window_default
      (update_dirs [] (set_context (get_context sample_custom) window_default))" by (simp add: open_context_def)
  obtain w' where w': "open_saved (\<lambda>_. (Ok ''custom'' :: (unit, string) outcome)) (\<lambda>_. Ok (get_context sample_custom)) (\<lambda>_. True) [] (Some ''a.json'') window_default w'"
    using open_saved.picked [where read = "\<lambda>_. (Ok ''custom'' :: (unit, string) outcome)" and from_json = "\<lambda>_. Ok (get_context sample_custom)", OF refl refl op] ..
  have "save_context ?to (Some ''a.json'') sample_custom = Ok (Some (''a.json'', ''custom''))" by (simp add: save_context_def)
  moreover have "\<forall>c s. ?to c = Ok s \<longrightarrow> Ok (get_context sample_custom) = (Ok c :: (unit, app_context) outcome)" by simp
  ultimately have "w_bhds w' = w_bhds sample_custom"
    using saved_configuration_reopened [OF _ refl _ w'] cur by blast
  then show ?thesis using w' by blast
qed

end
