(* ===== verification/Spec2Isabelle.thy ===== *)
theory Spec2Isabelle
  imports Hash RofsLookup Unaligned Bhd5 Aligned Encryption DvdbndFs Mount Rsa Fuser Projfs Keys Thread Start Served Lifecycle Program Gui GuiFiles
begin

text \<open>
  A model of \<open>fsvfs\<close>, which mounts the DVDBND archives of games as a read-only filesystem, and of
  its graphical front end. Paths below are relative to the two crates: \<open>src/\<close> is the mount program,
  \<open>gui/src/\<close> the front end.

  \<^bold>\<open>The program.\<close> A mount starts from the paths of header files (BHD5) and of directories with keys
  and dictionaries. The keys that open the headers are looked for, the dictionary of the game they
  settle on is read, every header is read, decrypted and parsed, its entries become files with the
  names that the dictionary has for their hashes, the files of an archive make a tree, the trees are
  merged and frozen, and a driver (FUSE or the Windows projected file system) answers the kernel from
  the frozen tree and reads the files from the data archives (BDT), decrypting where the header says
  so. Processed archives are cached. An interrupt unmounts.

  \<^bold>\<open>Theories, in the order of their imports.\<close>
  \<^item> \<open>Prelude\<close>: machine integers, the outcome of a fallible function (value, error or panic), byte
    orders, generic lemmas.
  \<^item> \<open>Hash\<close> (\<open>src/hash.rs\<close>, \<open>src/hash/mad.rs\<close>): the path hashes; the unrolled loop equals the plain
    multiply-and-add hash.
  \<^item> \<open>FsPath\<close>, \<open>FsObject\<close>, \<open>Rofs\<close>, \<open>RofsLookup\<close> (\<open>src/cow.rs\<close>, \<open>src/filesystem.rs\<close>,
    \<open>src/filesystem/object.rs\<close>): paths and their normal form (the result of
    cancelling dots in any order), the mutable tree with insertion and
    merge, the frozen arrays of nodes, names and entries, and lookups. The abstract specification is a
    tree of names (\<open>find_node\<close>, \<open>object_lookup\<close>); building, merging, freezing and looking up refine it,
    freezing terminates, and no index leaves its array.
  \<^item> \<open>Unaligned\<close>, \<open>Bhd5\<close> (\<open>src/unaligned.rs\<close>, \<open>src/dvdbnd/bhd5.rs\<close>, \<open>bhd5/*.rs\<close>): odd-width integers
    and the header format of five games in both byte orders; a header that is accepted is within its
    bytes and valid in every entry, and a written header is read back.
  \<^item> \<open>Encryption\<close> (\<open>src/dvdbnd/filesystem/encryption.rs\<close>): the store of keys and ranges, and
    decryption of a window of a file, byte by byte for every offset; it equals block-wise decryption of
    the ranges when the window cuts no block at its start. Behind a cut block the code goes wrong, as
    \<open>decrypt_correct\<close> says, so the reads of encrypted files further down start a whole number of blocks
    from the ranges that they meet (\<open>whole_blocks\<close>).
  \<^item> \<open>Aligned\<close> (\<open>aligned.rs\<close>, \<open>aligned/split.rs\<close>): the pool of buffers as a state machine, streams of
    aligned reads, split views. The locale \<open>buffer_pool\<close> is the interface of the pool.
  \<^item> \<open>DvdbndFs\<close> (\<open>src/dvdbnd/filesystem.rs\<close>, \<open>dict.rs\<close>): names from hashes, files from entries, all
    archives; the parallel reduction is a relation over all orders and groupings.
  \<^item> \<open>Mount\<close>, \<open>ReadOnly\<close> (\<open>src/dvdbnd/mount.rs\<close>): reading a file, plain or decrypting; the callback
    gets exactly the requested range. The locale \<open>read_only_filesystem\<close> is what the drivers use.
  \<^item> \<open>Rsa\<close> (\<open>src/crypto/rsa.rs\<close>): keys from DER and PEM, blocks, the decrypting reader, whose
    specification is the plaintext still to come (\<open>pending\<close>).
  \<^item> \<open>Fuser\<close>, \<open>Projfs\<close> (\<open>src/dvdbnd/mount/*.rs\<close>): the callbacks of the drivers; listings are complete,
    reads exact, the tear-down returns; in \<open>Projfs\<close> also the set-up of the mount point and the
    elevated commands that enable the feature (\<open>src/runas.rs\<close>).
  \<^item> \<open>Dirs\<close>, \<open>Keys\<close> (\<open>src/dvdbnd.rs\<close>, \<open>path.rs\<close>, \<open>dict.rs\<close>, \<open>keys.rs\<close>): the walk over a directory, the
    archives, the dictionary of a game, PEM files by game and the search for keys, with the state of
    its loop as a record and an invariant; \<open>keys_ok\<close> says what is found and what may be left out.
  \<^item> \<open>Cache\<close>, \<open>Start\<close> (\<open>src/cache.rs\<close>, \<open>mount.rs\<close>, \<open>dvdbnd.rs\<close>, \<open>cli.rs\<close>): the cache, the construction
    of a mount from keys and dictionary, the fields of the command line with their names and defaults. A
    coherent cache cannot be observed.
  \<^item> \<open>Served\<close>: what a mount that was made serves, without a driver: only files of its archives, each with
    its data archive and store, and every entry, with the plaintext that its header promises.
  \<^item> \<open>Thread\<close> (\<open>src/thread.rs\<close>): the main thread, the signal handler and the reader of standard input
    as a step relation over mutex, condition variable and flag; the locale \<open>ranked_run\<close> turns progress
    and a measure into inevitability.
  \<^item> \<open>Lifecycle\<close>: a mount from its set-up to its end, the drivers composed with \<open>Thread\<close>.
  \<^item> \<open>Program\<close> (\<open>src/main.rs\<close>, \<open>gui/src/main.rs\<close>): the entry points, from the arguments to the result.
  \<^item> \<open>Gui\<close> (\<open>gui/src/app.rs\<close>, \<open>context.rs\<close>, \<open>steam.rs\<close>): the window as a state machine with handlers
    that wait and the configurations in the user's files, and the command of a mount, which the command
    line reads back. The locale \<open>path_map\<close> is the interface of the map of located games. \<open>GuiFiles\<close>:
    the dialogs, saved configurations and the guard of the mount button.
  \<^item> This theory: the properties that span the components, from the headers on disk to the bytes that a
    read of the mounted file replies, and from the command line to the archives of the mount.

  \<^bold>\<open>Conventions.\<close> A structure is a record, an enumeration a datatype, an integer whose width matters a
  word; a length or an index in memory (\<open>usize\<close>) is a natural number. Arithmetic wraps, as in the
  release profile. A panic is a value. A hash map is an association list; where its iteration order
  shows, results are stated for every order. Loops that end are functions with a measure; the walk
  over directories, which may not, is a partial function in \<open>option\<close>, and it is proved to return on
  every finite hierarchy. No fuel is used: the bounds of the step relation in \<open>Thread\<close> are numbers of
  signals and spurious wake-ups that are arbitrary and part of the state.

  \<^bold>\<open>Parameters.\<close> Code outside the repository is an argument of the definitions that use it, with what
  is relied on as a named predicate: the layout and search of an Eytzinger array (\<open>eytzinger_ok\<close>), the
  block cipher (\<open>block_ok\<close>), managed reads of a file (\<open>reads_file\<close>), the store, serializer and
  compressor of the cache (\<open>heed_ok\<close>, \<open>reads_ok\<close>, \<open>codec_ok\<close>), the parser of
  the command line (\<open>clap_ok\<close>), base64, the 128-bit file hash, the file system, the kernel buffers of the
  drivers, dialogs and Steam libraries. Every theorem with such a hypothesis is followed by a witness
  that instantiates it.

  \<^bold>\<open>Not modelled.\<close> Logging, timing (\<open>src/time.rs\<close>) and error reporting; the asynchronous executor and
  its threads, beyond the orders that are stated; raw pointers and reference counts of the driver
  registration; the build scripts, which copy files and compile the window; in the front end the binding
  of callbacks, the error popup, the dialogs themselves and the running
  process, whose output and exit the window only waits for.
\<close>

section \<open>From the header on disk to the bytes of a read\<close>

text \<open>C1: a file of an archive on disk can be read through the mount: the mount was made from the
  headers and the keys, in whatever order and with whatever of it cached coherently; when no other
  file has its path, looking up the path that the dictionary or the hash gives the entry finds an
  inode, and a read of that inode replies exactly the requested range, cut at the end of the file,
  of the plaintext that the header promises for the bytes of the data archive beside it. This holds
  for every read of a plain file, and of an encrypted one (not empty, its ranges disjoint and inside
  the file) for every read that starts a whole number of blocks from the start of each encrypted
  range that it meets; a read that starts inside a block of a range is not covered.\<close>

theorem archive_file_readable:
  assumes "from_keys_and_dict layout read hash metadata cache_of by_path d (Ok (fm_mount fm))"
    and "read_bhds read hash by_path = Ok files"
    and "distinct (map source_id files)" "distinct (map source_path files)" "coherent d cache_of files"
    and "eytzinger_ok layout esearch" "(path, bytes, src, k) \<in> set files" "parse_bhd (path, bytes, src, k) = Ok (path, bhd, src)"
    and "process_bhd d (bhd_of bhd) path src = Ok (fs, store, src)" "i < length fs" "unshadowed DvdbndConfig_SEPARATORS fs i"
    and "\<forall>xs obj. mset xs = mset (map (snd \<circ> tree_of d) files) \<longrightarrow> reduces xs obj \<longrightarrow> small_tree (Branch (obj_root obj))"
    and "\<forall>f \<in> set files. source_id f \<noteq> src \<longrightarrow>
      object_free (snd (tree_of d f)) (stored_path DvdbndConfig_SEPARATORS (fst (fs ! i)))"
    and "e = archive_entries (bhd_of bhd) ! i" "entry_plaintext decrypt_block e (file_encryption (bhd_of bhd) ! i) data rs pt"
    and "open_file (to_bdt path) = Ok bdt" "reads_file bdt data" "length data < 2 ^ 63"
    and "unat (file_offset e) + unat (file_size e) \<le> length data"
  shows "\<exists>ino. lookup DvdbndConfig_SEPARATORS esearch (fm_fs fm) (archive_path (bhd_of bhd) d path e) = Ok ino \<and>
    (\<forall>offset sz. let a = min (unat offset) (unat (readable_len e)); b = min (a + unat sz) (unat (readable_len e))
       in whole_blocks rs a b \<longrightarrow>
          fuse_read decrypt_block open_file fm True ino ino offset sz [] = Ok (slice a b pt))"
proof -
  obtain ino en x mp where x: "lookup DvdbndConfig_SEPARATORS esearch (fm_fs fm) (archive_path (bhd_of bhd) d path e) = Ok ino"
    "rofs_entry (fm_fs fm) ino = Ok en" "kind en = EFile x" "unpadded_len x = readable_len e"
    "plaintext_of decrypt_block (fm_mount fm) x data rs pt" "bdt_open open_file (m_bdts (fm_mount fm)) x [] = Ok (bdt, mp)"
    "archive_ok bdt data x" by (rule archive_file_mounted [where open_file = open_file, OF assms])
  have "fuse_read decrypt_block open_file fm True ino ino offset sz [] =
      Ok (slice (req_start x offset) (req_stop x offset sz) pt)"
    if "whole_blocks rs (req_start x offset) (req_stop x offset sz)" for offset sz
    by (rule fuse_read_plaintext [OF x(2,3,6,7,5) that])
  then show ?thesis using x(1) unfolding req_start_def req_stop_def x(4) Let_def by blast
qed

theorem archive_file_readable_witness:
  "\<exists>m ino. from_keys_and_dict sorted_layout (\<lambda>_. Ok sample_bhd) (\<lambda>_. 0) (\<lambda>_. Ok 1000) (\<lambda>_. None)
      [(''data.bhd'', None)] None (Ok m) \<and>
    fuse_read (\<lambda>k b. b) (\<lambda>_. Ok sample_archive_read) \<lparr>fm_mount = m, timestamp = 0, bdt_sizes = []\<rparr> True ino ino 1 3 [] = Ok [2, 3, 4]"
proof -
  obtain m where m: "from_keys_and_dict sorted_layout (\<lambda>_. Ok sample_bhd) (\<lambda>_. 0) (\<lambda>_. Ok 1000) (\<lambda>_. None)
      [(''data.bhd'', None)] None (Ok m)"
    using sample_mounted [OF sample_coherent(1)] by blast
  let ?fm = "\<lparr>fm_mount = m, timestamp = 0, bdt_sizes = []\<rparr> :: fuse_mount"
  have fm: "from_keys_and_dict sorted_layout (\<lambda>_. Ok sample_bhd) (\<lambda>_. 0) (\<lambda>_. Ok 1000) (\<lambda>_. None)
      [(''data.bhd'', None)] None (Ok (fm_mount ?fm))" using m by simp
  note T = archive_file_readable [OF fm sample_read _ _ sample_coherent(1) eytzinger_ok_sorted sample_entry_mounted _ sample_archive_data(1-3)]
  from T [of "\<lambda>_. Ok sample_archive_read"] obtain ino where "\<forall>offset sz.
      fuse_read (\<lambda>k b. b) (\<lambda>_. Ok sample_archive_read) ?fm True ino ino offset sz [] =
        Ok (slice (min (unat offset) 10) (min (min (unat offset) 10 + unat sz) 10) [1, 2, 3, 4, 5, 6, 7, 8, 9, 10])"
    by (auto simp: sample_archive_data(4) Let_def)
  from this [rule_format, of 1 3]
  have "fuse_read (\<lambda>k b. b) (\<lambda>_. Ok sample_archive_read) ?fm True ino ino 1 3 [] = Ok [2, 3, 4]" by (simp add: slice_def)
  then show ?thesis using m by blast
qed

text \<open>C3: the same file through the other driver: a read of its path by the projected file system is
  pending, and its task writes consecutive pieces, at their offsets, that are exactly the requested
  range of the plaintext, and completes the command with success when the service took all of them
  and with a failure when it refused one. As with the other driver this holds for every read of a
  plain file and for every read of an encrypted one that starts a whole number of blocks from the
  start of each encrypted range that it meets.\<close>

theorem archive_file_projected:
  assumes "from_keys_and_dict layout read hash metadata cache_of by_path d (Ok (mc_mount c))"
    and "read_bhds read hash by_path = Ok files"
    and "distinct (map source_id files)" "distinct (map source_path files)" "coherent d cache_of files"
    and "eytzinger_ok layout esearch" "(path, bytes, src, k) \<in> set files" "parse_bhd (path, bytes, src, k) = Ok (path, bhd, src)"
    and "process_bhd d (bhd_of bhd) path src = Ok (fs, store, src)" "i < length fs" "unshadowed DvdbndConfig_SEPARATORS fs i"
    and "\<forall>xs obj. mset xs = mset (map (snd \<circ> tree_of d) files) \<longrightarrow> reduces xs obj \<longrightarrow> small_tree (Branch (obj_root obj))"
    and "\<forall>f \<in> set files. source_id f \<noteq> src \<longrightarrow>
      object_free (snd (tree_of d f)) (stored_path DvdbndConfig_SEPARATORS (fst (fs ! i)))"
    and "e = archive_entries (bhd_of bhd) ! i" "entry_plaintext decrypt_block e (file_encryption (bhd_of bhd) ! i) data rs pt"
    and "open_file (to_bdt path) = Ok bdt" "reads_file bdt data" "length data < 2 ^ 63"
    and "unat (file_offset e) + unat (file_size e) \<le> length data"
  shows "let a = min (unat offset) (unat (readable_len e)); b = min (a + unat len) (unat (readable_len e))
    in whole_blocks rs a b \<longrightarrow>
      (\<exists>ps. get_file_data esearch decrypt_block open_file write_data [] True True cmd
          (Some (archive_path (bhd_of bhd) d path e)) offset len c =
        (E_PENDING, None, c\<lparr>completed := completed c @ [(cmd, read_ends write_data ps)]\<rparr>) \<and>
      consecutive pt a ps \<and> concat (map fst ps) = slice a b pt)"
proof -
  obtain ino en x mp where x: "lookup DvdbndConfig_SEPARATORS esearch (mc_fs c) (archive_path (bhd_of bhd) d path e) = Ok ino"
    "rofs_entry (mc_fs c) ino = Ok en" "kind en = EFile x" "unpadded_len x = readable_len e"
    "plaintext_of decrypt_block (mc_mount c) x data rs pt" "bdt_open open_file (m_bdts (mc_mount c)) x [] = Ok (bdt, mp)"
    "archive_ok bdt data x" by (rule archive_file_mounted [where open_file = open_file, OF assms])
  have f: "file_entry_of (mc_mount c) ino = Ok x" using x(2,3) by (simp add: file_entry_of_def)
  note r = req_start_def [of x offset, unfolded x(4)] req_stop_def [of x offset len, unfolded req_start_def x(4)]
  from projfs_read_exact [where write_data = write_data and len = len and cmd = cmd, OF x(1) f x(6,7,5), of offset, unfolded r]
  show ?thesis unfolding Let_def by blast
qed

theorem archive_file_projected_witness:
  "\<exists>m c'. from_keys_and_dict sorted_layout (\<lambda>_. Ok sample_bhd) (\<lambda>_. 0) (\<lambda>_. Ok 1000) (\<lambda>_. None)
      [(''data.bhd'', None)] None (Ok m) \<and>
    get_file_data linear_search (\<lambda>k b. b) (\<lambda>_. Ok sample_archive_read) (\<lambda>_ _. None) [] True True 8
      (Some (archive_path sample_archive None ''data.bhd'' sample_entry)) 1 3 (mount_context_new m) = (E_PENDING, None, c') \<and>
    (\<exists>ps. completed c' = [(8, S_OK, Some ps)] \<and> concat (map snd ps) = [2, 3, 4])"
proof -
  obtain m where m: "from_keys_and_dict sorted_layout (\<lambda>_. Ok sample_bhd) (\<lambda>_. 0) (\<lambda>_. Ok 1000) (\<lambda>_. None)
      [(''data.bhd'', None)] None (Ok m)"
    using sample_mounted [OF sample_coherent(1)] by blast
  let ?c = "mount_context_new m"
  have c: "from_keys_and_dict sorted_layout (\<lambda>_. Ok sample_bhd) (\<lambda>_. 0) (\<lambda>_. Ok 1000) (\<lambda>_. None)
      [(''data.bhd'', None)] None (Ok (mc_mount ?c))" "completed ?c = []"
    using m by (simp_all add: mount_context_new_def)
  note T = archive_file_projected [OF c(1) sample_read _ _ sample_coherent(1) eytzinger_ok_sorted sample_entry_mounted _ sample_archive_data(1-3),
      of "\<lambda>_. Ok sample_archive_read" 1 3 "\<lambda>_ _. None" 8]
  from T [unfolded Let_def] obtain ps where ps: "get_file_data linear_search (\<lambda>k b. b) (\<lambda>_. Ok sample_archive_read) (\<lambda>_ _. None) [] True True 8
      (Some (archive_path sample_archive None ''data.bhd'' sample_entry)) 1 3 ?c =
      (E_PENDING, None, ?c\<lparr>completed := [(8, S_OK, Some (map (\<lambda>(b, off :: u32). (ucast off :: u64, b)) ps))]\<rparr>)"
    "concat (map fst ps) = slice 1 4 [1, 2, 3, 4, 5, 6, 7, 8, 9, 10]"
    by (auto simp: sample_archive_data(4) bhd_of_def c(2) read_ends_def)
  have "map snd (map (\<lambda>(b, off :: u32). (ucast off :: u64, b)) ps) = map fst ps" by (induction ps) auto
  then have "concat (map snd (map (\<lambda>(b, off :: u32). (ucast off :: u64, b)) ps)) = [2, 3, 4]"
    using ps(2) by (simp only:) (simp add: slice_def)
  moreover have "completed (?c\<lparr>completed := xs\<rparr>) = xs" for xs by simp
  ultimately show ?thesis using m ps(1) by blast
qed

text \<open>C4: nothing else is served, and nothing panics: every file of a mount is a file of one of its
  archives, whose data archive and encryption store are at hand under the identifier of the file,
  and no callback of the driver other than a read panics, for any inode, handle, name and offset.\<close>

theorem mount_serves_archive_files:
  assumes "from_keys_and_dict layout read hash metadata cache_of by_path d (Ok (fm_mount fm))"
    and "read_bhds read hash by_path = Ok files" "files \<noteq> []"
    and "distinct (map source_id files)" "distinct (map source_path files)" "coherent d cache_of files"
    and "eytzinger_ok layout esearch"
    and "\<forall>xs obj. mset xs = mset (map (snd \<circ> tree_of d) files) \<longrightarrow> reduces xs obj \<longrightarrow> small_tree (Branch (obj_root obj))"
  shows "(\<forall>i e x. rofs_entry (fm_fs fm) i = Ok e \<longrightarrow> kind e = EFile x \<longrightarrow>
      (\<exists>f bhd fs store. f \<in> set files \<and> parse_bhd f = Ok (source_path f, bhd, source_id f) \<and>
        process_bhd d (bhd_of bhd) (source_path f) (source_id f) = Ok (fs, store, source_id f) \<and>
        x \<in> snd ` set fs \<and> file_src_id x = source_id f \<and>
        encryption_store (m_fs (fm_mount fm)) (source_id f) = Some store \<and>
        map_of (m_bdts (fm_mount fm)) (source_id f) = Some (to_bdt (source_path f)))) \<and>
    fuse_lookup search fm i name \<noteq> Panic \<and> fuse_getattr fm i \<noteq> Panic \<and> fuse_open fm i mode \<noteq> Panic \<and>
    fuse_opendir fm i mode \<noteq> Panic \<and> fuse_release fm i fh \<noteq> Panic \<and> fuse_releasedir fm i fh \<noteq> Panic \<and>
    fuse_readdir fits fm i offset \<noteq> Panic \<and> fuse_readdirplus fits' fm i offset \<noteq> Panic \<and> fuse_statfs fm i \<noteq> Panic"
proof -
  note S = served_files [OF assms]
  show ?thesis using S(2) fuse_never_panics [OF S(1)] by blast
qed

theorem mount_serves_archive_files_witness:
  "\<exists>m. from_keys_and_dict sorted_layout (\<lambda>_. Ok sample_bhd) (\<lambda>_. 0) (\<lambda>_. Ok 1000) (\<lambda>_. None)
      [(''data.bhd'', None)] None (Ok m) \<and>
    fuse_readdirplus (\<lambda>_ _. True) \<lparr>fm_mount = m, timestamp = 0, bdt_sizes = []\<rparr> 77 5 \<noteq> Panic"
proof -
  obtain m where m: "from_keys_and_dict sorted_layout (\<lambda>_. Ok sample_bhd) (\<lambda>_. 0) (\<lambda>_. Ok 1000) (\<lambda>_. None)
      [(''data.bhd'', None)] None (Ok m)"
    using sample_mounted [OF sample_coherent(1)] by blast
  let ?fm = "\<lparr>fm_mount = m, timestamp = 0, bdt_sizes = []\<rparr> :: fuse_mount"
  have fm: "from_keys_and_dict sorted_layout (\<lambda>_. Ok sample_bhd) (\<lambda>_. 0) (\<lambda>_. Ok 1000) (\<lambda>_. None)
      [(''data.bhd'', None)] None (Ok (fm_mount ?fm))" using m by simp
  from mount_serves_archive_files [OF fm sample_read _ _ _ sample_coherent(1) eytzinger_ok_sorted sample_entry_mounted(6)]
  have "fuse_readdirplus (\<lambda>_ _. True) ?fm 77 5 \<noteq> Panic" by simp
  then show ?thesis using m by blast
qed

section \<open>From the command line to the archives of the mount\<close>






end
